(* ===== verification/Laguna_Prelude.thy ===== *)
theory Laguna_Prelude
  imports Main "HOL-Library.Word" "HOL-Library.List_Lexorder" "HOL-Library.Char_ord"
    "HOL-Library.Sublist"
begin

text \<open>
  Shared ground of the Laguna development: the machine types the Go code uses, the error
  values its packages return, the result type of every modelled operation, the conversions
  between Go strings and byte slices, the fixed-width integer encodings of
  \<^verbatim>\<open>encoding/binary\<close>, and the generic lemmas the component theories rely on.

  A Go \<^verbatim>\<open>string\<close> is a sequence of bytes; it is modelled by \<^typ>\<open>string\<close>, whose characters
  are 8 bits wide, and a \<^verbatim>\<open>[]byte\<close> by a list of \<^typ>\<open>8 word\<close>.
\<close>

section \<open>Machine types\<close>

type_synonym byte = "8 word"
type_synonym u16 = "16 word"
type_synonym u64 = "64 word"

named_theorems codec_simps \<open>lengths and round trips of the byte encodings\<close>
named_theorems res_simps \<open>unfolding of the result plumbing\<close>

section \<open>Errors and results\<close>

text \<open>
  The error values of the packages, and the errors of the standard library they pass on.
  \<open>Wrap\<close> is \<^verbatim>\<open>fmt.Errorf("...: %w", err)\<close>; \<open>IOErr\<close> stands for an error of the operating
  system or the network; \<open>Remote\<close> is \<^verbatim>\<open>errors.New\<close> of a text received from the peer.
\<close>

datatype goerr =
    ErrUnknowMethod | ErrWrongQuery | ErrWrongArgsLen
  | ErrNotFound
  | ErrIndexNotFound
  | ErrNoNewLogs
  | ErrNonReadOpSlave
  | ErrUnknownCommand byte
  | ErrArgTooLarge
  | ErrNoTarget
  | ErrFuncNil
  | ErrLsnZero
  | ErrShortRequest
  | ErrInvalidDataLength
  | ErrNotExist
  | ErrClosed
  | EOF
  | UnexpectedEOF
  | CtxCanceled
  | CtxDeadlineExceeded
  | IOErr string
  | NetErr string
  | Remote string
  | Wrap string goerr

text \<open>\<^verbatim>\<open>errors.Is\<close> for the comparable error values above: the chain of wrapped errors is searched.\<close>

fun errors_Is :: "goerr \<Rightarrow> goerr \<Rightarrow> bool" where
  "errors_Is (Wrap m e) t = (Wrap m e = t \<or> errors_Is e t)"
| "errors_Is e t = (e = t)"

text \<open>
  An operation of the program ends in a value, in an error value, in a run-time panic, or
  never (it blocks on a lock or a channel that nobody will release).
\<close>

datatype 'a res = Ok 'a | Fail goerr | Panic | Hang

fun is_Ok :: "'a res \<Rightarrow> bool" where
  "is_Ok (Ok _) = True"
| "is_Ok _ = False"

text \<open>
  \<open>then_res r k\<close> continues with the value of \<open>r\<close>; every other ending is passed on, as
  \<^verbatim>\<open>if err != nil { return ..., err }\<close> does.
\<close>

fun then_res :: "'a res \<Rightarrow> ('a \<Rightarrow> 'b res) \<Rightarrow> 'b res" where
  "then_res (Ok v) k = k v"
| "then_res (Fail e) k = Fail e"
| "then_res Panic k = Panic"
| "then_res Hang k = Hang"

lemma then_res_Ok_iff [simp]:
  "then_res r k = Ok w \<longleftrightarrow> (\<exists>v. r = Ok v \<and> k v = Ok w)"
  by (cases r) auto

lemma then_res_cong [fundef_cong]:
  "r = r' \<Longrightarrow> (\<And>v. r' = Ok v \<Longrightarrow> k v = k' v) \<Longrightarrow> then_res r k = then_res r' k'"
  by (cases r') auto

lemma is_Ok_iff: "is_Ok r \<longleftrightarrow> (\<exists>v. r = Ok v)"
  by (cases r) auto

section \<open>Slices\<close>

text \<open>\<^verbatim>\<open>xs[i]\<close> and \<^verbatim>\<open>xs[i:]\<close>: out of range is a run-time panic.\<close>

definition go_index :: "'a list \<Rightarrow> nat \<Rightarrow> 'a res" where
  "go_index xs i = (if i < length xs then Ok (xs ! i) else Panic)"

definition go_from :: "'a list \<Rightarrow> nat \<Rightarrow> 'a list res" where
  "go_from xs i = (if i \<le> length xs then Ok (drop i xs) else Panic)"

lemma go_index_in [res_simps]: "i < length xs \<Longrightarrow> go_index xs i = Ok (xs ! i)"
  by (simp add: go_index_def)

lemma go_from_in [res_simps]: "i \<le> length xs \<Longrightarrow> go_from xs i = Ok (drop i xs)"
  by (simp add: go_from_def)

section \<open>Strings and bytes\<close>

lemma unat_byte_lt: "unat (b :: byte) < 256"
  by (rule order_less_le_trans [OF unsigned_less]) simp

definition byte_of_char :: "char \<Rightarrow> byte" where
  "byte_of_char c = word_of_nat (of_char c)"

definition char_of_byte :: "byte \<Rightarrow> char" where
  "char_of_byte b = char_of (unat b)"

text \<open>The conversions \<^verbatim>\<open>[]byte(s)\<close> and \<^verbatim>\<open>string(b)\<close>.\<close>

definition bytes_of_string :: "string \<Rightarrow> byte list" where
  "bytes_of_string s = map byte_of_char s"

definition string_of_bytes :: "byte list \<Rightarrow> string" where
  "string_of_bytes bs = map char_of_byte bs"

lemma char_of_byte_of_char [simp]: "char_of_byte (byte_of_char c) = c"
proof -
  have "unat (byte_of_char c) = of_char c"
    by (simp add: byte_of_char_def unat_of_nat)
  then show ?thesis by (simp add: char_of_byte_def)
qed

lemma byte_of_char_of_byte [simp]: "byte_of_char (char_of_byte b) = b"
proof -
  have "unat b < 256" by (rule unat_byte_lt)
  then show ?thesis by (simp add: byte_of_char_def char_of_byte_def)
qed

lemma string_bytes_roundtrip [simp]: "string_of_bytes (bytes_of_string s) = s"
  by (simp add: bytes_of_string_def string_of_bytes_def o_def)

lemma bytes_string_roundtrip [simp]: "bytes_of_string (string_of_bytes bs) = bs"
  by (simp add: bytes_of_string_def string_of_bytes_def o_def)

lemma length_bytes_of_string [simp, codec_simps]: "length (bytes_of_string s) = length s"
  by (simp add: bytes_of_string_def)

lemma length_string_of_bytes [simp, codec_simps]: "length (string_of_bytes bs) = length bs"
  by (simp add: string_of_bytes_def)

lemma inj_bytes_of_string: "bytes_of_string s = bytes_of_string t \<longleftrightarrow> s = t"
  by (metis string_bytes_roundtrip)

section \<open>Fixed-width integers as bytes\<close>

text \<open>
  \<open>le_bytes n x\<close> are the \<open>n\<close> low bytes of \<open>x\<close>, the least significant first;
  \<open>le_val\<close> reads such bytes back. Big endian is the reverse.
\<close>

fun le_bytes :: "nat \<Rightarrow> nat \<Rightarrow> byte list" where
  "le_bytes 0 x = []"
| "le_bytes (Suc n) x = word_of_nat x # le_bytes n (x div 256)"

fun le_val :: "byte list \<Rightarrow> nat" where
  "le_val [] = 0"
| "le_val (b # bs) = unat b + 256 * le_val bs"

definition be_bytes :: "nat \<Rightarrow> nat \<Rightarrow> byte list" where
  "be_bytes n x = rev (le_bytes n x)"

definition be_val :: "byte list \<Rightarrow> nat" where
  "be_val bs = le_val (rev bs)"

lemma length_le_bytes [simp, codec_simps]: "length (le_bytes n x) = n"
  by (induction n arbitrary: x) auto

lemma length_be_bytes [simp, codec_simps]: "length (be_bytes n x) = n"
  by (simp add: be_bytes_def)

lemma le_val_le_bytes: "le_val (le_bytes n x) = x mod 256 ^ n"
proof (induction n arbitrary: x)
  case 0
  then show ?case by simp
next
  case (Suc n)
  have "unat (word_of_nat x :: byte) = x mod 256" by (simp add: unat_of_nat)
  with Suc show ?case by (simp add: mod_mult2_eq)
qed

lemma le_bytes_le_val: "le_bytes (length bs) (le_val bs) = bs"
proof (induction bs)
  case Nil
  then show ?case by simp
next
  case (Cons b bs)
  have "unat b < 256" by (rule unat_byte_lt)
  moreover have "(word_of_nat (unat b + 256 * le_val bs) :: byte) = b"
  proof (rule word_unat_eq_iff [THEN iffD2])
    show "unat (word_of_nat (unat b + 256 * le_val bs) :: byte) = unat b"
      using \<open>unat b < 256\<close> by (simp only: unat_of_nat) simp
  qed
  ultimately show ?case using Cons by simp
qed

lemma le_val_bound: "le_val bs < 256 ^ length bs"
proof (induction bs)
  case Nil
  then show ?case by simp
next
  case (Cons b bs)
  have "unat b < 256" by (rule unat_byte_lt)
  with Cons show ?case by simp
qed

lemma be_val_be_bytes [codec_simps]: "be_val (be_bytes n x) = x mod 256 ^ n"
  by (simp add: be_val_def be_bytes_def le_val_le_bytes)

lemma be_bytes_be_val [codec_simps]: "be_bytes (length bs) (be_val bs) = bs"
  using le_bytes_le_val [of "rev bs"] by (simp add: be_val_def be_bytes_def)

lemma be_val_bound: "be_val bs < 256 ^ length bs"
  using le_val_bound [of "rev bs"] by (simp add: be_val_def)

text \<open>
  Reading exactly \<open>n\<close> bytes off the front of a buffer, as \<^verbatim>\<open>io.ReadFull\<close> does:
  \<^verbatim>\<open>io.EOF\<close> when nothing is there, \<^verbatim>\<open>io.ErrUnexpectedEOF\<close> when too little is.
\<close>

definition read_full :: "nat \<Rightarrow> byte list \<Rightarrow> (byte list \<times> byte list) res" where
  "read_full n bs =
     (if n \<le> length bs then Ok (take n bs, drop n bs)
      else if bs = [] then Fail EOF else Fail UnexpectedEOF)"

lemma read_full_Ok_iff:
  "read_full n bs = Ok (a, r) \<longleftrightarrow> bs = a @ r \<and> length a = n"
  by (auto simp: read_full_def)

lemma read_full_append [simp]:
  "length a = n \<Longrightarrow> read_full n (a @ r) = Ok (a, r)"
  by (simp add: read_full_def)

lemma read_full_extend:
  "read_full n bs = Ok (a, r) \<Longrightarrow> read_full n (bs @ more) = Ok (a, r @ more)"
  by (auto simp: read_full_Ok_iff)

lemma read_full_no_panic: "read_full n bs \<noteq> Panic" "read_full n bs \<noteq> Hang"
  by (auto simp: read_full_def)

section \<open>Words\<close>

lemma unat_word_of_nat_small: "x < 2 ^ LENGTH('a::len) \<Longrightarrow> unat (word_of_nat x :: 'a word) = x"
  by (simp add: unat_of_nat)

lemma unat_u64_lt: "unat (w :: u64) < 256 ^ 8"
  by (rule order_less_le_trans [OF unsigned_less]) simp

lemma unat_u16_lt: "unat (w :: u16) < 256 ^ 2"
  by (rule order_less_le_trans [OF unsigned_less]) simp

section \<open>Maps as Go uses them\<close>

text \<open>\<^verbatim>\<open>for k, v := range m { dst[k] = v }\<close> in the iteration order of the list.\<close>

fun range_store :: "('k \<times> 'v) list \<Rightarrow> ('k \<rightharpoonup> 'v) \<Rightarrow> ('k \<rightharpoonup> 'v)" where
  "range_store [] dst = dst"
| "range_store ((k, v) # kvs) dst = range_store kvs (dst(k \<mapsto> v))"

lemma range_store_notin: "k \<notin> fst ` set kvs \<Longrightarrow> range_store kvs dst k = dst k"
  by (induction kvs arbitrary: dst) auto

lemma range_store_distinct:
  "distinct (map fst kvs) \<Longrightarrow> range_store kvs dst = dst ++ map_of kvs"
proof (induction kvs arbitrary: dst)
  case Nil
  then show ?case by simp
next
  case (Cons kv kvs)
  obtain k v where kv: "kv = (k, v)" by (cases kv)
  have "range_store kvs (dst(k \<mapsto> v)) = dst(k \<mapsto> v) ++ map_of kvs"
    using Cons by simp
  also have "\<dots> = dst ++ (map_of kvs)(k \<mapsto> v)"
  proof -
    have "map_of kvs k = None" using Cons.prems kv by (simp add: map_of_eq_None_iff)
    then show ?thesis by (auto simp: map_add_def fun_eq_iff split: option.splits)
  qed
  finally show ?case by (simp add: kv fun_upd_def)
qed

lemma range_store_append: "range_store (xs @ ys) dst = range_store ys (range_store xs dst)"
  by (induction xs arbitrary: dst) auto

end
