(* ===== verification/Id_Generator.thy ===== *)
theory Id_Generator
  imports Laguna_Prelude
begin

text \<open>
  \<^verbatim>\<open>utils/id_generator/generator.go\<close>, the atomic counter behind transaction and log sequence
  numbers, and \<^verbatim>\<open>utils/ctx_utils/context.go\<close>, which carries the transaction number in a
  context. The counter is a 64-bit word, so \<^verbatim>\<open>Add(1)\<close> wraps around as in the code.
\<close>

section \<open>The generator\<close>

record generator =
  gen_id :: u64

definition NewIDGenerator :: generator where
  "NewIDGenerator = \<lparr>gen_id = 0\<rparr>"

definition NewIDGeneratorWithStart :: "u64 \<Rightarrow> generator" where
  "NewIDGeneratorWithStart st = NewIDGenerator\<lparr>gen_id := st\<rparr>"

text \<open>\<^verbatim>\<open>atomic.Uint64.Add(1)\<close>: one step that stores and returns the incremented value.\<close>

definition NextID :: "generator \<Rightarrow> generator \<times> u64" where
  "NextID g = (let v = gen_id g + 1 in (g\<lparr>gen_id := v\<rparr>, v))"

definition CurrValue :: "generator \<Rightarrow> u64" where
  "CurrValue g = gen_id g"

text \<open>The values of \<open>n\<close> calls of \<open>NextID\<close>, in the order in which the atomic steps happen.\<close>

fun next_ids :: "nat \<Rightarrow> generator \<Rightarrow> u64 list" where
  "next_ids 0 g = []"
| "next_ids (Suc n) g = (let (g', v) = NextID g in v # next_ids n g')"

section \<open>Contexts\<close>

datatype ctxval = CtxU64 u64 | CtxOther

text \<open>
  A context as the code uses it: the value of \<^verbatim>\<open>ctx.Err()\<close> and the values set on it, the
  innermost first. A nil context is \<open>None\<close>.
\<close>

record context_t =
  ctx_err :: "goerr option"
  ctx_vals :: "(nat \<times> ctxval) list"

definition Background :: context_t where
  "Background = \<lparr>ctx_err = None, ctx_vals = []\<rparr>"

definition txKey :: nat where "txKey = 0"

definition SetTxInContext :: "context_t option \<Rightarrow> u64 \<Rightarrow> context_t" where
  "SetTxInContext ctx txID =
     (let c = (case ctx of None \<Rightarrow> Background | Some c \<Rightarrow> c)
      in c\<lparr>ctx_vals := (txKey, CtxU64 txID) # ctx_vals c\<rparr>)"

definition GetTxFromContext :: "context_t option \<Rightarrow> u64" where
  "GetTxFromContext ctx =
     (case ctx of None \<Rightarrow> 0
      | Some c \<Rightarrow> (case map_of (ctx_vals c) txKey of Some (CtxU64 i) \<Rightarrow> i | _ \<Rightarrow> 0))"

section \<open>Properties\<close>

lemma next_ids_eq: "next_ids n g = map (\<lambda>i. gen_id g + 1 + word_of_nat i) [0..<n]"
proof (induction n arbitrary: g)
  case (Suc n)
  have "[0..<Suc n] = 0 # map Suc [0..<n]" by (simp add: map_Suc_upt upt_conv_Cons del: upt_Suc)
  then show ?case by (simp add: Suc NextID_def Let_def o_def algebra_simps)
qed simp

lemma unat_gen_offset:
  assumes "unat (w :: u64) + 1 + i < 2 ^ 64"
  shows "unat (w + 1 + word_of_nat i) = unat w + 1 + i"
proof -
  have "w + 1 + word_of_nat i = (word_of_nat (unat w + 1 + i) :: u64)" by simp
  then show ?thesis using assms by (simp only: unat_of_nat) simp
qed

text \<open>
  Identifiers are unique: up to \<open>2 ^ 64\<close> calls return pairwise different values, whatever
  the start value, and until the counter wraps they are the consecutive numbers after the
  start value, so the largest one seen can serve as the next start (as the restore of the log
  does).
\<close>

lemma next_ids_consecutive:
  "(n \<le> 2 ^ 64 \<longrightarrow> distinct (next_ids n g)) \<and>
   (unat (gen_id g) + n < 2 ^ 64 \<longrightarrow>
      map unat (next_ids n g) = [unat (gen_id g) + 1 ..< unat (gen_id g) + 1 + n])"
proof (intro conjI impI)
  assume n: "n \<le> 2 ^ 64"
  have "inj_on (\<lambda>i. gen_id g + 1 + (word_of_nat i :: u64)) {0..<n}"
  proof (rule inj_onI)
    fix i j assume ij: "i \<in> {0..<n}" "j \<in> {0..<n}"
      and "gen_id g + 1 + (word_of_nat i :: u64) = gen_id g + 1 + word_of_nat j"
    then have "(word_of_nat i :: u64) = word_of_nat j" by simp
    then have "unat (word_of_nat i :: u64) = unat (word_of_nat j :: u64)" by simp
    then show "i = j" using ij n by (simp add: unat_of_nat)
  qed
  then show "distinct (next_ids n g)" by (simp add: next_ids_eq distinct_map)
next
  assume lt: "unat (gen_id g) + n < 2 ^ 64"
  have "map unat (next_ids n g) = map (\<lambda>i. unat (gen_id g) + 1 + i) [0..<n]"
    unfolding next_ids_eq map_map o_def
    using lt by (intro map_cong refl unat_gen_offset) auto
  also have "\<dots> = [unat (gen_id g) + 1 ..< unat (gen_id g) + 1 + n]"
    by (rule nth_equalityI) (simp_all del: upt_Suc)
  finally show "map unat (next_ids n g) = [unat (gen_id g) + 1 ..< unat (gen_id g) + 1 + n]" .
qed

lemma GetTx_SetTx: "GetTxFromContext (Some (SetTxInContext ctx i)) = i"
  by (simp add: GetTxFromContext_def SetTxInContext_def Let_def)

lemma SetTx_keeps_err: "ctx_err (SetTxInContext (Some c) i) = ctx_err c"
  by (simp add: SetTxInContext_def)

end
