(* ===== verification/Engine.thy ===== *)
theory Engine
  imports Laguna_Prelude Id_Generator
begin

text \<open>
  The storage engine: \<^verbatim>\<open>internal/database/storage/engine/inmemory\<close> (the sharded map and the
  engine around it) and the selection of an engine in \<^verbatim>\<open>engine/engine.go\<close>. A shard is a map;
  every operation on a shard runs under the shard's lock, so an operation is one atomic step on
  the list of shards. Log output is not modelled. The locale \<open>engine_if\<close> is the Go interface
  \<^verbatim>\<open>Engine\<close> with the laws its clients rely on; the in-memory engine interprets it.
\<close>

unbundle bit_operations_syntax

section \<open>The sharded map\<close>

type_synonym shard = "string \<rightharpoonup> string"

record inmemory =
  shards :: "shard list"

definition fnv_offset64 :: u64 where "fnv_offset64 = 14695981039346656037"
definition fnv_prime64 :: u64 where "fnv_prime64 = 1099511628211"

text \<open>\<^verbatim>\<open>fnv.New64a\<close>, \<^verbatim>\<open>Write\<close>, \<^verbatim>\<open>Sum64\<close>.\<close>

fun fnv64a :: "u64 \<Rightarrow> byte list \<Rightarrow> u64" where
  "fnv64a h [] = h"
| "fnv64a h (b # bs) = fnv64a ((h XOR ucast b) * fnv_prime64) bs"

text \<open>\<^verbatim>\<open>make([]shard, s)\<close> panics for a negative length.\<close>

definition NewInMemory :: "int \<Rightarrow> inmemory res" where
  "NewInMemory s =
     (if s < 0 then Panic else Ok \<lparr>shards = replicate (nat s) Map.empty\<rparr>)"

text \<open>The remainder by a zero shard count is a run-time panic.\<close>

definition getShard :: "inmemory \<Rightarrow> string \<Rightarrow> nat res" where
  "getShard m key =
     (let hash = fnv64a fnv_offset64 (bytes_of_string key)
      in if length (shards m) = 0 then Panic
         else Ok (unat hash mod length (shards m)))"

definition InMemory_Set :: "string \<Rightarrow> string \<Rightarrow> inmemory \<Rightarrow> inmemory \<times> unit res" where
  "InMemory_Set key val m =
     (case getShard m key of
        Ok i \<Rightarrow> (m\<lparr>shards := (shards m)[i := (shards m ! i)(key \<mapsto> val)]\<rparr>, Ok ())
      | Fail e \<Rightarrow> (m, Fail e)
      | Panic \<Rightarrow> (m, Panic)
      | Hang \<Rightarrow> (m, Hang))"

text \<open>\<^verbatim>\<open>Get\<close> returns the value and whether it is present; a failed shard lookup is absence.\<close>

definition InMemory_Get :: "string \<Rightarrow> inmemory \<Rightarrow> (string \<times> bool) res" where
  "InMemory_Get key m =
     (case getShard m key of
        Ok i \<Rightarrow> (case (shards m ! i) key of Some v \<Rightarrow> Ok (v, True) | None \<Rightarrow> Ok ([], False))
      | Fail e \<Rightarrow> Ok ([], False)
      | Panic \<Rightarrow> Panic
      | Hang \<Rightarrow> Hang)"

definition InMemory_Del :: "string \<Rightarrow> inmemory \<Rightarrow> inmemory \<times> unit res" where
  "InMemory_Del key m =
     (case getShard m key of
        Ok i \<Rightarrow> (m\<lparr>shards := (shards m)[i := (shards m ! i)(key := None)]\<rparr>, Ok ())
      | Fail e \<Rightarrow> (m, Fail e)
      | Panic \<Rightarrow> (m, Panic)
      | Hang \<Rightarrow> (m, Hang))"

section \<open>The engine\<close>

record engine =
  im :: inmemory

definition defaultShards :: int where "defaultShards = 100"

definition inmemory_NewEngine :: "int \<Rightarrow> engine res" where
  "inmemory_NewEngine n =
     (let s = (if n \<le> 0 then defaultShards else n)
      in then_res (NewInMemory s) (\<lambda>m. Ok \<lparr>im = m\<rparr>))"

text \<open>\<^verbatim>\<open>engine.NewEngine\<close>: both branches of the type switch build the in-memory engine.\<close>

definition NewEngine :: "string \<Rightarrow> int \<Rightarrow> engine res" where
  "NewEngine kind n = (if kind = ''inmemory'' then inmemory_NewEngine n else inmemory_NewEngine n)"

definition Engine_Set :: "context_t \<Rightarrow> string \<Rightarrow> string \<Rightarrow> engine \<Rightarrow> engine \<times> unit res" where
  "Engine_Set ctx key val e =
     (case InMemory_Set key val (im e) of (m, r) \<Rightarrow> (e\<lparr>im := m\<rparr>, r))"

definition Engine_Get :: "context_t \<Rightarrow> string \<Rightarrow> engine \<Rightarrow> string res" where
  "Engine_Get ctx key e =
     then_res (InMemory_Get key (im e)) (\<lambda>(v, ok). if \<not> ok then Fail ErrNotFound else Ok v)"

definition Engine_Del :: "context_t \<Rightarrow> string \<Rightarrow> engine \<Rightarrow> engine \<times> unit res" where
  "Engine_Del ctx key e =
     (case InMemory_Del key (im e) of (m, r) \<Rightarrow> (e\<lparr>im := m\<rparr>, r))"

section \<open>The interface\<close>

locale engine_if =
  fixes eset :: "context_t \<Rightarrow> string \<Rightarrow> string \<Rightarrow> 'e \<Rightarrow> 'e \<times> unit res"
    and eget :: "context_t \<Rightarrow> string \<Rightarrow> 'e \<Rightarrow> string res"
    and edel :: "context_t \<Rightarrow> string \<Rightarrow> 'e \<Rightarrow> 'e \<times> unit res"
    and einv :: "'e \<Rightarrow> bool"
    and eabs :: "'e \<Rightarrow> string \<rightharpoonup> string"
  assumes eset_ok: "einv e \<Longrightarrow> snd (eset c k v e) = Ok ()"
    and eset_inv: "einv e \<Longrightarrow> einv (fst (eset c k v e))"
    and eset_abs: "einv e \<Longrightarrow> eabs (fst (eset c k v e)) = (eabs e)(k \<mapsto> v)"
    and edel_ok: "einv e \<Longrightarrow> snd (edel c k e) = Ok ()"
    and edel_inv: "einv e \<Longrightarrow> einv (fst (edel c k e))"
    and edel_abs: "einv e \<Longrightarrow> eabs (fst (edel c k e)) = (eabs e)(k := None)"
    and eget_abs: "einv e \<Longrightarrow> eget c k e = (case eabs e k of None \<Rightarrow> Fail ErrNotFound | Some v \<Rightarrow> Ok v)"
begin

lemma get_after_set:
  "einv e \<Longrightarrow> eget c k (fst (eset c' k' v e)) = (if k = k' then Ok v else eget c k e)"
  by (simp add: eget_abs eset_inv eset_abs)

lemma get_after_del:
  "einv e \<Longrightarrow> eget c k (fst (edel c' k' e)) = (if k = k' then Fail ErrNotFound else eget c k e)"
  by (simp add: eget_abs edel_inv edel_abs)

lemmas engine_laws = eset_ok eset_inv eset_abs edel_ok edel_inv edel_abs eget_abs

end

section \<open>The in-memory engine is an engine\<close>

text \<open>
  The content of the sharded map as one map, and the invariant: there is a shard, and a key is
  stored in no shard but its own.
\<close>

definition shard_of :: "inmemory \<Rightarrow> string \<Rightarrow> nat" where
  "shard_of m key = unat (fnv64a fnv_offset64 (bytes_of_string key)) mod length (shards m)"

definition im_abs :: "inmemory \<Rightarrow> string \<rightharpoonup> string" where
  "im_abs m = (\<lambda>key. (shards m ! shard_of m key) key)"

definition im_inv :: "inmemory \<Rightarrow> bool" where
  "im_inv m \<longleftrightarrow> shards m \<noteq> [] \<and>
     (\<forall>i<length (shards m). \<forall>key\<in>dom (shards m ! i). shard_of m key = i)"

definition engine_inv :: "engine \<Rightarrow> bool" where
  "engine_inv e = im_inv (im e)"

definition engine_abs :: "engine \<Rightarrow> string \<rightharpoonup> string" where
  "engine_abs e = im_abs (im e)"

lemma shard_of_less: "shards m \<noteq> [] \<Longrightarrow> shard_of m key < length (shards m)"
  by (simp add: shard_of_def)

lemma getShard_ok: "shards m \<noteq> [] \<Longrightarrow> getShard m key = Ok (shard_of m key)"
  by (simp add: getShard_def shard_of_def Let_def)

lemma shard_of_update [simp]: "shard_of (m\<lparr>shards := (shards m)[i := s]\<rparr>) = shard_of m"
  by (simp add: shard_of_def fun_eq_iff)

lemma im_update_abs:
  assumes "shards m \<noteq> []"
  shows "im_abs (m\<lparr>shards := (shards m)[shard_of m k := (shards m ! shard_of m k)(k := v)]\<rparr>) =
    (im_abs m)(k := v)"
proof
  fix key
  have "shard_of m k < length (shards m)" "shard_of m key < length (shards m)"
    using assms by (simp_all add: shard_of_less)
  then show "im_abs (m\<lparr>shards := (shards m)[shard_of m k := (shards m ! shard_of m k)(k := v)]\<rparr>) key =
      ((im_abs m)(k := v)) key"
    by (cases "shard_of m key = shard_of m k") (auto simp: im_abs_def)
qed

lemma im_update_inv:
  assumes "im_inv m"
  shows "im_inv (m\<lparr>shards := (shards m)[shard_of m k := (shards m ! shard_of m k)(k := v)]\<rparr>)"
  unfolding im_inv_def
proof (intro conjI allI impI ballI)
  let ?m = "m\<lparr>shards := (shards m)[shard_of m k := (shards m ! shard_of m k)(k := v)]\<rparr>"
  show "shards ?m \<noteq> []" using assms by (simp add: im_inv_def)
  fix i key assume i: "i < length (shards ?m)" and key: "key \<in> dom (shards ?m ! i)"
  show "shard_of ?m key = i"
  proof (cases "i = shard_of m k \<and> key = k")
    case False
    then have "key \<in> dom (shards m ! i)"
      using i key by (cases "i = shard_of m k") (auto split: if_splits)
    with assms i show ?thesis by (simp add: im_inv_def)
  qed simp
qed

lemmas engine_defs = Engine_Set_def Engine_Get_def Engine_Del_def InMemory_Set_def InMemory_Get_def
  InMemory_Del_def engine_inv_def engine_abs_def

lemma engine_inv_shards: "engine_inv e \<Longrightarrow> shards (im e) \<noteq> []"
  by (simp add: engine_inv_def im_inv_def)

interpretation mem: engine_if Engine_Set Engine_Get Engine_Del engine_inv engine_abs
proof unfold_locales
  fix e c k v assume inv: "engine_inv e"
  note sh = engine_inv_shards [OF inv]
  show "snd (Engine_Set c k v e) = Ok ()" "snd (Engine_Del c k e) = Ok ()"
    by (simp_all add: engine_defs getShard_ok sh)
  show "engine_inv (fst (Engine_Set c k v e))" "engine_inv (fst (Engine_Del c k e))"
    using inv by (simp_all add: engine_defs getShard_ok sh im_update_inv)
  show "engine_abs (fst (Engine_Set c k v e)) = (engine_abs e)(k \<mapsto> v)"
    "engine_abs (fst (Engine_Del c k e)) = (engine_abs e)(k := None)"
    by (simp_all add: engine_defs getShard_ok sh im_update_abs)
  show "Engine_Get c k e = (case engine_abs e k of None \<Rightarrow> Fail ErrNotFound | Some v \<Rightarrow> Ok v)"
    by (auto simp: engine_defs getShard_ok sh im_abs_def split: option.split)
qed

lemma NewEngine_ok:
  "\<exists>e. NewEngine kind n = Ok e \<and> engine_inv e \<and> engine_abs e = Map.empty \<and>
       length (shards (im e)) = nat (if n \<le> 0 then defaultShards else n)"
  by (auto simp: NewEngine_def inmemory_NewEngine_def NewInMemory_def defaultShards_def
      engine_inv_def im_inv_def engine_abs_def im_abs_def shard_of_def fun_eq_iff Let_def)

section \<open>Properties\<close>

text \<open>
  C16. The sharded engine refines one map: created with any shard count it starts empty, SET and
  DEL never fail and update exactly the given key of the combined map whatever shard the FNV-1a
  hash selects, GET reads the combined map, and every operation keeps each key in its own shard.
\<close>

theorem engine_refines_map:
  assumes "NewEngine kind n = Ok e0"
  shows "engine_inv e0 \<and> engine_abs e0 = Map.empty \<and>
    (\<forall>e c k v. engine_inv e \<longrightarrow>
       (\<exists>e'. Engine_Set c k v e = (e', Ok ()) \<and> engine_inv e' \<and> engine_abs e' = (engine_abs e)(k \<mapsto> v)) \<and>
       (\<exists>e'. Engine_Del c k e = (e', Ok ()) \<and> engine_inv e' \<and> engine_abs e' = (engine_abs e)(k := None)) \<and>
       Engine_Get c k e = (case engine_abs e k of None \<Rightarrow> Fail ErrNotFound | Some w \<Rightarrow> Ok w))"
proof (intro conjI allI impI)
  show "engine_inv e0" "engine_abs e0 = Map.empty" using NewEngine_ok [of kind n] assms by auto
  fix e c k v assume inv: "engine_inv e"
  show "\<exists>e'. Engine_Set c k v e = (e', Ok ()) \<and> engine_inv e' \<and> engine_abs e' = (engine_abs e)(k \<mapsto> v)"
    using inv by (intro exI [of _ "fst (Engine_Set c k v e)"])
      (auto simp: mem.engine_laws intro: prod_eqI)
  show "\<exists>e'. Engine_Del c k e = (e', Ok ()) \<and> engine_inv e' \<and> engine_abs e' = (engine_abs e)(k := None)"
    using inv by (intro exI [of _ "fst (Engine_Del c k e)"])
      (auto simp: mem.engine_laws intro: prod_eqI)
  show "Engine_Get c k e = (case engine_abs e k of None \<Rightarrow> Fail ErrNotFound | Some w \<Rightarrow> Ok w)"
    using inv by (rule mem.eget_abs)
qed

theorem engine_refines_map_witness:
  "\<exists>e. NewEngine ''inmemory'' 4 = Ok e \<and>
       Engine_Get Background ''k'' (fst (Engine_Set Background ''k'' ''v'' e)) = Ok ''v''"
proof -
  obtain e where e: "NewEngine ''inmemory'' 4 = Ok e" using NewEngine_ok by blast
  from engine_refines_map [OF e] obtain e' where
    "Engine_Set Background ''k'' ''v'' e = (e', Ok ())" "engine_inv e'"
    "engine_abs e' = (engine_abs e)(''k'' \<mapsto> ''v'')" by blast
  moreover from this engine_refines_map [OF e]
  have "Engine_Get Background ''k'' e' = Ok ''v''" by simp
  ultimately show ?thesis using e by simp
qed

end
