(* ===== verification/Storage.thy ===== *)
theory Storage
  imports Engine
begin

text \<open>
  \<^verbatim>\<open>internal/database/storage/storage.go\<close>: the layer that refuses cancelled contexts, numbers
  every operation with a transaction identifier and turns a missing key into the empty string.
  The locale \<open>storage_if\<close> is the Go interface \<^verbatim>\<open>Storage\<close> that the database and the replication
  slave use, with the replay of a list of writes proved once.
\<close>

record storage =
  txGen :: generator
  en :: engine

definition Storage_New :: "engine \<Rightarrow> storage" where
  "Storage_New e = \<lparr>txGen = NewIDGenerator, en = e\<rparr>"

definition Storage_Get :: "context_t \<Rightarrow> string \<Rightarrow> storage \<Rightarrow> storage \<times> string res" where
  "Storage_Get ctx key s =
     (case ctx_err ctx of
        Some e \<Rightarrow> (s, Fail e)
      | None \<Rightarrow>
          let (g, i) = NextID (txGen s);
              s' = s\<lparr>txGen := g\<rparr>;
              ctx' = SetTxInContext (Some ctx) i
          in (s', case Engine_Get ctx' key (en s') of
                    Fail e \<Rightarrow> if errors_Is e ErrNotFound then Ok [] else Fail e
                  | r \<Rightarrow> r))"

definition Storage_Set :: "context_t \<Rightarrow> string \<Rightarrow> string \<Rightarrow> storage \<Rightarrow> storage \<times> unit res" where
  "Storage_Set ctx key val s =
     (case ctx_err ctx of
        Some e \<Rightarrow> (s, Fail e)
      | None \<Rightarrow>
          let (g, i) = NextID (txGen s);
              ctx' = SetTxInContext (Some ctx) i;
              (e, r) = Engine_Set ctx' key val (en s)
          in (s\<lparr>txGen := g, en := e\<rparr>, r))"

definition Storage_Delete :: "context_t \<Rightarrow> string \<Rightarrow> storage \<Rightarrow> storage \<times> unit res" where
  "Storage_Delete ctx key s =
     (case ctx_err ctx of
        Some e \<Rightarrow> (s, Fail e)
      | None \<Rightarrow>
          let (g, i) = NextID (txGen s);
              ctx' = SetTxInContext (Some ctx) i;
              (e, r) = Engine_Del ctx' key (en s)
          in (s\<lparr>txGen := g, en := e\<rparr>, r))"

section \<open>Writes and their replay\<close>

datatype kvop = KSet string string | KDel string

fun kv_apply :: "kvop \<Rightarrow> (string \<rightharpoonup> string) \<Rightarrow> (string \<rightharpoonup> string)" where
  "kv_apply (KSet k v) m = m(k \<mapsto> v)"
| "kv_apply (KDel k) m = m(k := None)"

definition kv_replay :: "kvop list \<Rightarrow> (string \<rightharpoonup> string) \<Rightarrow> (string \<rightharpoonup> string)" where
  "kv_replay ops m = fold kv_apply ops m"

lemma kv_replay_simps [simp]:
  "kv_replay [] m = m" "kv_replay (x # xs) m = kv_replay xs (kv_apply x m)"
  "kv_replay (xs @ ys) m = kv_replay ys (kv_replay xs m)"
  by (simp_all add: kv_replay_def)

text \<open>The last write to a key decides its value.\<close>

fun kv_key :: "kvop \<Rightarrow> string" where
  "kv_key (KSet k v) = k"
| "kv_key (KDel k) = k"

lemma kv_replay_untouched: "k \<notin> kv_key ` set ops \<Longrightarrow> kv_replay ops m k = m k"
proof (induction ops arbitrary: m)
  case (Cons x xs)
  then show ?case by (cases x) auto
qed simp

text \<open>Replaying a log twice, or a suffix of it again, changes nothing.\<close>

lemma kv_replay_touched: "k \<in> kv_key ` set ops \<Longrightarrow> kv_replay ops m k = kv_replay ops m' k"
proof (induction ops arbitrary: m m')
  case (Cons x xs)
  show ?case
  proof (cases "k \<in> kv_key ` set xs")
    case True
    with Cons.IH show ?thesis by simp
  next
    case False
    with Cons.prems have "k = kv_key x" by auto
    with False show ?thesis by (cases x) (simp_all add: kv_replay_untouched)
  qed
qed simp

lemma kv_replay_again: "kv_replay (ops @ ops) m = kv_replay ops m"
proof
  fix k
  show "kv_replay (ops @ ops) m k = kv_replay ops m k"
    using kv_replay_touched [of k ops "kv_replay ops m" m] kv_replay_untouched [of k ops]
    by (cases "k \<in> kv_key ` set ops") simp_all
qed

lemma kv_replay_suffix_again: "kv_replay (xs @ ys @ ys) m = kv_replay (xs @ ys) m"
  using kv_replay_again [of ys "kv_replay xs m"] by simp

text \<open>Writing through an interface, stopping at the first operation that does not succeed.\<close>

fun store_op ::
  "('c \<Rightarrow> string \<Rightarrow> string \<Rightarrow> 's \<Rightarrow> 's \<times> unit res) \<Rightarrow> ('c \<Rightarrow> string \<Rightarrow> 's \<Rightarrow> 's \<times> unit res) \<Rightarrow>
   'c \<Rightarrow> kvop \<Rightarrow> 's \<Rightarrow> 's \<times> unit res" where
  "store_op wset wdel c (KSet k v) s = wset c k v s"
| "store_op wset wdel c (KDel k) s = wdel c k s"

fun store_run ::
  "('c \<Rightarrow> string \<Rightarrow> string \<Rightarrow> 's \<Rightarrow> 's \<times> unit res) \<Rightarrow> ('c \<Rightarrow> string \<Rightarrow> 's \<Rightarrow> 's \<times> unit res) \<Rightarrow>
   'c \<Rightarrow> kvop list \<Rightarrow> 's \<Rightarrow> 's \<times> unit res" where
  "store_run wset wdel c [] s = (s, Ok ())"
| "store_run wset wdel c (x # xs) s =
     (case store_op wset wdel c x s of
        (s', Ok _) \<Rightarrow> store_run wset wdel c xs s'
      | (s', r) \<Rightarrow> (s', r))"

section \<open>The interface\<close>

locale storage_if =
  fixes sget :: "context_t \<Rightarrow> string \<Rightarrow> 's \<Rightarrow> 's \<times> string res"
    and sset :: "context_t \<Rightarrow> string \<Rightarrow> string \<Rightarrow> 's \<Rightarrow> 's \<times> unit res"
    and sdel :: "context_t \<Rightarrow> string \<Rightarrow> 's \<Rightarrow> 's \<times> unit res"
    and sinv :: "'s \<Rightarrow> bool"
    and sabs :: "'s \<Rightarrow> string \<rightharpoonup> string"
  assumes sset_live: "sinv s \<Longrightarrow> ctx_err c = None \<Longrightarrow>
      \<exists>s'. sset c k v s = (s', Ok ()) \<and> sinv s' \<and> sabs s' = (sabs s)(k \<mapsto> v)"
    and sdel_live: "sinv s \<Longrightarrow> ctx_err c = None \<Longrightarrow>
      \<exists>s'. sdel c k s = (s', Ok ()) \<and> sinv s' \<and> sabs s' = (sabs s)(k := None)"
    and sget_live: "sinv s \<Longrightarrow> ctx_err c = None \<Longrightarrow>
      \<exists>s'. sget c k s = (s', Ok (case sabs s k of None \<Rightarrow> [] | Some v \<Rightarrow> v)) \<and> sinv s' \<and> sabs s' = sabs s"
    and sset_dead: "ctx_err c = Some e \<Longrightarrow> sset c k v s = (s, Fail e)"
    and sdel_dead: "ctx_err c = Some e \<Longrightarrow> sdel c k s = (s, Fail e)"
    and sget_dead: "ctx_err c = Some e \<Longrightarrow> sget c k s = (s, Fail e)"
begin

lemma store_op_live:
  "sinv s \<Longrightarrow> ctx_err c = None \<Longrightarrow>
   \<exists>s'. store_op sset sdel c x s = (s', Ok ()) \<and> sinv s' \<and> sabs s' = kv_apply x (sabs s)"
  using sset_live sdel_live by (cases x) auto

lemma store_run_live:
  "sinv s \<Longrightarrow> ctx_err c = None \<Longrightarrow>
   \<exists>s'. store_run sset sdel c ops s = (s', Ok ()) \<and> sinv s' \<and> sabs s' = kv_replay ops (sabs s)"
proof (induction ops arbitrary: s)
  case (Cons x xs)
  obtain s1 where s1: "store_op sset sdel c x s = (s1, Ok ())" "sinv s1"
      "sabs s1 = kv_apply x (sabs s)"
    using store_op_live [OF Cons.prems] by blast
  from Cons.IH [OF s1(2) Cons.prems(2)] s1 show ?case by auto
qed simp

lemma store_run_dead:
  "ctx_err c = Some e \<Longrightarrow> ops \<noteq> [] \<Longrightarrow> store_run sset sdel c ops s = (s, Fail e)"
proof (cases ops)
  case (Cons x xs)
  assume "ctx_err c = Some e"
  then show ?thesis using Cons by (cases x) (simp_all add: sset_dead sdel_dead)
qed simp

end

definition storage_inv :: "storage \<Rightarrow> bool" where
  "storage_inv s = engine_inv (en s)"

definition storage_abs :: "storage \<Rightarrow> string \<rightharpoonup> string" where
  "storage_abs s = engine_abs (en s)"

interpretation st: storage_if Storage_Get Storage_Set Storage_Delete storage_inv storage_abs
proof unfold_locales
  fix s and c :: context_t and k v assume inv: "storage_inv s" and live: "ctx_err c = None"
  note laws = mem.engine_laws [OF inv [unfolded storage_inv_def]]
  show "\<exists>s'. Storage_Set c k v s = (s', Ok ()) \<and> storage_inv s' \<and>
      storage_abs s' = (storage_abs s)(k \<mapsto> v)"
    using live laws
    by (auto simp: Storage_Set_def storage_inv_def storage_abs_def NextID_def Let_def
        split: prod.split) (metis fst_conv snd_conv)+
  show "\<exists>s'. Storage_Delete c k s = (s', Ok ()) \<and> storage_inv s' \<and>
      storage_abs s' = (storage_abs s)(k := None)"
    using live laws
    by (auto simp: Storage_Delete_def storage_inv_def storage_abs_def NextID_def Let_def
        split: prod.split) (metis fst_conv snd_conv)+
  show "\<exists>s'. Storage_Get c k s = (s', Ok (case storage_abs s k of None \<Rightarrow> [] | Some v \<Rightarrow> v)) \<and>
      storage_inv s' \<and> storage_abs s' = storage_abs s"
    using live laws inv
    by (auto simp: Storage_Get_def storage_inv_def storage_abs_def NextID_def Let_def
        split: option.split)
next
  fix c :: context_t and e k v s assume "ctx_err c = Some e"
  then show "Storage_Set c k v s = (s, Fail e)" "Storage_Delete c k s = (s, Fail e)"
    "Storage_Get c k s = (s, Fail e)"
    by (simp_all add: Storage_Set_def Storage_Delete_def Storage_Get_def)
qed

lemma Storage_New_inv: "engine_inv e \<Longrightarrow> storage_inv (Storage_New e) \<and> storage_abs (Storage_New e) = engine_abs e"
  by (simp add: Storage_New_def storage_inv_def storage_abs_def)

section \<open>Properties\<close>

text \<open>
  A storage on a live context behaves as one map: a GET after any list of successful SET and
  DEL operations returns the value the replay of that list leaves for the key, the empty string
  when there is none.
\<close>

lemma storage_get_after_writes:
  assumes "storage_inv s" and "ctx_err c = None"
  shows "\<exists>s1 s2. store_run Storage_Set Storage_Delete c ops s = (s1, Ok ()) \<and>
      Storage_Get c k s1 = (s2, Ok (case kv_replay ops (storage_abs s) k of None \<Rightarrow> [] | Some v \<Rightarrow> v)) \<and>
      storage_inv s2 \<and> storage_abs s2 = kv_replay ops (storage_abs s)"
proof -
  obtain s1 where "store_run Storage_Set Storage_Delete c ops s = (s1, Ok ())"
    "storage_inv s1" "storage_abs s1 = kv_replay ops (storage_abs s)"
    using st.store_run_live [OF assms] by blast
  with st.sget_live [of s1 c k] assms(2) show ?thesis by metis
qed

end
