(* ===== verification/Fs.thy ===== *)
theory Fs
  imports Laguna_Prelude "HOL-Library.AList"
begin

text \<open>
  The operating system as the program uses it, and \<^verbatim>\<open>utils/fs/dir.go\<close> on top of it.

  The file system is a record: the directories that exist, the regular files by their path, a
  script of faults that the next system calls meet, and a clock that \<^verbatim>\<open>time.Now().UnixMicro()\<close>
  reads. A fault \<open>Fault n e\<close> makes a call fail with \<open>e\<close>; a write transfers \<open>n\<close> bytes first. An
  empty script means that no call fails. A path is the directory, a slash and the base name;
  \<^verbatim>\<open>filepath.Dir\<close> is its directory part (its cleaning of the spelling does not change the
  directory that is meant), and a directory of the log holds regular files only.
\<close>

section \<open>The operating system\<close>

datatype fault = NoFault | Fault nat goerr

record world =
  w_dirs :: "string list"
  w_files :: "(string \<times> byte list) list"
  w_faults :: "fault list"
  w_clock :: "nat \<Rightarrow> nat"
  w_ticks :: nat

definition slash :: char where "slash = CHR 0x2F"

definition path_join :: "string \<Rightarrow> string \<Rightarrow> string" where
  "path_join d n = d @ [slash] @ n"

definition base_name :: "string \<Rightarrow> string" where
  "base_name p = rev (takeWhile (\<lambda>c. c \<noteq> slash) (rev p))"

definition dir_name :: "string \<Rightarrow> string" where
  "dir_name p = (if slash \<in> set p then rev (tl (dropWhile (\<lambda>c. c \<noteq> slash) (rev p))) else ''.'')"

definition take_fault :: "world \<Rightarrow> world \<times> (nat \<times> goerr) option" where
  "take_fault w =
     (case w_faults w of
        [] \<Rightarrow> (w, None)
      | NoFault # r \<Rightarrow> (w\<lparr>w_faults := r\<rparr>, None)
      | Fault n e # r \<Rightarrow> (w\<lparr>w_faults := r\<rparr>, Some (n, e)))"

definition content :: "world \<Rightarrow> string \<Rightarrow> byte list" where
  "content w p = (case map_of (w_files w) p of None \<Rightarrow> [] | Some bs \<Rightarrow> bs)"

definition dir_entries :: "string \<Rightarrow> world \<Rightarrow> string list" where
  "dir_entries d w = map base_name (filter (\<lambda>p. dir_name p = d) (map fst (w_files w)))"

definition os_ReadDir :: "string \<Rightarrow> world \<Rightarrow> world \<times> string list res" where
  "os_ReadDir d w =
     (case take_fault w of
        (w', Some (n, e)) \<Rightarrow> (w', Fail e)
      | (w', None) \<Rightarrow>
          if d \<in> set (w_dirs w') then (w', Ok (sort (dir_entries d w'))) else (w', Fail ErrNotExist))"

definition os_MkdirAll :: "string \<Rightarrow> world \<Rightarrow> world \<times> unit res" where
  "os_MkdirAll d w =
     (case take_fault w of
        (w', Some (n, e)) \<Rightarrow> (w', Fail e)
      | (w', None) \<Rightarrow>
          if d = [] then (w', Fail ErrNotExist)
          else (w'\<lparr>w_dirs := List.insert d (w_dirs w')\<rparr>, Ok ()))"

text \<open>An open file: its path, the read offset, and whether it is still open.\<close>

record os_file =
  f_path :: string
  f_pos :: nat
  f_open :: bool

text \<open>\<^verbatim>\<open>os.OpenFile(path, O_RDWR|O_APPEND|O_CREATE)\<close>.\<close>

definition os_OpenFile :: "string \<Rightarrow> world \<Rightarrow> world \<times> os_file res" where
  "os_OpenFile p w =
     (case take_fault w of
        (w', Some (n, e)) \<Rightarrow> (w', Fail e)
      | (w', None) \<Rightarrow>
          if dir_name p \<notin> set (w_dirs w') then (w', Fail ErrNotExist)
          else (w'\<lparr>w_files := AList.update p (content w' p) (w_files w')\<rparr>,
                Ok \<lparr>f_path = p, f_pos = 0, f_open = True\<rparr>))"

definition os_Open :: "string \<Rightarrow> world \<Rightarrow> world \<times> os_file res" where
  "os_Open p w =
     (case take_fault w of
        (w', Some (n, e)) \<Rightarrow> (w', Fail e)
      | (w', None) \<Rightarrow>
          if map_of (w_files w') p = None then (w', Fail ErrNotExist)
          else (w', Ok \<lparr>f_path = p, f_pos = 0, f_open = True\<rparr>))"

text \<open>
  \<^verbatim>\<open>(*File).Write\<close> in append mode: the result is the number of bytes written and the error; the
  file offset moves to the end of the file.
\<close>

definition append_file :: "string \<Rightarrow> byte list \<Rightarrow> world \<Rightarrow> world" where
  "append_file p bs w = w\<lparr>w_files := AList.update p (content w p @ bs) (w_files w)\<rparr>"

definition file_Write :: "byte list \<Rightarrow> os_file \<Rightarrow> world \<Rightarrow> world \<times> os_file \<times> nat \<times> goerr option" where
  "file_Write bs f w =
     (if \<not> f_open f then (w, f, 0, Some ErrClosed)
      else (case take_fault w of
              (w', Some (n, e)) \<Rightarrow>
                (let w2 = append_file (f_path f) (take n bs) w'
                 in (w2, f\<lparr>f_pos := length (content w2 (f_path f))\<rparr>, length (take n bs), Some e))
            | (w', None) \<Rightarrow>
                (let w2 = append_file (f_path f) bs w'
                 in (w2, f\<lparr>f_pos := length (content w2 (f_path f))\<rparr>, length bs, None))))"

definition file_Sync :: "os_file \<Rightarrow> world \<Rightarrow> world \<times> unit res" where
  "file_Sync f w =
     (if \<not> f_open f then (w, Fail ErrClosed)
      else (case take_fault w of (w', Some (n, e)) \<Rightarrow> (w', Fail e) | (w', None) \<Rightarrow> (w', Ok ())))"

definition file_Close :: "os_file \<Rightarrow> world \<Rightarrow> world \<times> os_file \<times> unit res" where
  "file_Close f w =
     (if \<not> f_open f then (w, f, Fail ErrClosed)
      else (case take_fault w of
              (w', Some (n, e)) \<Rightarrow> (w', f\<lparr>f_open := False\<rparr>, Fail e)
            | (w', None) \<Rightarrow> (w', f\<lparr>f_open := False\<rparr>, Ok ())))"

text \<open>\<^verbatim>\<open>io.ReadAll\<close> on a file: from the current offset to the end.\<close>

definition file_ReadAll :: "os_file \<Rightarrow> world \<Rightarrow> world \<times> os_file \<times> byte list res" where
  "file_ReadAll f w =
     (if \<not> f_open f then (w, f, Fail ErrClosed)
      else (case take_fault w of
              (w', Some (n, e)) \<Rightarrow> (w', f, Fail e)
            | (w', None) \<Rightarrow>
                (w', f\<lparr>f_pos := max (f_pos f) (length (content w' (f_path f)))\<rparr>,
                 Ok (drop (f_pos f) (content w' (f_path f))))))"

definition file_Stat_Size :: "os_file \<Rightarrow> world \<Rightarrow> world \<times> nat res" where
  "file_Stat_Size f w =
     (case take_fault w of
        (w', Some (n, e)) \<Rightarrow> (w', Fail e)
      | (w', None) \<Rightarrow> (w', Ok (length (content w' (f_path f)))))"

definition now_micro :: "world \<Rightarrow> world \<times> nat" where
  "now_micro w = (w\<lparr>w_ticks := Suc (w_ticks w)\<rparr>, w_clock w (w_ticks w))"

lemmas os_defs = os_ReadDir_def os_MkdirAll_def os_OpenFile_def os_Open_def file_Write_def
  file_Sync_def file_Close_def file_ReadAll_def file_Stat_Size_def now_micro_def

section \<open>utils/fs\<close>

definition ReadDir :: "string \<Rightarrow> world \<Rightarrow> world \<times> string list res" where
  "ReadDir path w =
     (case os_ReadDir path w of
        (w1, Ok names) \<Rightarrow> (w1, Ok names)
      | (w1, Fail e) \<Rightarrow>
          if errors_Is e ErrNotExist then
            (case os_MkdirAll path w1 of
               (w2, Ok _) \<Rightarrow> (w2, Ok [])
             | (w2, Fail e') \<Rightarrow> (w2, Fail (Wrap ''failed to create directory: '' e'))
             | (w2, Panic) \<Rightarrow> (w2, Panic)
             | (w2, Hang) \<Rightarrow> (w2, Hang))
          else (w1, Fail e)
      | (w1, Panic) \<Rightarrow> (w1, Panic)
      | (w1, Hang) \<Rightarrow> (w1, Hang))"

definition OpenFile :: "string \<Rightarrow> world \<Rightarrow> world \<times> os_file res" where
  "OpenFile path w =
     (case os_MkdirAll (dir_name path) w of
        (w1, Ok _) \<Rightarrow> os_OpenFile path w1
      | (w1, Fail e) \<Rightarrow> (w1, Fail e)
      | (w1, Panic) \<Rightarrow> (w1, Panic)
      | (w1, Hang) \<Rightarrow> (w1, Hang))"

definition ReadFile :: "string \<Rightarrow> world \<Rightarrow> world \<times> byte list res" where
  "ReadFile path w =
     (case os_Open path w of
        (w1, Ok f) \<Rightarrow>
          (case file_ReadAll f w1 of
             (w2, f2, r) \<Rightarrow> (case file_Close f2 w2 of (w3, f3, c) \<Rightarrow> (w3, r)))
      | (w1, Fail e) \<Rightarrow> (w1, Fail e)
      | (w1, Panic) \<Rightarrow> (w1, Panic)
      | (w1, Hang) \<Rightarrow> (w1, Hang))"

text \<open>The search loop on signed indices; reading outside the slice would panic.\<close>

function binarySearch_loop :: "string list \<Rightarrow> string \<Rightarrow> int \<Rightarrow> int \<Rightarrow> int res" where
  "binarySearch_loop xs target low high =
     (if low \<le> high then
        (let mid = (low + high) div 2 in
         if mid < 0 \<or> int (length xs) \<le> mid then Panic
         else if xs ! nat mid = target then Ok mid
         else if xs ! nat mid < target then binarySearch_loop xs target (mid + 1) high
         else binarySearch_loop xs target low (mid - 1))
      else Ok (- 1))"
  by pat_completeness auto
termination
  by (relation "measure (\<lambda>(xs, t, low, high). nat (high - low + 1))") auto

declare binarySearch_loop.simps [simp del]

definition binarySearch :: "string list \<Rightarrow> string \<Rightarrow> int res" where
  "binarySearch array target = binarySearch_loop array target 0 (int (length array) - 1)"

definition ReadDirsFrom :: "string \<Rightarrow> string \<Rightarrow> world \<Rightarrow> world \<times> string list res" where
  "ReadDirsFrom path fileFrom w =
     (case ReadDir path w of
        (w1, Ok dirs) \<Rightarrow>
          (w1, if dirs = [] then Ok []
               else if fileFrom = [] then Ok dirs
               else then_res (binarySearch dirs fileFrom) (\<lambda>idx.
                      if idx = - 1 then Ok [] else go_from dirs (nat idx)))
      | (w1, Fail e) \<Rightarrow> (w1, Fail e)
      | (w1, Panic) \<Rightarrow> (w1, Panic)
      | (w1, Hang) \<Rightarrow> (w1, Hang))"

section \<open>Paths\<close>

lemma base_path_join: "slash \<notin> set n \<Longrightarrow> base_name (path_join d n) = n"
  by (simp add: base_name_def path_join_def takeWhile_tail takeWhile_eq_all_conv)
     (metis (mono_tags, lifting) rev_rev_ident set_rev takeWhile_eq_all_conv)

lemma dir_path_join: "slash \<notin> set n \<Longrightarrow> dir_name (path_join d n) = d"
proof -
  assume "slash \<notin> set n"
  then have "dropWhile (\<lambda>c. c \<noteq> slash) (rev n @ slash # rev d) = slash # rev d"
    by (subst dropWhile_append2) auto
  then show ?thesis by (simp add: dir_name_def path_join_def)
qed

lemma path_join_inj: "path_join d n = path_join d m \<longleftrightarrow> n = m"
  by (simp add: path_join_def)

lemma base_name_no_slash: "slash \<notin> set (base_name p)"
  by (auto simp: base_name_def dest: set_takeWhileD)

lemma path_join_has_slash: "slash \<in> set (path_join d n)"
  by (simp add: path_join_def)

section \<open>A fault-free system\<close>

lemma take_fault_clean [simp]: "w_faults w = [] \<Longrightarrow> take_fault w = (w, None)"
  by (simp add: take_fault_def)

lemma take_fault_files [simp]:
  "take_fault w = (w', f) \<Longrightarrow> w_files w' = w_files w \<and> w_dirs w' = w_dirs w \<and> w_clock w' = w_clock w \<and> w_ticks w' = w_ticks w"
  by (auto simp: take_fault_def split: list.splits fault.splits)

lemma content_append_same [simp]: "content (append_file p bs w) p = content w p @ bs"
  by (simp add: content_def append_file_def update_conv)

lemma content_append_other [simp]: "p \<noteq> q \<Longrightarrow> content (append_file p bs w) q = content w q"
  by (simp add: content_def append_file_def update_conv)

lemma append_file_fields [simp]:
  "w_dirs (append_file p bs w) = w_dirs w" "w_faults (append_file p bs w) = w_faults w"
  "w_clock (append_file p bs w) = w_clock w" "w_ticks (append_file p bs w) = w_ticks w"
  by (simp_all add: append_file_def)

lemma content_fields [simp]:
  "content (w\<lparr>w_faults := f\<rparr>) p = content w p" "content (w\<lparr>w_dirs := d\<rparr>) p = content w p"
  "content (w\<lparr>w_ticks := t\<rparr>) p = content w p"
  by (simp_all add: content_def)

lemma content_touch [simp]:
  "content (w\<lparr>w_files := AList.update p (content w p) (w_files w)\<rparr>) q = content w q"
  by (simp add: content_def update_conv)

section \<open>The binary search\<close>

lemma sorted_wrt_less_nth:
  "sorted_wrt (<) (xs :: 'a::linorder list) \<Longrightarrow> i < length xs \<Longrightarrow> j < length xs \<Longrightarrow>
   xs ! i < xs ! j \<longleftrightarrow> i < j"
  by (metis linorder_neqE_nat less_imp_not_less order_less_irrefl sorted_wrt_nth_less)

lemma binarySearch_loop_correct:
  assumes "sorted_wrt (<) xs" and "0 \<le> low" and "high < int (length xs)"
    and "\<And>i. i < length xs \<Longrightarrow> xs ! i = t \<Longrightarrow> low \<le> int i \<and> int i \<le> high"
  shows "\<exists>r. binarySearch_loop xs t low high = Ok r \<and>
     (if t \<in> set xs then 0 \<le> r \<and> nat r < length xs \<and> xs ! nat r = t else r = - 1)"
  using assms
proof (induction xs t low high rule: binarySearch_loop.induct)
  case (1 xs t low high)
  note sorted = 1(3) and range = 1(6)
  define mid where "mid = (low + high) div 2"
  show ?case
  proof (cases "low \<le> high")
    case False
    then have "t \<notin> set xs" using range by (fastforce simp: in_set_conv_nth)
    with False show ?thesis by (simp add: binarySearch_loop.simps [of xs t low high])
  next
    case True
    then have mid: "0 \<le> mid" "mid < int (length xs)" "low \<le> mid" "mid \<le> high"
      using 1(4,5) by (auto simp: mid_def)
    note unf = binarySearch_loop.simps [of xs t low high, folded mid_def]
    consider "xs ! nat mid = t" | "xs ! nat mid < t" | "t < xs ! nat mid" by fastforce
    then show ?thesis
    proof cases
      case 1
      moreover have "nat mid < length xs" using mid by simp
      moreover have "t \<in> set xs" using calculation nth_mem by blast
      ultimately show ?thesis using True mid by (auto simp: unf)
    next
      case 2
      have "binarySearch_loop xs t low high = binarySearch_loop xs t (mid + 1) high"
        using 2 True mid by (auto simp: unf Let_def)
      moreover have "\<exists>r. binarySearch_loop xs t (mid + 1) high = Ok r \<and>
          (if t \<in> set xs then 0 \<le> r \<and> nat r < length xs \<and> xs ! nat r = t else r = - 1)"
      proof (rule "1.IH"(1) [OF True mid_def _ _ _ sorted])
        fix i assume "i < length xs" "xs ! i = t"
        then show "mid + 1 \<le> int i \<and> int i \<le> high"
          using range [of i] 2 mid sorted_wrt_less_nth [OF sorted, of "nat mid" i]
          by (simp add: nat_less_iff)
      qed (use 2 mid 1(4,5) in auto)
      ultimately show ?thesis by simp
    next
      case 3
      have "binarySearch_loop xs t low high = binarySearch_loop xs t low (mid - 1)"
        using 3 True mid by (auto simp: unf Let_def)
      moreover have "\<exists>r. binarySearch_loop xs t low (mid - 1) = Ok r \<and>
          (if t \<in> set xs then 0 \<le> r \<and> nat r < length xs \<and> xs ! nat r = t else r = - 1)"
      proof (rule "1.IH"(2) [OF True mid_def _ _ _ sorted])
        fix i assume "i < length xs" "xs ! i = t"
        then show "low \<le> int i \<and> int i \<le> mid - 1"
          using range [of i] 3 mid sorted_wrt_less_nth [OF sorted, of i "nat mid"]
          by (simp add: zless_nat_eq_int_zless nat_less_iff)
      qed (use 3 mid 1(4,5) in auto)
      ultimately show ?thesis by simp
    qed
  qed
qed

lemma binarySearch_correct:
  assumes "sorted_wrt (<) xs"
  shows "\<exists>r. binarySearch xs t = Ok r \<and>
     (if t \<in> set xs then 0 \<le> r \<and> nat r < length xs \<and> xs ! nat r = t else r = - 1)"
  unfolding binarySearch_def by (rule binarySearch_loop_correct) (use assms in auto)

lemma drop_sorted_filter:
  assumes "sorted_wrt (<) (xs :: 'a::linorder list)" and "i < length xs"
  shows "drop i xs = filter (\<lambda>x. xs ! i \<le> x) xs"
proof -
  have "filter (\<lambda>x. xs ! i \<le> x) (take i xs @ drop i xs) = drop i xs"
  proof -
    have "filter (\<lambda>x. xs ! i \<le> x) (take i xs) = []"
      using assms sorted_wrt_less_nth [OF assms(1), of _ i]
      by (auto simp: filter_empty_conv in_set_conv_nth not_le)
    moreover have "filter (\<lambda>x. xs ! i \<le> x) (drop i xs) = drop i xs"
    proof (rule filter_True, rule ballI)
      fix x assume "x \<in> set (drop i xs)"
      then obtain j where "j < length xs - i" "x = xs ! (i + j)"
        by (auto simp: in_set_conv_nth)
      then show "xs ! i \<le> x"
        using sorted_wrt_less_nth [OF assms(1), of "i + j" i] assms(2) by (simp add: not_less [symmetric])
    qed
    ultimately show ?thesis by (simp only: filter_append) simp
  qed
  then show ?thesis by simp
qed

lemma path_split:
  assumes "slash \<in> set p"
  shows "path_join (dir_name p) (base_name p) = p"
proof -
  define a b where "a = takeWhile (\<lambda>c. c \<noteq> slash) (rev p)" and "b = dropWhile (\<lambda>c. c \<noteq> slash) (rev p)"
  have ab: "rev p = a @ b" by (simp add: a_def b_def)
  have "b \<noteq> []" using assms by (simp add: b_def)
  moreover have "hd b = slash" using calculation hd_dropWhile [of "\<lambda>c. c \<noteq> slash" "rev p"] by (simp add: b_def)
  ultimately have "b = slash # tl b" by (cases b) auto
  then have "rev b = rev (tl b) @ [slash]" by (metis rev.simps(2))
  moreover have "p = rev b @ rev a" using arg_cong [OF ab, of rev] by simp
  ultimately have "p = rev (tl b) @ [slash] @ rev a" by simp
  moreover have "dir_name p = rev (tl b)" "base_name p = rev a"
    using assms by (simp_all add: dir_name_def base_name_def a_def b_def)
  ultimately show ?thesis by (simp add: path_join_def)
qed

text \<open>The files have distinct paths, each with a directory part and a base name.\<close>

definition world_ok :: "world \<Rightarrow> bool" where
  "world_ok w \<longleftrightarrow> distinct (map fst (w_files w)) \<and> 
     list_all (\<lambda>p. slash \<in> set p \<and> base_name p \<noteq> []) (map fst (w_files w))"

lemma dir_entries_strict:
  assumes "world_ok w"
  shows "sorted_wrt (<) (sort (dir_entries d w))"
proof -
  define ps where "ps = filter (\<lambda>p. dir_name p = d) (map fst (w_files w))"
  have "inj_on base_name (set ps)"
  proof (rule inj_onI)
    fix p q assume "p \<in> set ps" "q \<in> set ps" "base_name p = base_name q"
    moreover have "slash \<in> set p" "slash \<in> set q" "dir_name p = dir_name q"
      using calculation(1,2) assms by (auto simp: ps_def world_ok_def list_all_iff)
    ultimately show "p = q" using path_split by metis
  qed
  moreover have "distinct ps" using assms by (simp add: ps_def world_ok_def)
  ultimately have "distinct (dir_entries d w)"
    by (simp add: dir_entries_def distinct_map ps_def)
  then show ?thesis by (simp add: strict_sorted_iff)
qed

lemma world_ok_append [simp]: "world_ok w \<Longrightarrow> slash \<in> set p \<Longrightarrow> base_name p \<noteq> [] \<Longrightarrow> world_ok (append_file p bs w)"
  by (simp add: world_ok_def append_file_def AList.update_keys)

section \<open>Properties\<close>

definition demo_world :: world where
  "demo_world = \<lparr>w_dirs = [''d''], w_files = [(''d/2.bin'', [7]), (''d/1.bin'', []), (''d/3.bin'', [])],
     w_faults = [], w_clock = (\<lambda>n. 4 + n), w_ticks = 0\<rparr>"

text \<open>
  C37. Listing the log files from a given one: on a directory listing, which the operating system
  returns sorted, the binary search terminates, never reads outside the slice, and
  \<^verbatim>\<open>ReadDirsFrom\<close> returns the files from the target on, in order; nothing when the target is not
  in the directory, and everything for an empty target.
\<close>

theorem ReadDirsFrom_suffix:
  assumes "w_faults w = []" and "path \<in> set (w_dirs w)" and "world_ok w"
  shows "ReadDirsFrom path from w =
    (w, Ok (let names = sort (dir_entries path w) in
            if from = [] then names
            else if from \<in> set names then filter (\<lambda>n. from \<le> n) names else []))"
proof -
  define names where "names = sort (dir_entries path w)"
  have rd: "ReadDir path w = (w, Ok names)"
    using assms(1,2) by (simp add: ReadDir_def os_ReadDir_def names_def)
  have strict: "sorted_wrt (<) names" using dir_entries_strict [OF assms(3)] by (simp add: names_def)
  obtain r where r: "binarySearch names from = Ok r"
    "if from \<in> set names then 0 \<le> r \<and> nat r < length names \<and> names ! nat r = from else r = - 1"
    using binarySearch_correct [OF strict] by blast
  show ?thesis
  proof (cases "from \<in> set names")
    case True
    with r have "go_from names (nat r) = Ok (filter (\<lambda>n. from \<le> n) names)" "r \<noteq> - 1"
      using drop_sorted_filter [OF strict, of "nat r"] by (auto simp: go_from_def)
    with True r(1) rd show ?thesis
      by (auto simp: ReadDirsFrom_def names_def [symmetric] Let_def)
  next
    case False
    with r rd show ?thesis by (auto simp: ReadDirsFrom_def names_def [symmetric] Let_def)
  qed
qed

theorem ReadDirsFrom_suffix_witness:
  "ReadDirsFrom ''d'' ''2.bin'' demo_world = (demo_world, Ok [''2.bin'', ''3.bin'']) \<and>
   ReadDirsFrom ''d'' ''4.bin'' demo_world = (demo_world, Ok [])"
proof -
  have w: "w_faults demo_world = []" "''d'' \<in> set (w_dirs demo_world)" "world_ok demo_world"
    by (simp_all add: demo_world_def world_ok_def base_name_def slash_def)
  have "sort (dir_entries ''d'' demo_world) = [''1.bin'', ''2.bin'', ''3.bin'']"
    by (simp add: demo_world_def dir_entries_def base_name_def dir_name_def slash_def less_list_code less_eq_list_code)
  with ReadDirsFrom_suffix [OF w, of "''2.bin''"] ReadDirsFrom_suffix [OF w, of "''4.bin''"] show ?thesis
    by (simp add: less_list_code less_eq_list_code)
qed

end
