(* ===== verification/Query.thy ===== *)
theory Query
  imports Laguna_Prelude
begin

text \<open>
  The query language: \<^verbatim>\<open>internal/query/query.go\<close> (methods, their identifiers and argument
  counts, the \<open>Query\<close> value) and \<^verbatim>\<open>internal/query/builder.go\<close> (the parser of one command
  line). The functions of Go's \<^verbatim>\<open>strings\<close> package the parser calls are modelled on bytes;
  \<^verbatim>\<open>unicode.IsSpace\<close> is the table of the UTF-8 encodings of the white space runes. UTF-8 is
  self-synchronising, so matching these encodings at every byte position finds exactly the
  white space runes the rune-by-rune loops of the library find.
\<close>

section \<open>Methods and queries\<close>

definition SET :: string where "SET = ''SET''"
definition GET :: string where "GET = ''GET''"
definition DEL :: string where "DEL = ''DEL''"

definition Methods :: "string set" where
  "Methods = {SET, GET, DEL}"

type_synonym method_id = byte

definition SetMethodID :: method_id where "SetMethodID = 0"
definition GetMethodID :: method_id where "GetMethodID = 1"
definition DelMethodID :: method_id where "DelMethodID = 2"

lemmas method_ids = SetMethodID_def GetMethodID_def DelMethodID_def
lemmas method_strings = SET_def GET_def DEL_def

definition MethodNames :: "string \<rightharpoonup> method_id" where
  "MethodNames = [SET \<mapsto> SetMethodID, GET \<mapsto> GetMethodID, DEL \<mapsto> DelMethodID]"

text \<open>Reading a missing key of a Go map yields the zero value.\<close>

definition MethodArgs :: "method_id \<Rightarrow> nat" where
  "MethodArgs m = (if m = SetMethodID then 2 else if m = GetMethodID then 1
                   else if m = DelMethodID then 1 else 0)"

definition SetKeyIdx :: nat where "SetKeyIdx = 0"
definition SetValueIdx :: nat where "SetValueIdx = 1"
definition GetKeyIdx :: nat where "GetKeyIdx = 0"
definition DelKeyIdx :: nat where "DelKeyIdx = 0"

lemmas arg_indices = SetKeyIdx_def SetValueIdx_def GetKeyIdx_def DelKeyIdx_def

record query =
  q_methodID :: method_id
  q_args :: "string list"

definition NewQuery :: "method_id \<Rightarrow> string list \<Rightarrow> query" where
  "NewQuery m as = \<lparr>q_methodID = m, q_args = as\<rparr>"

section \<open>The string functions of the parser\<close>

definition space_runes :: "string list" where
  "space_runes =
     [[CHR 0x09], [CHR 0x0A], [CHR 0x0B],
      [CHR 0x0C], [CHR 0x0D], [CHR 0x20],
      [CHR 0xC2, CHR 0x85], [CHR 0xC2, CHR 0xA0], [CHR 0xE1, CHR 0x9A, CHR 0x80],
      [CHR 0xE2, CHR 0x80, CHR 0x80], [CHR 0xE2, CHR 0x80, CHR 0x81], [CHR 0xE2, CHR 0x80, CHR 0x82],
      [CHR 0xE2, CHR 0x80, CHR 0x83], [CHR 0xE2, CHR 0x80, CHR 0x84], [CHR 0xE2, CHR 0x80, CHR 0x85],
      [CHR 0xE2, CHR 0x80, CHR 0x86], [CHR 0xE2, CHR 0x80, CHR 0x87], [CHR 0xE2, CHR 0x80, CHR 0x88],
      [CHR 0xE2, CHR 0x80, CHR 0x89], [CHR 0xE2, CHR 0x80, CHR 0x8A], [CHR 0xE2, CHR 0x80, CHR 0xA8],
      [CHR 0xE2, CHR 0x80, CHR 0xA9], [CHR 0xE2, CHR 0x80, CHR 0xAF], [CHR 0xE2, CHR 0x81, CHR 0x9F],
      [CHR 0xE3, CHR 0x80, CHR 0x80]]"

definition space_at :: "string \<Rightarrow> string option" where
  "space_at s = find (\<lambda>p. prefix p s) space_runes"

definition space_end :: "string \<Rightarrow> string option" where
  "space_end s = find (\<lambda>p. suffix p s) space_runes"

definition crlf :: "char \<Rightarrow> bool" where
  "crlf c \<longleftrightarrow> c = CHR 0x0D \<or> c = CHR 0x0A"

text \<open>\<^verbatim>\<open>strings.Trim(s, "\r\n")\<close>: both ends lose their leading and trailing CR and LF bytes.\<close>

definition trim_crlf :: "string \<Rightarrow> string" where
  "trim_crlf s = rev (dropWhile crlf (rev (dropWhile crlf s)))"

text \<open>Facts of the finite table that the recursions and their lemmas rest on.\<close>

definition cont_byte :: "char \<Rightarrow> bool" where
  "cont_byte c \<longleftrightarrow> 128 \<le> (of_char c :: nat) \<and> (of_char c :: nat) < 192"

lemma space_runes_shape:
  "list_all (\<lambda>p. p \<noteq> [] \<and> \<not> cont_byte (hd p) \<and> list_all cont_byte (tl p)) space_runes"
  by code_simp

lemma space_runes_prefix_free:
  "list_all (\<lambda>p. list_all (\<lambda>q. prefix p q \<longrightarrow> p = q) space_runes) space_runes"
  by code_simp

lemma space_runes_crlf: "crlf c \<Longrightarrow> [c] \<in> set space_runes"
proof -
  have "[CHR 0x0D] \<in> set space_runes" "[CHR 0x0A] \<in> set space_runes" by code_simp+
  then show "crlf c \<Longrightarrow> [c] \<in> set space_runes" by (auto simp: crlf_def)
qed

lemma space_rune_nonempty: "p \<in> set space_runes \<Longrightarrow> p \<noteq> []"
  using space_runes_shape by (auto simp: list_all_iff)

lemma space_at_SomeD: "space_at s = Some p \<Longrightarrow> p \<in> set space_runes \<and> prefix p s \<and> p \<noteq> []"
  unfolding space_at_def find_Some_iff using space_rune_nonempty nth_mem by metis

lemma space_end_SomeD: "space_end s = Some p \<Longrightarrow> p \<in> set space_runes \<and> suffix p s \<and> p \<noteq> []"
  unfolding space_end_def find_Some_iff using space_rune_nonempty nth_mem by metis

text \<open>\<^verbatim>\<open>strings.TrimSpace\<close>: white space runes are removed at the front, then at the end.\<close>

function trim_left_space :: "string \<Rightarrow> string" where
  "trim_left_space s =
     (case space_at s of None \<Rightarrow> s | Some p \<Rightarrow> trim_left_space (drop (length p) s))"
  by pat_completeness auto
termination
proof (relation "measure length")
  fix s p assume "space_at s = Some p"
  then have "prefix p s" "p \<noteq> []" using space_at_SomeD by auto
  then show "(drop (length p) s, s) \<in> measure length" by (auto simp: prefix_def)
qed simp

function trim_right_space :: "string \<Rightarrow> string" where
  "trim_right_space s =
     (case space_end s of None \<Rightarrow> s
      | Some p \<Rightarrow> trim_right_space (take (length s - length p) s))"
  by pat_completeness auto
termination
proof (relation "measure length")
  fix s p assume "space_end s = Some p"
  then have "suffix p s" "p \<noteq> []" using space_end_SomeD by auto
  then show "(take (length s - length p) s, s) \<in> measure length" by (auto simp: suffix_def)
qed simp

definition trim_space :: "string \<Rightarrow> string" where
  "trim_space s = trim_right_space (trim_left_space s)"

text \<open>
  \<^verbatim>\<open>strings.Fields\<close>: \<open>cur\<close> is the field being collected, empty when no field has started.
\<close>

definition flush_field :: "string \<Rightarrow> string list" where
  "flush_field cur = (if cur = [] then [] else [cur])"

function fields_from :: "string \<Rightarrow> string \<Rightarrow> string list" where
  "fields_from cur [] = flush_field cur"
| "fields_from cur (c # s) =
     (case space_at (c # s) of
        Some p \<Rightarrow> flush_field cur @ fields_from [] (drop (length p) (c # s))
      | None \<Rightarrow> fields_from (cur @ [c]) s)"
  by pat_completeness auto
termination
proof (relation "measure (\<lambda>(cur, s). length s)")
  fix cur :: string and c s p assume "space_at (c # s) = Some p"
  then have "p \<noteq> []" using space_at_SomeD by auto
  then show "(([], drop (length p) (c # s)), cur, c # s) \<in> measure (\<lambda>(cur, s). length s)"
    by (cases p) auto
qed auto

definition Fields :: "string \<Rightarrow> string list" where
  "Fields s = fields_from [] s"

fun join :: "string \<Rightarrow> string list \<Rightarrow> string" where
  "join sep [] = []"
| "join sep [x] = x"
| "join sep (x # y # xs) = x @ sep @ join sep (y # xs)"

declare trim_left_space.simps [simp del] trim_right_space.simps [simp del]
  fields_from.simps(2) [simp del]

section \<open>The builder\<close>

definition getMethodID :: "string \<Rightarrow> method_id res" where
  "getMethodID m = (case MethodNames m of None \<Rightarrow> Fail ErrUnknowMethod | Some i \<Rightarrow> Ok i)"

definition validate :: "string list \<Rightarrow> unit res" where
  "validate tokens =
     (if length tokens < 2 then Fail ErrWrongQuery
      else then_res (go_index tokens 0) (\<lambda>m.
        if m \<notin> Methods then Fail ErrUnknowMethod
        else then_res (getMethodID m) (\<lambda>methodID.
          then_res (go_from tokens 1) (\<lambda>rest.
            if length rest < MethodArgs methodID then Fail ErrWrongArgsLen else Ok ()))))"

definition getQuery :: "string \<Rightarrow> string list \<Rightarrow> query res" where
  "getQuery m as =
     then_res (getMethodID m) (\<lambda>methodID.
       if methodID = SetMethodID
       then then_res (go_index as SetKeyIdx) (\<lambda>key.
            then_res (go_from as SetValueIdx) (\<lambda>vs.
              Ok \<lparr>q_methodID = methodID, q_args = [key, join '' '' vs]\<rparr>))
       else Ok \<lparr>q_methodID = methodID, q_args = as\<rparr>)"

definition Parse :: "byte list \<Rightarrow> query res" where
  "Parse input =
     (let inputStr = trim_space (trim_crlf (string_of_bytes input));
          tokens = Fields inputStr
      in then_res (validate tokens) (\<lambda>_.
         then_res (go_index tokens 0) (\<lambda>m.
         then_res (go_from tokens 1) (\<lambda>rest. getQuery m rest))))"

section \<open>Splitting at white space\<close>

lemma space_at_None_iff: "space_at s = None \<longleftrightarrow> (\<forall>p\<in>set space_runes. \<not> prefix p s)"
  by (auto simp: space_at_def find_None_iff)

lemma space_at_rune:
  assumes p: "p \<in> set space_runes"
  shows "space_at (p @ t) = Some p"
proof -
  have "space_at (p @ t) \<noteq> None" using p prefixI unfolding space_at_None_iff by blast
  then obtain q where q: "space_at (p @ t) = Some q" by blast
  then have qs: "q \<in> set space_runes" "prefix q (p @ t)" using space_at_SomeD by blast+
  then have "prefix q p \<or> prefix p q" by (metis prefixI prefix_same_cases)
  then have "q = p" using space_runes_prefix_free p qs(1) by (auto simp: list_all_iff)
  with q show ?thesis by simp
qed

lemma space_at_append:
  assumes "s \<noteq> []" and t: "t = [] \<or> \<not> cont_byte (hd t)"
  shows "space_at (s @ t) = space_at s"
proof -
  have "prefix q (s @ t) \<longleftrightarrow> prefix q s" if q: "q \<in> set space_runes" for q
  proof
    assume "prefix q (s @ t)"
    then consider "prefix q s" | t1 where "q = s @ t1" "prefix t1 t" "t1 \<noteq> []"
      unfolding prefix_append by (metis append.right_neutral prefix_order.refl)
    then show "prefix q s"
    proof cases
      case 2
      then have "hd t1 \<in> set (tl q)" using \<open>s \<noteq> []\<close> by (cases s) auto
      then have "cont_byte (hd t1)" using space_runes_shape q by (auto simp: list_all_iff)
      moreover have "hd t1 = hd t" "t \<noteq> []" using 2 by (auto simp: prefix_def)
      ultimately show ?thesis using t by simp
    qed
  qed (simp add: prefix_prefix)
  then show ?thesis unfolding space_at_def by (intro find_cong) auto
qed

lemma space_rune_hd: "p \<in> set space_runes \<Longrightarrow> \<not> cont_byte (hd (p @ t))"
  using space_runes_shape by (auto simp: list_all_iff)

lemma fields_from_rune:
  assumes p: "p \<in> set space_runes"
  shows "fields_from cur (p @ t) = flush_field cur @ fields_from [] t"
proof -
  obtain c p' where cp: "p = c # p'" using space_rune_nonempty [OF p] by (cases p) auto
  have "space_at (c # (p' @ t)) = Some p" using space_at_rune [OF p, of t] cp by simp
  then show ?thesis using cp by (simp add: fields_from.simps(2))
qed

lemma fields_front: "p \<in> set space_runes \<Longrightarrow> Fields (p @ s) = Fields s"
  by (simp add: Fields_def fields_from_rune flush_field_def)

lemma fields_from_back:
  assumes p: "p \<in> set space_runes"
  shows "fields_from cur (s @ p) = fields_from cur s"
proof (induction cur s rule: fields_from.induct)
  case (1 cur)
  then show ?case using fields_from_rune [OF p, of cur "[]"] by (simp add: flush_field_def)
next
  case (2 cur c s)
  have same: "space_at (c # (s @ p)) = space_at (c # s)"
    using space_at_append [of "c # s" p] space_rune_hd [OF p, of "[]"] by simp
  show ?case
  proof (cases "space_at (c # s)")
    case None
    with 2 same show ?thesis by (simp add: fields_from.simps(2))
  next
    case (Some q)
    then have "length q \<le> length (c # s)" using space_at_SomeD prefix_length_le by blast
    then have "drop (length q) (c # s @ p) = drop (length q) (c # s) @ p"
      using drop_append [of "length q" "c # s" p] by simp
    with 2(2)[OF Some] Some same show ?thesis by (simp add: fields_from.simps(2))
  qed
qed

lemma fields_back: "p \<in> set space_runes \<Longrightarrow> Fields (s @ p) = Fields s"
  by (simp add: Fields_def fields_from_back)

lemma fields_trim_left_space: "Fields (trim_left_space s) = Fields s"
proof (induction s rule: trim_left_space.induct)
  case (1 s)
  show ?case
  proof (cases "space_at s")
    case None
    then show ?thesis by (simp add: trim_left_space.simps [of s])
  next
    case (Some p)
    then obtain t where "p \<in> set space_runes" "s = p @ t"
      using space_at_SomeD by (auto simp: prefix_def)
    with 1 [OF Some] Some show ?thesis
      by (simp add: trim_left_space.simps [of "p @ t"] fields_front)
  qed
qed

lemma fields_trim_right_space: "Fields (trim_right_space s) = Fields s"
proof (induction s rule: trim_right_space.induct)
  case (1 s)
  show ?case
  proof (cases "space_end s")
    case None
    then show ?thesis by (simp add: trim_right_space.simps [of s])
  next
    case (Some p)
    then obtain t where "p \<in> set space_runes" "s = t @ p"
      using space_end_SomeD by (auto simp: suffix_def)
    with 1 [OF Some] Some show ?thesis
      by (simp add: trim_right_space.simps [of "t @ p"] fields_back)
  qed
qed

lemma fields_dropWhile_crlf: "Fields (dropWhile crlf s) = Fields s"
proof (induction s)
  case (Cons c s)
  then show ?case using fields_front [OF space_runes_crlf, of c s] by simp
qed simp

lemma fields_dropWhile_crlf_back: "Fields (rev (dropWhile crlf (rev s))) = Fields s"
proof (induction s rule: rev_induct)
  case (snoc c s)
  then show ?case using fields_back [OF space_runes_crlf, of c s] by simp
qed simp

text \<open>The two trimming passes of \<^verbatim>\<open>Parse\<close> do not change the tokens.\<close>

lemma fields_trimmed: "Fields (trim_space (trim_crlf s)) = Fields s"
  by (simp add: trim_space_def trim_crlf_def fields_trim_left_space fields_trim_right_space
      fields_dropWhile_crlf fields_dropWhile_crlf_back)

text \<open>A token has no white space rune anywhere inside.\<close>

fun no_space :: "string \<Rightarrow> bool" where
  "no_space [] = True"
| "no_space (c # s) = (space_at (c # s) = None \<and> no_space s)"

definition is_token :: "string \<Rightarrow> bool" where
  "is_token s \<longleftrightarrow> s \<noteq> [] \<and> no_space s"

lemma fields_from_no_space:
  assumes "no_space t" and r: "r = [] \<or> \<not> cont_byte (hd r)"
  shows "fields_from cur (t @ r) = fields_from (cur @ t) r"
  using assms(1)
proof (induction t arbitrary: cur)
  case (Cons c t)
  then have "space_at (c # (t @ r)) = None" using space_at_append [of "c # t" r] r by simp
  with Cons show ?case by (simp add: fields_from.simps(2))
qed simp

lemma blank_rune: "'' '' \<in> set space_runes"
  by code_simp

lemma fields_join: "list_all is_token ts \<Longrightarrow> Fields (join '' '' ts) = ts"
proof (induction "'' ''" ts rule: join.induct)
  case 1
  then show ?case by (simp add: Fields_def flush_field_def)
next
  case (2 x)
  then show ?case
    using fields_from_no_space [of x "[]" "[]"] by (simp add: is_token_def Fields_def flush_field_def)
next
  case (3 x y xs)
  have "\<not> cont_byte (hd ('' '' @ join '' '' (y # xs)))" by (rule space_rune_hd [OF blank_rune])
  then have "fields_from [] (x @ '' '' @ join '' '' (y # xs)) =
      fields_from x ('' '' @ join '' '' (y # xs))"
    using 3(2) fields_from_no_space [of x "'' '' @ join '' '' (y # xs)" "[]"]
    by (simp add: is_token_def)
  also have "\<dots> = x # fields_from [] (join '' '' (y # xs))"
    using 3(2) fields_from_rune [OF blank_rune, of x "join '' '' (y # xs)"]
    by (simp add: is_token_def flush_field_def)
  finally show ?case using 3 by (simp add: Fields_def)
qed

text \<open>\<open>clear cur s\<close>: no white space rune of \<open>cur @ s\<close> starts inside \<open>cur\<close>.\<close>

fun clear :: "string \<Rightarrow> string \<Rightarrow> bool" where
  "clear [] s = True"
| "clear (c # cur) s = (space_at ((c # cur) @ s) = None \<and> clear cur s)"

lemma clear_no_space: "clear cur s \<Longrightarrow> no_space cur"
proof (induction cur)
  case (Cons c cur)
  then have "space_at ((c # cur) @ s) = None" by simp
  then have "space_at (c # cur) = None"
    unfolding space_at_None_iff using prefix_prefix by blast
  with Cons show ?case by simp
qed simp

lemma clear_snoc: "clear (cur @ [c]) s \<longleftrightarrow> clear cur (c # s) \<and> space_at (c # s) = None"
  by (induction cur) auto

lemma fields_from_tokens: "clear cur s \<Longrightarrow> list_all is_token (fields_from cur s)"
proof (induction cur s rule: fields_from.induct)
  case (1 cur)
  then show ?case using clear_no_space by (auto simp: flush_field_def is_token_def)
next
  case (2 cur c s)
  have "list_all is_token (flush_field cur)"
    using clear_no_space [OF 2(3)] by (simp add: flush_field_def is_token_def)
  with 2 show ?case
    by (auto simp: fields_from.simps(2) clear_snoc split: option.split)
qed

lemma Fields_tokens: "list_all is_token (Fields s)"
  by (simp add: Fields_def fields_from_tokens)

section \<open>What the parser accepts\<close>

text \<open>The grammar on tokens that \<^verbatim>\<open>Parse\<close> implements, and the shape of an accepted query.\<close>

definition parse_tokens :: "string list \<Rightarrow> query res" where
  "parse_tokens ts =
     (case ts of
        m # a # as \<Rightarrow>
          (if m = SET then
             (if as = [] then Fail ErrWrongArgsLen
              else Ok (NewQuery SetMethodID [a, join '' '' as]))
           else if m = GET then Ok (NewQuery GetMethodID (a # as))
           else if m = DEL then Ok (NewQuery DelMethodID (a # as))
           else Fail ErrUnknowMethod)
      | _ \<Rightarrow> Fail ErrWrongQuery)"

definition valid_query :: "query \<Rightarrow> bool" where
  "valid_query q \<longleftrightarrow>
     (q_methodID q = SetMethodID \<and> length (q_args q) = 2) \<or>
     (q_methodID q \<in> {GetMethodID, DelMethodID} \<and> q_args q \<noteq> [])"

text \<open>The line a client sends for a query.\<close>

definition method_name :: "method_id \<Rightarrow> string" where
  "method_name m = (if m = SetMethodID then SET else if m = GetMethodID then GET else DEL)"

definition print_query :: "query \<Rightarrow> byte list" where
  "print_query q = bytes_of_string (join '' '' (method_name (q_methodID q) # q_args q) @ [CHR 0x0A])"

lemmas builder_defs = validate_def getQuery_def getMethodID_def MethodNames_def Methods_def
  MethodArgs_def go_index_def go_from_def NewQuery_def arg_indices method_ids method_strings

lemma Parse_tokens: "Parse input = parse_tokens (Fields (string_of_bytes input))"
proof -
  define ts where "ts = Fields (string_of_bytes input)"
  have "Parse input = then_res (validate ts) (\<lambda>_. then_res (go_index ts 0) (\<lambda>m.
      then_res (go_from ts 1) (\<lambda>rest. getQuery m rest)))"
    by (simp add: Parse_def fields_trimmed ts_def Let_def)
  also have "\<dots> = parse_tokens ts"
  proof (cases "length ts < 2")
    case True
    then show ?thesis by (auto simp: validate_def parse_tokens_def split: list.splits)
  next
    case False
    then obtain m a as where "ts = m # a # as" by (cases ts; cases "tl ts") auto
    then show ?thesis by (cases as) (auto simp: builder_defs parse_tokens_def)
  qed
  finally show ?thesis by (simp add: ts_def)
qed

lemma parse_tokens_valid: "parse_tokens ts = Ok q \<Longrightarrow> valid_query q"
  by (auto simp: parse_tokens_def valid_query_def NewQuery_def split: list.splits if_splits)

lemma bytes_newline: "string_of_bytes (bytes_of_string (t @ [CHR 0x0A])) = t @ [CHR 0x0A]"
  by simp

lemma newline_rune: "[CHR 0x0A] \<in> set space_runes"
  by code_simp

text \<open>Evaluation of the splitter on plain characters.\<close>

definition space_heads :: "char list" where
  "space_heads = [CHR 0x09, CHR 0x0A, CHR 0x0B, CHR 0x0C, CHR 0x0D, CHR 0x20, CHR 0xC2, CHR 0xE1, CHR 0xE2, CHR 0xE3]"

lemma space_runes_heads: "list_all (\<lambda>p. hd p \<in> set space_heads) space_runes"
  by (simp add: space_runes_def space_heads_def)

lemma space_at_plain: "c \<notin> set space_heads \<Longrightarrow> space_at (c # s) = None"
  using space_runes_heads space_rune_nonempty
  by (fastforce simp: space_at_None_iff list_all_iff prefix_Cons)

lemma fields_from_plain: "c \<notin> set space_heads \<Longrightarrow> fields_from cur (c # s) = fields_from (cur @ [c]) s"
  by (simp add: fields_from.simps(2) space_at_plain)

lemma fields_from_blank: "fields_from cur (CHR '' '' # s) = flush_field cur @ fields_from [] s"
  using fields_from_rune [OF blank_rune] by simp

lemma fields_from_newline: "fields_from cur (CHR 0x0A # s) = flush_field cur @ fields_from [] s"
  using fields_from_rune [OF newline_rune] by simp

lemmas fields_eval = Fields_def fields_from_plain fields_from_blank fields_from_newline
  space_heads_def flush_field_def

lemma plain_token: "s \<noteq> [] \<Longrightarrow> list_all (\<lambda>c. c \<notin> set space_heads) s \<Longrightarrow> is_token s"
proof -
  have "list_all (\<lambda>c. c \<notin> set space_heads) s \<Longrightarrow> no_space s" for s
    by (induction s) (simp_all add: space_at_plain)
  then show "s \<noteq> [] \<Longrightarrow> list_all (\<lambda>c. c \<notin> set space_heads) s \<Longrightarrow> is_token s"
    by (simp add: is_token_def)
qed

lemma method_name_token: "is_token (method_name m)"
  by (rule plain_token) (simp_all add: method_name_def method_strings space_heads_def)

text \<open>
  The queries that a line can stand for: a key without white space, a value made of tokens with
  single blanks between them, for \<^verbatim>\<open>GET\<close> and \<^verbatim>\<open>DEL\<close> one or more arguments without white space.
\<close>

definition printable :: "query \<Rightarrow> bool" where
  "printable q \<longleftrightarrow>
     (if q_methodID q = SetMethodID
      then (case q_args q of [k, v] \<Rightarrow> is_token k \<and> v \<noteq> [] \<and> join '' '' (Fields v) = v | _ \<Rightarrow> False)
      else q_methodID q \<in> {GetMethodID, DelMethodID} \<and> q_args q \<noteq> [] \<and> list_all is_token (q_args q))"

lemma join_tokens_nonempty: "list_all is_token ts \<Longrightarrow> ts \<noteq> [] \<Longrightarrow> join '' '' ts \<noteq> []"
  by (cases ts; cases "tl ts") (auto simp: is_token_def)

lemma parse_tokens_printable:
  assumes "list_all is_token ts" "parse_tokens ts = Ok q"
  shows "printable q"
proof -
  obtain m a as where ts: "ts = m # a # as" using assms(2) by (cases ts; cases "tl ts") (auto simp: parse_tokens_def)
  then have "is_token a" "list_all is_token as" using assms(1) by simp_all
  then show ?thesis
    using assms(2) ts join_tokens_nonempty [of as]
    by (auto simp: parse_tokens_def printable_def NewQuery_def fields_join method_ids split: if_splits)
qed

lemma parse_printed:
  assumes "printable q"
  shows "Parse (print_query q) = Ok q"
proof -
  let ?m = "method_name (q_methodID q)"
  obtain all where all: "list_all is_token all" "join '' '' (?m # q_args q) = join '' '' all" "parse_tokens all = Ok q"
  proof (cases "q_methodID q = SetMethodID")
    case True
    then obtain k v where kv: "q_args q = [k, v]" "is_token k" "v \<noteq> []" "join '' '' (Fields v) = v"
      using assms by (auto simp: printable_def split: list.splits)
    then obtain t ts where f: "Fields v = t # ts" by (cases "Fields v") auto
    show thesis
    proof (rule that [of "?m # k # Fields v"])
      show "list_all is_token (?m # k # Fields v)" using kv(2) Fields_tokens method_name_token by simp
      show "join '' '' (?m # q_args q) = join '' '' (?m # k # Fields v)" using kv(1,4) f by simp
      show "parse_tokens (?m # k # Fields v) = Ok q"
        using True kv(1,4) f by (cases q) (simp add: parse_tokens_def method_name_def NewQuery_def)
    qed
  next
    case False
    then have q: "q_methodID q \<in> {GetMethodID, DelMethodID}" "q_args q \<noteq> []" "list_all is_token (q_args q)"
      using assms by (simp_all add: printable_def)
    then obtain a as where "q_args q = a # as" by (cases "q_args q") auto
    then have "parse_tokens (?m # q_args q) = Ok q"
      using q(1) by (cases q) (auto simp: parse_tokens_def method_name_def NewQuery_def method_ids method_strings)
    then show thesis using q(3) method_name_token by (intro that [of "?m # q_args q"]) simp_all
  qed
  have "Parse (print_query q) = parse_tokens (Fields (join '' '' all @ [CHR 0x0A]))"
    by (simp only: Parse_tokens print_query_def bytes_newline all(2))
  also have "\<dots> = parse_tokens all" by (simp add: fields_back [OF newline_rune] fields_join [OF all(1)])
  finally show ?thesis by (simp add: all(3))
qed

text \<open>The quotation marks in the session that the README shows.\<close>

lemma Parse_keeps_quotes:
  "Parse (bytes_of_string (''SET user:1 '' @ [CHR 0x22] @ ''John Doe'' @ [CHR 0x22, CHR 0x0A])) =
   Ok (NewQuery SetMethodID [''user:1'', [CHR 0x22] @ ''John Doe'' @ [CHR 0x22]])"
  by (simp add: Parse_tokens fields_eval parse_tokens_def method_strings)

section \<open>Properties\<close>

text \<open>
  C18. The parser implements the token grammar: for every input, \<^verbatim>\<open>Parse\<close> returns what the
  grammar says of the white space separated tokens of the untrimmed line, with the error
  values in the order of the checks (too few tokens, unknown method, too few arguments); the
  two trimming passes have no effect, and no input makes it panic. Quotation marks are no syntax: in
  the session of the README the value of \<open>user:1\<close> is stored with its quotation marks, where the
  README shows the answer without them.
\<close>

theorem Parse_implements_grammar:
  "Parse input = parse_tokens (Fields (string_of_bytes input)) \<and> Parse input \<noteq> Panic \<and> Parse input \<noteq> Hang \<and>
   Parse (bytes_of_string (''SET user:1 '' @ [CHR 0x22] @ ''John Doe'' @ [CHR 0x22, CHR 0x0A])) =
     Ok (NewQuery SetMethodID [''user:1'', [CHR 0x22] @ ''John Doe'' @ [CHR 0x22]])"
proof -
  have "parse_tokens ts \<noteq> Panic \<and> parse_tokens ts \<noteq> Hang" for ts
    by (auto simp: parse_tokens_def split: list.splits)
  then show ?thesis using Parse_keeps_quotes by (simp only: Parse_tokens simp_thms)
qed

text \<open>
  C22. Which queries survive printing and parsing, exactly: a query printed as a command line is read
  back by the parser if and only if it is printable (a \<^verbatim>\<open>SET\<close> with a key without white space and a
  value of tokens with single blanks between them, a \<^verbatim>\<open>GET\<close> or \<^verbatim>\<open>DEL\<close> with at least one argument, none
  with white space), and these are exactly the queries that the parser can return for any input.
\<close>

theorem Parse_print_roundtrip:
  "(Parse (print_query q) = Ok q \<longleftrightarrow> printable q) \<and> ((\<exists>input. Parse input = Ok q) \<longleftrightarrow> printable q)"
proof -
  have "Parse input = Ok q \<Longrightarrow> printable q" for input
    using parse_tokens_printable [OF Fields_tokens] by (simp add: Parse_tokens)
  then show ?thesis using parse_printed by blast
qed

text \<open>
  Every query the parser accepts is well formed: SET has exactly two arguments, GET and
  DEL at least one, and no other method identifier occurs; so the positional reads of the
  executor are in range. GET and DEL keep their surplus arguments.
\<close>

lemma Parse_valid_query:
  assumes "Parse input = Ok q"
  shows "valid_query q"
  using assms parse_tokens_valid by (simp add: Parse_tokens)

end
