(* ===== verification/Row.thy ===== *)
theory Row
  imports Query
begin

text \<open>
  \<^verbatim>\<open>internal/database/wal/wal_record.go\<close>: one record of the write-ahead log and its binary
  format, 8 bytes of log sequence number, 1 byte of method, 2 bytes of argument count, and for
  every argument 2 bytes of length and its content, all big endian. The writes into a
  \<^verbatim>\<open>bytes.Buffer\<close> cannot fail and have no error branch.
\<close>

record row =
  r_lsnID :: u64
  r_methodID :: method_id
  r_args :: "string list"

definition NewRow :: "u64 \<Rightarrow> method_id \<Rightarrow> string list \<Rightarrow> row" where
  "NewRow l m as = \<lparr>r_lsnID = l, r_methodID = m, r_args = as\<rparr>"

section \<open>Writing\<close>

fun marshal_args :: "string list \<Rightarrow> byte list res" where
  "marshal_args [] = Ok []"
| "marshal_args (a # as) =
     (if 65535 < length (bytes_of_string a) then Fail ErrArgTooLarge
      else then_res (marshal_args as) (\<lambda>bs.
        Ok (be_bytes 2 (unat (word_of_nat (length (bytes_of_string a)) :: u16)) @
            bytes_of_string a @ bs)))"

text \<open>The argument count is \<^verbatim>\<open>uint16(len(r.args))\<close>, the low 16 bits of the number of arguments.\<close>

definition Marshal :: "row \<Rightarrow> byte list res" where
  "Marshal r =
     then_res (marshal_args (r_args r)) (\<lambda>bs.
       Ok (be_bytes 8 (unat (r_lsnID r)) @ [r_methodID r] @
           be_bytes 2 (unat (word_of_nat (length (r_args r)) :: u16)) @ bs))"

section \<open>Reading\<close>

text \<open>Every failed read of the decoder is reported as \<^verbatim>\<open>io.EOF\<close>.\<close>

definition read_or_eof :: "nat \<Rightarrow> byte list \<Rightarrow> (byte list \<times> byte list) res" where
  "read_or_eof n bs = (case read_full n bs of Ok v \<Rightarrow> Ok v | _ \<Rightarrow> Fail EOF)"

fun unmarshal_args :: "nat \<Rightarrow> byte list \<Rightarrow> (string list \<times> byte list) res" where
  "unmarshal_args 0 bs = Ok ([], bs)"
| "unmarshal_args (Suc n) bs =
     then_res (read_or_eof 2 bs) (\<lambda>(l, bs1).
     then_res (read_or_eof (be_val l) bs1) (\<lambda>(a, bs2).
     then_res (unmarshal_args n bs2) (\<lambda>(as, bs3).
       Ok (string_of_bytes a # as, bs3))))"

text \<open>The result is the row and the number of bytes read, \<^verbatim>\<open>startLen - buf.Len()\<close>.\<close>

definition Unmarshal :: "byte list \<Rightarrow> (row \<times> nat) res" where
  "Unmarshal data =
     then_res (read_or_eof 8 data) (\<lambda>(l, bs1).
     then_res (read_or_eof 1 bs1) (\<lambda>(m, bs2).
     then_res (read_or_eof 2 bs2) (\<lambda>(c, bs3).
     then_res (unmarshal_args (be_val c) bs3) (\<lambda>(as, bs4).
       Ok (\<lparr>r_lsnID = word_of_nat (be_val l), r_methodID = m ! 0, r_args = as\<rparr>,
           length data - length bs4)))))"

section \<open>Facts about the format\<close>

lemma read_or_eof_Ok_iff: "read_or_eof n bs = Ok (a, r) \<longleftrightarrow> bs = a @ r \<and> length a = n"
  by (auto simp: read_or_eof_def read_full_def)

lemma read_or_eof_append [simp]: "length a = n \<Longrightarrow> read_or_eof n (a @ r) = Ok (a, r)"
  by (simp add: read_or_eof_Ok_iff)

lemma read_or_eof_cases: "read_or_eof n bs = Fail EOF \<or> (\<exists>v. read_or_eof n bs = Ok v)"
  by (auto simp: read_or_eof_def split: res.split)

lemma unmarshal_args_cases:
  "unmarshal_args n bs = Fail EOF \<or> (\<exists>v. unmarshal_args n bs = Ok v)"
proof (induction n arbitrary: bs)
  case (Suc n)
  show ?case
    using read_or_eof_cases [of 2 bs]
  proof (elim disjE exE)
    fix v assume v: "read_or_eof 2 bs = Ok v"
    obtain l bs1 where lb: "v = (l, bs1)" by (cases v)
    show ?thesis
      using read_or_eof_cases [of "be_val l" bs1]
    proof (elim disjE exE)
      fix w assume w: "read_or_eof (be_val l) bs1 = Ok w"
      obtain a bs2 where ab: "w = (a, bs2)" by (cases w)
      from Suc [of bs2] show ?thesis using v lb w ab by auto
    qed (simp add: v lb)
  qed simp
qed simp

lemma Unmarshal_cases: "Unmarshal data = Fail EOF \<or> (\<exists>v. Unmarshal data = Ok v)"
proof (cases "read_or_eof 8 data")
  case (Ok v)
  obtain l bs1 where v: "v = (l, bs1)" by (cases v)
  show ?thesis
  proof (cases "read_or_eof 1 bs1")
    case m: (Ok w)
    obtain m bs2 where w: "w = (m, bs2)" by (cases w)
    show ?thesis
    proof (cases "read_or_eof 2 bs2")
      case c: (Ok u)
      obtain c bs3 where u: "u = (c, bs3)" by (cases u)
      show ?thesis using unmarshal_args_cases [of "be_val c" bs3]
        using Ok v m w c u by (auto simp: Unmarshal_def)
    qed (use read_or_eof_cases [of 2 bs2] Ok v m w in \<open>auto simp: Unmarshal_def\<close>)
  qed (use read_or_eof_cases [of 1 bs1] Ok v in \<open>auto simp: Unmarshal_def\<close>)
qed (use read_or_eof_cases [of 8 data] in \<open>auto simp: Unmarshal_def\<close>)

lemma be_val_u16: "be_val (be_bytes 2 (unat (word_of_nat n :: u16))) = n mod 65536"
  by (simp add: be_val_be_bytes unat_of_nat)

lemma be_val_u64: "word_of_nat (be_val (be_bytes 8 (unat (w :: u64)))) = w"
  using unat_u64_lt [of w] by (simp add: be_val_be_bytes)

lemma be_bytes_u64: "length l = 8 \<Longrightarrow> be_bytes 8 (unat (word_of_nat (be_val l) :: u64)) = l"
  using be_val_bound [of l] be_bytes_be_val [of l] by (simp add: unat_of_nat)

lemma be_bytes_u16: "length l = 2 \<Longrightarrow> be_bytes 2 (unat (word_of_nat (be_val l) :: u16)) = l"
  using be_val_bound [of l] be_bytes_be_val [of l] by (simp add: unat_of_nat)

lemma marshal_args_Ok_iff:
  "(\<exists>bs. marshal_args as = Ok bs) \<longleftrightarrow> list_all (\<lambda>a. length a \<le> 65535) as"
  by (induction as) auto

lemma marshal_args_result:
  "marshal_args as = Fail ErrArgTooLarge \<or> (\<exists>bs. marshal_args as = Ok bs)"
  by (induction as) auto

lemma unmarshal_marshal_args:
  "marshal_args as = Ok bs \<Longrightarrow> n \<le> length as \<Longrightarrow>
   \<exists>us. marshal_args (take n as) = Ok us \<and> prefix us bs \<and>
        unmarshal_args n (bs @ rest) = Ok (take n as, drop (length us) bs @ rest)"
proof (induction as arbitrary: bs n)
  case (Cons a as)
  then obtain bs' where bs: "length a \<le> 65535" "marshal_args as = Ok bs'"
    "bs = be_bytes 2 (unat (word_of_nat (length a) :: u16)) @ bytes_of_string a @ bs'"
    by (auto split: if_splits)
  show ?case
  proof (cases n)
    case (Suc k)
    then obtain us where "marshal_args (take k as) = Ok us" "prefix us bs'"
      "unmarshal_args k (bs' @ rest) = Ok (take k as, drop (length us) bs' @ rest)"
      using Cons.IH [OF bs(2), of k] Cons.prems by auto
    with bs Suc show ?thesis by (auto simp: be_val_u16 prefix_def)
  qed simp
qed simp

lemma unmarshal_args_sound:
  "unmarshal_args n bs = Ok (as, r) \<Longrightarrow>
   length as = n \<and> (\<exists>us. marshal_args as = Ok us \<and> bs = us @ r)"
proof (induction n arbitrary: bs as r)
  case (Suc n)
  then obtain l bs1 a bs2 as' where u: "bs = l @ bs1" "length l = 2" "bs1 = a @ bs2"
    "length a = be_val l" "unmarshal_args n bs2 = Ok (as', r)" "as = string_of_bytes a # as'"
    by (auto simp: read_or_eof_Ok_iff)
  have "length a \<le> 65535" using u(2,4) be_val_bound [of l] by simp
  moreover have "be_bytes 2 (unat (word_of_nat (length a) :: u16)) = l"
    using u(2,4) be_bytes_u16 by simp
  ultimately show ?case using Suc.IH [OF u(5)] u by auto
qed simp

lemma marshal_args_take: "marshal_args as = Ok bs \<Longrightarrow> \<exists>us. marshal_args (take n as) = Ok us \<and> prefix us bs"
proof (cases "n \<le> length as")
  case True
  assume "marshal_args as = Ok bs"
  from unmarshal_marshal_args [OF this True] show ?thesis by blast
qed auto

section \<open>The codec\<close>

text \<open>What a marshalled row reads back as, with anything behind it.\<close>

definition count_kept :: "row \<Rightarrow> nat" where
  "count_kept r = length (r_args r) mod 65536"

lemma Unmarshal_Marshal_gen:
  assumes "Marshal r = Ok b"
  shows "\<exists>k. Unmarshal (b @ rest) = Ok (r\<lparr>r_args := take (count_kept r) (r_args r)\<rparr>, k) \<and>
    k \<le> length b \<and> (length (r_args r) < 65536 \<longrightarrow> k = length b)"
proof -
  obtain bs where bs: "marshal_args (r_args r) = Ok bs"
    "b = be_bytes 8 (unat (r_lsnID r)) @ [r_methodID r] @
         be_bytes 2 (unat (word_of_nat (length (r_args r)) :: u16)) @ bs"
    using assms by (auto simp: Marshal_def)
  obtain us where us: "marshal_args (take (count_kept r) (r_args r)) = Ok us" "prefix us bs"
    "unmarshal_args (count_kept r) (bs @ rest) =
       Ok (take (count_kept r) (r_args r), drop (length us) bs @ rest)"
    using unmarshal_marshal_args [OF bs(1), of "count_kept r"] by (auto simp: count_kept_def)
  have "read_or_eof 1 (r_methodID r # xs) = Ok ([r_methodID r], xs)" for xs
    using read_or_eof_append [of "[r_methodID r]" 1 xs] by simp
  then have "Unmarshal (b @ rest) = Ok (r\<lparr>r_args := take (count_kept r) (r_args r)\<rparr>,
      length (b @ rest) - length (drop (length us) bs @ rest))"
    using us(3) by (simp add: bs(2) Unmarshal_def be_val_u16 be_val_u64 count_kept_def)
  moreover have "length us \<le> length bs" using us(2) by (rule prefix_length_le)
  moreover have "us = bs" if "length (r_args r) < 65536"
    using us(1) bs(1) that by (simp add: count_kept_def)
  ultimately show ?thesis using bs(2) by auto
qed

lemma Marshal_Unmarshal:
  assumes "Unmarshal data = Ok (r, n)"
  shows "11 \<le> n \<and> n \<le> length data \<and> Marshal r = Ok (take n data) \<and> length (r_args r) < 65536"
proof -
  obtain l bs1 m bs2 c bs3 as bs4 where u:
    "data = l @ bs1" "length l = 8" "bs1 = m @ bs2" "length m = 1" "bs2 = c @ bs3" "length c = 2"
    "unmarshal_args (be_val c) bs3 = Ok (as, bs4)"
    "r = \<lparr>r_lsnID = word_of_nat (be_val l), r_methodID = m ! 0, r_args = as\<rparr>"
    "n = length data - length bs4"
    using assms by (auto simp: Unmarshal_def read_or_eof_Ok_iff)
  obtain us where us: "length as = be_val c" "marshal_args as = Ok us" "bs3 = us @ bs4"
    using unmarshal_args_sound [OF u(7)] by blast
  have m: "m = [m ! 0]" using u(4) by (cases m) auto
  have "Marshal r = Ok (l @ m @ c @ us)"
    using u us m by (simp add: Marshal_def be_bytes_u64 be_bytes_u16)
  moreover have "take n data = l @ m @ c @ us" using u us by simp
  moreover have "be_val c < 65536" using be_val_bound [of c] u(6) by simp
  ultimately show ?thesis using u us by simp
qed

lemma Unmarshal_extend:
  assumes "Unmarshal data = Ok (r, n)"
  shows "Unmarshal (data @ rest) = Ok (r, n)"
proof -
  note m = Marshal_Unmarshal [OF assms]
  then obtain k where "Unmarshal (take n data @ (drop n data @ rest)) = Ok (r, k)" "k = n"
    using Unmarshal_Marshal_gen [of r "take n data" "drop n data @ rest"]
    by (auto simp: count_kept_def min_def)
  then show ?thesis by (metis append.assoc append_take_drop_id)
qed

lemma Unmarshal_pos: "Unmarshal data = Ok (r, n) \<Longrightarrow> 0 < n \<and> n \<le> length data"
  using Marshal_Unmarshal by fastforce

text \<open>The rows that survive a round trip.\<close>

definition row_ok :: "row \<Rightarrow> bool" where
  "row_ok r \<longleftrightarrow> length (r_args r) < 65536 \<and> list_all (\<lambda>a. length a \<le> 65535) (r_args r)"

definition enc :: "row \<Rightarrow> byte list" where
  "enc r = (case Marshal r of Ok b \<Rightarrow> b | _ \<Rightarrow> [])"

lemma row_ok_Marshal: "row_ok r \<Longrightarrow> Marshal r = Ok (enc r)"
  using marshal_args_Ok_iff [of "r_args r"] by (auto simp: row_ok_def enc_def Marshal_def)

lemma Marshal_enc: "Marshal r = Ok b \<Longrightarrow> enc r = b"
  by (simp add: enc_def)

lemma Unmarshal_enc: "row_ok r \<Longrightarrow> Unmarshal (enc r @ rest) = Ok (r, length (enc r))"
  using Unmarshal_Marshal_gen [OF row_ok_Marshal, of r rest]
  by (auto simp: count_kept_def row_ok_def)

lemma Unmarshal_row_ok: "Unmarshal data = Ok (r, n) \<Longrightarrow> row_ok r \<and> enc r = take n data"
  using Marshal_Unmarshal [of data r n] marshal_args_Ok_iff [of "r_args r"]
  by (auto simp: row_ok_def Marshal_enc Marshal_def)

lemma enc_length: "row_ok r \<Longrightarrow> 11 \<le> length (enc r)"
  using Unmarshal_enc [of r "[]"] Marshal_Unmarshal [of "enc r @ []" r "length (enc r)"] by simp

lemma Unmarshal_torn: "row_ok r \<Longrightarrow> k < length (enc r) \<Longrightarrow> Unmarshal (take k (enc r)) = Fail EOF"
proof (rule ccontr)
  assume ok: "row_ok r" and k: "k < length (enc r)" and "Unmarshal (take k (enc r)) \<noteq> Fail EOF"
  then obtain r' n where u: "Unmarshal (take k (enc r)) = Ok (r', n)"
    using Unmarshal_cases by (metis surj_pair)
  from Unmarshal_extend [OF u, of "drop k (enc r)"] Unmarshal_enc [OF ok, of "[]"]
  have "n = length (enc r)" by simp
  with Unmarshal_pos [OF u] k show False by simp
qed

section \<open>Properties\<close>

text \<open>
  C14. Encoding then decoding a log row is the identity: a row with fewer than 65536 arguments
  that marshals at all is read back exactly, whatever follows it in the file, and the decoder
  consumes exactly its bytes; conversely whatever the decoder accepts is the encoding of the row
  it returns, so the format is canonical.
\<close>

theorem Row_roundtrip:
  "(Marshal r = Ok b \<and> length (r_args r) < 65536 \<longrightarrow> Unmarshal (b @ rest) = Ok (r, length b)) \<and>
   (Unmarshal data = Ok (r', n) \<longrightarrow> 11 \<le> n \<and> n \<le> length data \<and> Marshal r' = Ok (take n data))"
  using Unmarshal_Marshal_gen [of r b rest] Marshal_Unmarshal [of data r' n]
  by (auto simp: count_kept_def)

theorem Row_roundtrip_witness:
  "\<exists>b. Marshal (NewRow 7 SetMethodID [''key'', ''value'']) = Ok b \<and>
       Unmarshal (b @ [1, 2]) = Ok (NewRow 7 SetMethodID [''key'', ''value''], length b)"
proof -
  have "row_ok (NewRow 7 SetMethodID [''key'', ''value''])" by (simp add: row_ok_def NewRow_def)
  from row_ok_Marshal [OF this] show ?thesis
    using Row_roundtrip [of "NewRow 7 SetMethodID [''key'', ''value'']" _ "[1, 2]"]
    by (auto simp: NewRow_def)
qed

text \<open>
  The decoder is total and knows one error: on any bytes it returns a row or \<^verbatim>\<open>io.EOF\<close>,
  never another error, so the branch of the log reader that skips a corrupted byte is dead; and
  every proper prefix of a row, as a torn write leaves it, is reported as \<^verbatim>\<open>io.EOF\<close>.
\<close>

lemma Unmarshal_only_EOF:
  "(Unmarshal data = Fail EOF \<or> (\<exists>r n. Unmarshal data = Ok (r, n))) \<and>
   (row_ok r \<and> k < length (enc r) \<longrightarrow> Unmarshal (take k (enc r)) = Fail EOF)"
  using Unmarshal_cases [of data] Unmarshal_torn [of r k] by (cases "Unmarshal data") auto

text \<open>
  A row fails to marshal exactly when one of its arguments is longer than 65535 bytes, and
  then always with the same error.
\<close>

lemma Marshal_fails_iff:
  "Marshal r = Fail ErrArgTooLarge \<longleftrightarrow> (\<exists>a. a \<in> set (r_args r) \<and> 65535 < length a)"
  using marshal_args_result [of "r_args r"] marshal_args_Ok_iff [of "r_args r"]
  by (auto simp: Marshal_def list_all_iff not_le)

text \<open>
  The 16-bit argument count truncates: a row with 65536 arguments or more marshals without
  an error, but only the first \<open>length mod 65536\<close> arguments are read back, so the decoder returns
  a different row. A DEL command may carry any number of arguments.
\<close>

lemma Marshal_count_truncated:
  assumes "Marshal r = Ok b" and "65536 \<le> length (r_args r)"
  shows "\<exists>r' n. Unmarshal (b @ rest) = Ok (r', n) \<and> r' \<noteq> r \<and>
    length (r_args r') = length (r_args r) mod 65536"
proof -
  obtain n where n: "Unmarshal (b @ rest) = Ok (r\<lparr>r_args := take (count_kept r) (r_args r)\<rparr>, n)"
    using Unmarshal_Marshal_gen [OF assms(1)] by blast
  have len: "length (take (count_kept r) (r_args r)) = length (r_args r) mod 65536"
    by (simp add: count_kept_def min_def)
  have "length (r_args r) mod 65536 < 65536" by simp
  with len assms(2) have "r\<lparr>r_args := take (count_kept r) (r_args r)\<rparr> \<noteq> r"
    by (metis not_le select_convs(3) surjective update_convs(3))
  with n len show ?thesis by auto
qed

end
