(* ===== verification/Index.thy ===== *)
theory Index
  imports Laguna_Prelude "HOL-Library.AList"
begin

text \<open>
  \<^verbatim>\<open>internal/segment/index.go\<close>: the three managers that map a log sequence number to the file and
  offset of its row, one behind a mutex, one copying on write, one on a sorted array. A batch is
  a Go map, given as the list of its pairs in iteration order. The locale \<open>index_if\<close> is what
  every manager promises of single additions, \<open>index_batch_if\<close> adds the batch operation of the
  Go interface \<^verbatim>\<open>IndexManager\<close>.
\<close>

record index_entry =
  ie_LSN :: u64
  ie_FileName :: string
  ie_Offset :: int

type_synonym batch = "(u64 \<times> index_entry) list"

definition entry_zero :: index_entry where
  "entry_zero = \<lparr>ie_LSN = 0, ie_FileName = [], ie_Offset = 0\<rparr>"

section \<open>Behind a mutex\<close>

record index_mutex =
  mx_index :: "u64 \<rightharpoonup> index_entry"

definition NewIndexManagerMutex :: index_mutex where
  "NewIndexManagerMutex = \<lparr>mx_index = Map.empty\<rparr>"

definition Mutex_Add :: "u64 \<Rightarrow> string \<Rightarrow> int \<Rightarrow> index_mutex \<Rightarrow> index_mutex" where
  "Mutex_Add lsn fileName offset im =
     im\<lparr>mx_index := (mx_index im)(lsn \<mapsto> \<lparr>ie_LSN = 0, ie_FileName = fileName, ie_Offset = offset\<rparr>)\<rparr>"

definition Mutex_GetIndex :: "index_mutex \<Rightarrow> u64 \<Rightarrow> index_entry res" where
  "Mutex_GetIndex im lsn =
     (case mx_index im lsn of None \<Rightarrow> Fail ErrIndexNotFound | Some e \<Rightarrow> Ok e)"

definition Mutex_AddBatch :: "batch \<Rightarrow> index_mutex \<Rightarrow> index_mutex" where
  "Mutex_AddBatch entries im = im\<lparr>mx_index := range_store entries (mx_index im)\<rparr>"

section \<open>Copy on write\<close>

record index_cow =
  cow_current :: batch

definition NewIndexManagerCOW :: index_cow where
  "NewIndexManagerCOW = \<lparr>cow_current = []\<rparr>"

text \<open>\<^verbatim>\<open>for k, v := range src { dst[k] = v }\<close> on enumerated maps.\<close>

definition copy_into :: "batch \<Rightarrow> batch \<Rightarrow> batch" where
  "copy_into src dst = fold (\<lambda>(k, v). AList.update k v) src dst"

text \<open>
  \<^verbatim>\<open>Add\<close> and \<^verbatim>\<open>AddBatch\<close> load the current map, build a new one and store it; the load and the
  store are two separate atomic steps.
\<close>

definition cow_load :: "index_cow \<Rightarrow> batch" where
  "cow_load im = cow_current im"

definition cow_store :: "batch \<Rightarrow> index_cow \<Rightarrow> index_cow" where
  "cow_store m im = im\<lparr>cow_current := m\<rparr>"

definition cow_added :: "u64 \<Rightarrow> string \<Rightarrow> int \<Rightarrow> batch \<Rightarrow> batch" where
  "cow_added lsn fileName offset oldMap =
     AList.update lsn \<lparr>ie_LSN = 0, ie_FileName = fileName, ie_Offset = offset\<rparr> (copy_into oldMap [])"

definition COW_Add :: "u64 \<Rightarrow> string \<Rightarrow> int \<Rightarrow> index_cow \<Rightarrow> index_cow" where
  "COW_Add lsn fileName offset im =
     (let oldMap = cow_load im in cow_store (cow_added lsn fileName offset oldMap) im)"

definition COW_AddBatch :: "batch \<Rightarrow> index_cow \<Rightarrow> index_cow" where
  "COW_AddBatch entries im =
     (let oldMap = cow_load im in cow_store (copy_into entries (copy_into oldMap [])) im)"

definition COW_GetIndex :: "index_cow \<Rightarrow> u64 \<Rightarrow> index_entry res" where
  "COW_GetIndex im lsn =
     (case map_of (cow_load im) lsn of None \<Rightarrow> Fail ErrIndexNotFound | Some e \<Rightarrow> Ok e)"

section \<open>A sorted array\<close>

record index_array =
  ar_entries :: "index_entry list"

definition NewIndexManagerArray :: index_array where
  "NewIndexManagerArray = \<lparr>ar_entries = []\<rparr>"

text \<open>\<^verbatim>\<open>sort.Search\<close> between \<open>lo\<close> and \<open>hi\<close>: the halving loop of the standard library.\<close>

function sort_Search :: "(nat \<Rightarrow> bool) \<Rightarrow> nat \<Rightarrow> nat \<Rightarrow> nat" where
  "sort_Search f lo hi =
     (if lo < hi then
        (let h = (lo + hi) div 2 in
         if \<not> f h then sort_Search f (h + 1) hi else sort_Search f lo h)
      else lo)"
  by pat_completeness auto
termination
  by (relation "measure (\<lambda>(f, lo, hi). hi - lo)") auto

function binarySearchIndex_loop :: "index_entry list \<Rightarrow> u64 \<Rightarrow> nat \<Rightarrow> nat \<Rightarrow> nat" where
  "binarySearchIndex_loop entries lsn lo hi =
     (if lo < hi then
        (let mid = (lo + hi) div 2 in
         if ie_LSN (entries ! mid) < lsn then binarySearchIndex_loop entries lsn (mid + 1) hi
         else binarySearchIndex_loop entries lsn lo mid)
      else lo)"
  by pat_completeness auto
termination
  by (relation "measure (\<lambda>(entries, lsn, lo, hi). hi - lo)") auto

declare sort_Search.simps [simp del] binarySearchIndex_loop.simps [simp del]

definition binarySearchIndex :: "index_entry list \<Rightarrow> u64 \<Rightarrow> nat" where
  "binarySearchIndex entries lsn = binarySearchIndex_loop entries lsn 0 (length entries)"

text \<open>
  The insertion appends a zero entry, moves the tail one place up with \<^verbatim>\<open>copy\<close> and stores the new
  entry in the gap.
\<close>

definition insert_at :: "nat \<Rightarrow> index_entry \<Rightarrow> index_entry list \<Rightarrow> index_entry list" where
  "insert_at idx e xs =
     (let grown = xs @ [entry_zero];
          moved = take (Suc idx) grown @ take (length grown - Suc idx) (drop idx grown)
      in moved[idx := e])"

definition Array_Add :: "u64 \<Rightarrow> string \<Rightarrow> int \<Rightarrow> index_array \<Rightarrow> index_array" where
  "Array_Add lsn fileName offset im =
     (let es = ar_entries im; n = length es;
          e = \<lparr>ie_LSN = lsn, ie_FileName = fileName, ie_Offset = offset\<rparr>
      in if n = 0 \<or> ie_LSN (es ! (n - 1)) < lsn then im\<lparr>ar_entries := es @ [e]\<rparr>
         else (let idx = sort_Search (\<lambda>i. lsn \<le> ie_LSN (es ! i)) 0 n
               in if idx < n \<and> ie_LSN (es ! idx) = lsn
                  then im\<lparr>ar_entries :=
                         es[idx := (es ! idx)\<lparr>ie_FileName := fileName, ie_Offset := offset\<rparr>]\<rparr>
                  else im\<lparr>ar_entries := insert_at idx e es\<rparr>))"

definition Array_AddBatch :: "index_entry list \<Rightarrow> index_array \<Rightarrow> index_array" where
  "Array_AddBatch entries im =
     (if entries = [] then im else im\<lparr>ar_entries := ar_entries im @ entries\<rparr>)"

definition Array_GetIndex :: "index_array \<Rightarrow> u64 \<Rightarrow> index_entry res" where
  "Array_GetIndex im lsn =
     (let idx = binarySearchIndex (ar_entries im) lsn
      in if idx < length (ar_entries im) \<and> ie_LSN (ar_entries im ! idx) = lsn
         then Ok (ar_entries im ! idx) else Fail ErrIndexNotFound)"

section \<open>The interface\<close>

definition place :: "index_entry \<Rightarrow> string \<times> int" where
  "place e = (ie_FileName e, ie_Offset e)"

locale index_if =
  fixes new :: 'i
    and add :: "u64 \<Rightarrow> string \<Rightarrow> int \<Rightarrow> 'i \<Rightarrow> 'i"
    and getIndex :: "'i \<Rightarrow> u64 \<Rightarrow> index_entry res"
    and inv :: "'i \<Rightarrow> bool"
    and abs :: "'i \<Rightarrow> u64 \<rightharpoonup> string \<times> int"
  assumes new_inv: "inv new"
    and new_abs: "abs new = Map.empty"
    and add_inv: "inv i \<Longrightarrow> inv (add l f o' i)"
    and add_abs: "inv i \<Longrightarrow> abs (add l f o' i) = (abs i)(l \<mapsto> (f, o'))"
    and get_some: "inv i \<Longrightarrow> abs i l = Some p \<Longrightarrow> \<exists>e. getIndex i l = Ok e \<and> place e = p"
    and get_none: "inv i \<Longrightarrow> abs i l = None \<Longrightarrow> getIndex i l = Fail ErrIndexNotFound"
begin

text \<open>Adding a list of entries one by one.\<close>

definition add_all :: "(u64 \<times> string \<times> int) list \<Rightarrow> 'i \<Rightarrow> 'i" where
  "add_all xs i = fold (\<lambda>(l, f, o'). add l f o') xs i"

lemma add_all_spec:
  "inv i \<Longrightarrow> inv (add_all xs i) \<and> abs (add_all xs i) = abs i ++ map_of (rev xs)"
  unfolding add_all_def
proof (induction xs arbitrary: i)
  case (Cons x xs)
  obtain l f o' where x: "x = (l, f, o')" by (cases x)
  have "(abs i)(l \<mapsto> (f, o')) ++ map_of (rev xs) = abs i ++ map_of (rev (x # xs))"
    by (rule ext) (simp add: x map_add_def split: option.split)
  with Cons.IH [OF add_inv [OF Cons.prems]] show ?case
    by (simp only: x fold_simps prod.case add_abs [OF Cons.prems] simp_thms)
qed simp

lemma get_after_add_all:
  assumes "map_of (rev xs) l = Some p"
  shows "\<exists>e. getIndex (add_all xs new) l = Ok e \<and> place e = p"
proof -
  have "inv (add_all xs new)" "abs (add_all xs new) = map_of (rev xs)"
    using add_all_spec [OF new_inv] by (simp_all add: new_abs)
  with assms show ?thesis by (metis get_some)
qed

end

locale index_batch_if = index_if +
  fixes addBatch :: "batch \<Rightarrow> 'a \<Rightarrow> 'a"
  assumes batch_inv: "inv i \<Longrightarrow> inv (addBatch es i)"
    and batch_abs: "inv i \<Longrightarrow> distinct (map fst es) \<Longrightarrow>
      abs (addBatch es i) = abs i ++ (map_option place \<circ> map_of es)"
begin

text \<open>Batches with disjoint keys may be added in any order.\<close>

lemma batch_commute:
  assumes "inv i" "distinct (map fst xs)" "distinct (map fst ys)"
    and "fst ` set xs \<inter> fst ` set ys = {}"
  shows "abs (addBatch xs (addBatch ys i)) = abs (addBatch ys (addBatch xs i))"
proof -
  have "dom (map_option place \<circ> map_of xs) \<inter> dom (map_option place \<circ> map_of ys) = {}"
    using assms(4) by (auto simp: dom_map_of_conv_image_fst [symmetric] dom_def)
  then have "(map_option place \<circ> map_of ys) ++ (map_option place \<circ> map_of xs) =
      (map_option place \<circ> map_of xs) ++ (map_option place \<circ> map_of ys)"
    by (metis map_add_comm)
  then show ?thesis
    using assms by (simp only: batch_abs batch_inv map_add_assoc [symmetric])
qed

end

section \<open>The mutex manager\<close>

definition mutex_abs :: "index_mutex \<Rightarrow> u64 \<rightharpoonup> string \<times> int" where
  "mutex_abs im = map_option place \<circ> mx_index im"

interpretation mx: index_batch_if NewIndexManagerMutex Mutex_Add Mutex_GetIndex "\<lambda>_. True"
  mutex_abs Mutex_AddBatch
proof unfold_locales
  fix i :: index_mutex and es :: batch assume "distinct (map fst es)"
  then show "mutex_abs (Mutex_AddBatch es i) = mutex_abs i ++ (map_option place \<circ> map_of es)"
    by (auto simp: mutex_abs_def Mutex_AddBatch_def range_store_distinct map_add_def fun_eq_iff
        split: option.split)
qed (auto simp: mutex_abs_def NewIndexManagerMutex_def Mutex_Add_def Mutex_GetIndex_def place_def
    fun_eq_iff split: option.splits)

section \<open>The copy-on-write manager\<close>

definition cow_inv :: "index_cow \<Rightarrow> bool" where
  "cow_inv im = distinct (map fst (cow_current im))"

definition cow_abs :: "index_cow \<Rightarrow> u64 \<rightharpoonup> string \<times> int" where
  "cow_abs im = map_option place \<circ> map_of (cow_current im)"

lemma map_of_copy_into_range: "map_of (copy_into src dst) = range_store src (map_of dst)"
proof (induction src arbitrary: dst)
  case (Cons x xs)
  then show ?case by (cases x) (simp add: copy_into_def update_conv' fun_upd_def)
qed (simp add: copy_into_def)

lemma distinct_copy_into: "distinct (map fst dst) \<Longrightarrow> distinct (map fst (copy_into src dst))"
proof (induction src arbitrary: dst)
  case (Cons x xs)
  then show ?case by (cases x) (simp add: copy_into_def distinct_update)
qed (simp add: copy_into_def)

lemma map_of_copy [simp]: "distinct (map fst src) \<Longrightarrow> map_of (copy_into src []) = map_of src"
  by (simp add: map_of_copy_into_range range_store_distinct)

lemmas cow_defs = COW_Add_def COW_AddBatch_def COW_GetIndex_def NewIndexManagerCOW_def
  cow_load_def cow_store_def cow_added_def cow_inv_def cow_abs_def Let_def

interpretation cow: index_batch_if NewIndexManagerCOW COW_Add COW_GetIndex cow_inv cow_abs COW_AddBatch
proof unfold_locales
  fix i l f o' assume inv: "cow_inv i"
  show "cow_inv (COW_Add l f o' i)" by (simp add: cow_defs distinct_update distinct_copy_into)
  show "cow_abs (COW_Add l f o' i) = (cow_abs i)(l \<mapsto> (f, o'))"
    using inv by (auto simp: cow_defs update_conv' place_def fun_eq_iff)
next
  fix i and es :: batch assume inv: "cow_inv i"
  show "cow_inv (COW_AddBatch es i)" by (simp add: cow_defs distinct_copy_into)
  assume "distinct (map fst es)"
  with inv show "cow_abs (COW_AddBatch es i) = cow_abs i ++ (map_option place \<circ> map_of es)"
    by (auto simp: cow_defs map_of_copy_into_range [of es] range_store_distinct map_add_def fun_eq_iff
        split: option.split)
next
  fix i l p assume "cow_abs i l = Some p"
  then show "\<exists>e. COW_GetIndex i l = Ok e \<and> place e = p"
    by (cases "map_of (cow_current i) l") (simp_all add: cow_defs)
next
  fix i l assume "cow_abs i l = None"
  then show "COW_GetIndex i l = Fail ErrIndexNotFound"
    by (cases "map_of (cow_current i) l") (simp_all add: cow_defs)
qed (simp_all add: cow_defs)

section \<open>The array manager\<close>

lemma sort_Search_spec:
  assumes "lo \<le> hi" and "\<And>i j. lo \<le> i \<Longrightarrow> i \<le> j \<Longrightarrow> j < hi \<Longrightarrow> f i \<Longrightarrow> f j"
  shows "lo \<le> sort_Search f lo hi \<and> sort_Search f lo hi \<le> hi \<and>
    (\<forall>i. lo \<le> i \<and> i < sort_Search f lo hi \<longrightarrow> \<not> f i) \<and>
    (\<forall>i. sort_Search f lo hi \<le> i \<and> i < hi \<longrightarrow> f i)"
  using assms
proof (induction f lo hi rule: sort_Search.induct)
  case (1 f lo hi)
  define h where "h = (lo + hi) div 2"
  note unf = sort_Search.simps [of f lo hi, folded h_def]
  show ?case
  proof (cases "lo < hi")
    case False
    then show ?thesis using 1(3) by (auto simp: sort_Search.simps [of f hi hi] unf)
  next
    case True
    then have h: "lo \<le> h" "h < hi" by (auto simp: h_def)
    show ?thesis
    proof (cases "f h")
      case False
      have IH: "h + 1 \<le> sort_Search f (h + 1) hi \<and> sort_Search f (h + 1) hi \<le> hi \<and>
          (\<forall>i. h + 1 \<le> i \<and> i < sort_Search f (h + 1) hi \<longrightarrow> \<not> f i) \<and>
          (\<forall>i. sort_Search f (h + 1) hi \<le> i \<and> i < hi \<longrightarrow> f i)"
      proof (rule "1.IH"(1) [OF True h_def False])
        fix i j assume "h + 1 \<le> i" "i \<le> j" "j < hi" "f i"
        then show "f j" using 1(4) [of i j] h by simp
      qed (use h in simp)
      have eq: "sort_Search f lo hi = sort_Search f (h + 1) hi" using True False by (simp add: unf Let_def)
      have "\<not> f i" if "lo \<le> i" "i \<le> h" for i using 1(4) [of i h] that h False by blast
      then have "\<not> f i" if "lo \<le> i" "i < sort_Search f (h + 1) hi" for i
        using that IH by (cases "i \<le> h") simp_all
      with IH h show ?thesis unfolding eq by simp
    next
      case fh: True
      have IH: "lo \<le> sort_Search f lo h \<and> sort_Search f lo h \<le> h \<and>
          (\<forall>i. lo \<le> i \<and> i < sort_Search f lo h \<longrightarrow> \<not> f i) \<and>
          (\<forall>i. sort_Search f lo h \<le> i \<and> i < h \<longrightarrow> f i)"
      proof (rule "1.IH"(2) [OF True h_def])
        fix i j assume "lo \<le> i" "i \<le> j" "j < h" "f i"
        then show "f j" using 1(4) [of i j] h by simp
      qed (use h fh in simp_all)
      have eq: "sort_Search f lo hi = sort_Search f lo h" using True fh by (simp add: unf Let_def)
      have "f i" if "h \<le> i" "i < hi" for i using 1(4) [of h i] that h fh by blast
      then have "f i" if "sort_Search f lo h \<le> i" "i < hi" for i
        using that IH by (cases "h \<le> i") simp_all
      with IH h show ?thesis unfolding eq by simp
    qed
  qed
qed

lemma binarySearchIndex_loop_eq:
  "binarySearchIndex_loop es lsn lo hi = sort_Search (\<lambda>i. lsn \<le> ie_LSN (es ! i)) lo hi"
  by (induction es lsn lo hi rule: binarySearchIndex_loop.induct)
    (subst binarySearchIndex_loop.simps, subst sort_Search.simps, simp add: Let_def not_le)

lemma insert_at_eq:
  assumes "idx \<le> length xs"
  shows "insert_at idx e xs = take idx xs @ e # drop idx xs"
proof -
  define g where "g = xs @ [entry_zero]"
  have "take (Suc idx) g = take idx xs @ [g ! idx]"
    using assms take_Suc_conv_app_nth [of idx g] by (simp add: g_def)
  moreover have "take (length g - Suc idx) (drop idx g) = drop idx xs"
    using assms by (simp add: g_def)
  moreover have "(take idx xs @ [g ! idx] @ drop idx xs)[idx := e] = take idx xs @ e # drop idx xs"
    using assms by (simp add: list_update_append)
  ultimately show ?thesis by (simp add: insert_at_def Let_def g_def [symmetric])
qed

definition array_inv :: "index_array \<Rightarrow> bool" where
  "array_inv im = sorted_wrt (\<lambda>a b. ie_LSN a < ie_LSN b) (ar_entries im)"

definition key_place :: "index_entry \<Rightarrow> u64 \<times> string \<times> int" where
  "key_place e = (ie_LSN e, place e)"

definition array_abs :: "index_array \<Rightarrow> u64 \<rightharpoonup> string \<times> int" where
  "array_abs im = map_of (map key_place (ar_entries im))"

lemma map_of_insert_middle:
  "k \<notin> fst ` set xs \<Longrightarrow> map_of (xs @ (k, v) # ys) = (map_of (xs @ ys))(k \<mapsto> v)"
  by (induction xs) auto

text \<open>The array split at a sequence number: smaller ones before, greater or equal ones behind.\<close>

lemma search_split:
  assumes sorted: "sorted_wrt (\<lambda>a b. ie_LSN a < ie_LSN b) es"
    and idx: "idx = sort_Search (\<lambda>i. lsn \<le> ie_LSN (es ! i)) 0 (length es)"
  shows "idx \<le> length es \<and> (\<forall>e\<in>set (take idx es). ie_LSN e < lsn) \<and>
    (\<forall>e\<in>set (drop idx es). lsn \<le> ie_LSN e)"
proof -
  have mono: "lsn \<le> ie_LSN (es ! j)" if "i \<le> j" "j < length es" "lsn \<le> ie_LSN (es ! i)" for i j
    using that sorted_wrt_nth_less [OF sorted, of i j]
    by (cases "i = j") (auto intro: order_trans less_imp_le)
  note spec = sort_Search_spec [of 0 "length es" "\<lambda>i. lsn \<le> ie_LSN (es ! i)", folded idx]
  have le: "idx \<le> length es" and before: "\<And>i. i < idx \<Longrightarrow> ie_LSN (es ! i) < lsn"
    and behind: "\<And>i. idx \<le> i \<Longrightarrow> i < length es \<Longrightarrow> lsn \<le> ie_LSN (es ! i)"
    using spec mono by (auto simp: not_le)
  have "ie_LSN e < lsn" if "e \<in> set (take idx es)" for e
    using that before by (auto simp: in_set_conv_nth)
  moreover have "lsn \<le> ie_LSN e" if "e \<in> set (drop idx es)" for e
    using that behind le by (auto simp: in_set_conv_nth)
  ultimately show ?thesis using le by blast
qed

lemma Array_Get_spec:
  assumes "array_inv im"
  shows "Array_GetIndex im lsn = (case find (\<lambda>e. ie_LSN e = lsn) (ar_entries im) of
    None \<Rightarrow> Fail ErrIndexNotFound | Some e \<Rightarrow> Ok e)"
proof -
  define es idx where "es = ar_entries im" and "idx = binarySearchIndex es lsn"
  have sorted: "sorted_wrt (\<lambda>a b. ie_LSN a < ie_LSN b) es"
    using assms by (simp add: array_inv_def es_def)
  have eq: "idx = sort_Search (\<lambda>i. lsn \<le> ie_LSN (es ! i)) 0 (length es)"
    by (simp only: idx_def binarySearchIndex_def binarySearchIndex_loop_eq)
  have sp: "idx \<le> length es" "\<forall>e\<in>set (take idx es). ie_LSN e < lsn"
      "\<forall>e\<in>set (drop idx es). lsn \<le> ie_LSN e"
    using search_split [OF sorted eq] by blast+
  have none: "find (\<lambda>e. ie_LSN e = lsn) (take idx es) = None"
    using sp(2) by (auto simp: find_None_iff)
  have split: "find P (xs @ ys) = (case find P xs of None \<Rightarrow> find P ys | Some e \<Rightarrow> Some e)"
    for P :: "index_entry \<Rightarrow> bool" and xs ys by (induction xs) auto
  have "find (\<lambda>e. ie_LSN e = lsn) es = find (\<lambda>e. ie_LSN e = lsn) (drop idx es)"
    using split [of _ "take idx es" "drop idx es"] none by simp
  also have "\<dots> = (if idx < length es \<and> ie_LSN (es ! idx) = lsn then Some (es ! idx) else None)"
  proof (cases "idx < length es")
    case True
    then have d: "drop idx es = es ! idx # drop (Suc idx) es" by (simp add: Cons_nth_drop_Suc)
    have "\<forall>e\<in>set (drop (Suc idx) es). ie_LSN (es ! idx) < ie_LSN e"
      using sorted_wrt_drop [OF sorted, of idx] d by simp
    moreover have "lsn \<le> ie_LSN (es ! idx)" using sp(3) d by simp
    ultimately have "find (\<lambda>e. ie_LSN e = lsn) (drop (Suc idx) es) = None" unfolding find_None_iff by fastforce
    then show ?thesis using True d by simp
  qed simp
  finally show ?thesis
    by (simp add: Array_GetIndex_def es_def [symmetric] idx_def [symmetric] Let_def)
qed

lemma key_place_keys: "fst ` set (map key_place es) = ie_LSN ` set es"
  by (force simp: key_place_def)

lemma key_place_entry:
  "key_place \<lparr>ie_LSN = l, ie_FileName = f, ie_Offset = o'\<rparr> = (l, f, o')"
  "ie_LSN e = l \<Longrightarrow> key_place (e\<lparr>ie_FileName := f, ie_Offset := o'\<rparr>) = (l, f, o')"
  by (simp_all add: key_place_def place_def)

text \<open>Writing entry \<open>e\<close> between a smaller and a greater part, with or without one it replaces.\<close>

lemma sorted_entries_middle:
  assumes "sorted_wrt (\<lambda>a b. ie_LSN a < ie_LSN b) (xs @ ys)"
    and "\<forall>x\<in>set xs. ie_LSN x < ie_LSN e" and "\<forall>y\<in>set ys. ie_LSN e < ie_LSN y"
  shows "sorted_wrt (\<lambda>a b. ie_LSN a < ie_LSN b) (xs @ e # ys)"
  using assms by (auto simp: sorted_wrt_append)

lemma key_place_middle:
  assumes "\<forall>x\<in>set xs. ie_LSN x < l" and "key_place e = (l, f, o')"
  shows "map_of (map key_place (xs @ e # ys)) = (map_of (map key_place (xs @ ys)))(l \<mapsto> (f, o'))"
proof -
  have "l \<notin> fst ` set (map key_place xs)" using assms(1) unfolding key_place_keys by auto
  from map_of_insert_middle [OF this, of "(f, o')" "map key_place ys"] assms(2)
  show ?thesis by (simp only: map_append list.map)
qed

lemma key_place_replace:
  assumes "\<forall>x\<in>set xs. ie_LSN x < l" and "key_place e = (l, f, o')" and "ie_LSN e' = l"
  shows "map_of (map key_place (xs @ e # ys)) = (map_of (map key_place (xs @ e' # ys)))(l \<mapsto> (f, o'))"
proof -
  have "key_place e' = (l, fst (place e'), snd (place e'))" using assms(3) by (simp add: key_place_def)
  with assms show ?thesis by (simp only: key_place_middle) simp
qed

lemma sorted_entries_last:
  assumes "sorted_wrt (\<lambda>a b. ie_LSN a < ie_LSN b) es" "x \<in> set es"
  shows "ie_LSN x \<le> ie_LSN (es ! (length es - 1))"
proof -
  obtain i where "i < length es" "x = es ! i" using assms(2) by (auto simp: in_set_conv_nth)
  then show ?thesis
    using sorted_wrt_nth_less [OF assms(1), of i "length es - 1"] by (cases "i = length es - 1") (auto intro: less_imp_le)
qed

lemma sorted_entries_drop:
  assumes "sorted_wrt (\<lambda>a b. ie_LSN a < ie_LSN b) es" "i < length es"
  shows "es = take i es @ es ! i # drop (Suc i) es \<and> (\<forall>y\<in>set (drop (Suc i) es). ie_LSN (es ! i) < ie_LSN y)"
proof -
  have "drop i es = es ! i # drop (Suc i) es" using assms(2) by (simp add: Cons_nth_drop_Suc)
  then show ?thesis using sorted_wrt_drop [OF assms(1), of i] by (metis append_take_drop_id sorted_wrt.simps(2))
qed

lemma Array_Add_shape:
  assumes inv: "array_inv im"
  shows "\<exists>xs ys e. ar_entries (Array_Add lsn f o' im) = xs @ e # ys \<and> key_place e = (lsn, f, o') \<and>
    (\<forall>x\<in>set xs. ie_LSN x < lsn) \<and> (\<forall>y\<in>set ys. lsn < ie_LSN y) \<and>
    (ar_entries im = xs @ ys \<or> (\<exists>e'. ie_LSN e' = lsn \<and> ar_entries im = xs @ e' # ys))"
proof -
  define es n where "es = ar_entries im" and "n = length es"
  define e where "e = \<lparr>ie_LSN = lsn, ie_FileName = f, ie_Offset = o'\<rparr>"
  have sorted: "sorted_wrt (\<lambda>a b. ie_LSN a < ie_LSN b) es" using inv by (simp add: array_inv_def es_def)
  note unf = Array_Add_def [of lsn f o' im, unfolded Let_def, folded es_def, folded n_def e_def]
  have ke: "key_place e = (lsn, f, o')" by (simp add: e_def key_place_entry)
  define idx where "idx = sort_Search (\<lambda>i. lsn \<le> ie_LSN (es ! i)) 0 n"
  have sp: "idx \<le> n" "\<forall>x\<in>set (take idx es). ie_LSN x < lsn" "\<forall>x\<in>set (drop idx es). lsn \<le> ie_LSN x"
    using search_split [OF sorted idx_def [unfolded n_def]] unfolding n_def by blast+
  note unf2 = unf [folded idx_def]
  consider "n = 0 \<or> ie_LSN (es ! (n - 1)) < lsn" | "\<not> (n = 0 \<or> ie_LSN (es ! (n - 1)) < lsn)" "idx < n" "ie_LSN (es ! idx) = lsn"
    | "\<not> (n = 0 \<or> ie_LSN (es ! (n - 1)) < lsn)" "\<not> (idx < n \<and> ie_LSN (es ! idx) = lsn)" by blast
  then show ?thesis
  proof cases
    case 1
    then have "\<forall>x\<in>set es. ie_LSN x < lsn" using sorted_entries_last [OF sorted] by (fastforce simp: n_def)
    with 1 ke show ?thesis
      by (intro exI [of _ es] exI [of _ "[] :: index_entry list"] exI [of _ e])
        (auto simp: unf es_def [symmetric])
  next
    case 2
    moreover have "es[idx := x] = take idx es @ x # drop (Suc idx) es" for x
      using 2 by (simp add: upd_conv_take_nth_drop n_def)
    ultimately show ?thesis
      using sp(2) key_place_entry(2) [of "es ! idx" lsn o' f] sorted_entries_drop [OF sorted, of idx]
      by (intro exI [of _ "take idx es"] exI [of _ "drop (Suc idx) es"] exI)
        (auto simp: unf2 es_def [symmetric] n_def [symmetric])
  next
    case 3
    have "lsn < ie_LSN y" if "y \<in> set (drop idx es)" for y
    proof -
      have i: "idx < n" using that sp(1) by (cases "idx < n") (simp_all add: n_def)
      then have d: "drop idx es = es ! idx # drop (Suc idx) es" by (simp add: Cons_nth_drop_Suc n_def)
      then have "lsn < ie_LSN (es ! idx)" using sp(3) 3(2) i by (simp add: order_less_le)
      then show ?thesis using that d sorted_entries_drop [OF sorted, of idx] i by (auto simp: n_def)
    qed
    then show ?thesis
      by (intro exI [of _ "take idx es"] exI [of _ "drop idx es"] exI [of _ e])
        (use sp(1,2) ke 3 in \<open>auto simp: unf2 es_def [symmetric] insert_at_eq n_def [symmetric]\<close>)
  qed
qed

lemma Array_Add_spec:
  assumes inv: "array_inv im"
  shows "array_inv (Array_Add lsn f o' im) \<and>
    array_abs (Array_Add lsn f o' im) = (array_abs im)(lsn \<mapsto> (f, o'))"
proof -
  obtain xs ys e where sh: "ar_entries (Array_Add lsn f o' im) = xs @ e # ys" "key_place e = (lsn, f, o')"
    "\<forall>x\<in>set xs. ie_LSN x < lsn" "\<forall>y\<in>set ys. lsn < ie_LSN y"
    "ar_entries im = xs @ ys \<or> (\<exists>e'. ie_LSN e' = lsn \<and> ar_entries im = xs @ e' # ys)"
    using Array_Add_shape [OF inv] by blast
  have "ie_LSN e = lsn" using sh(2) by (simp add: key_place_def)
  moreover have "sorted_wrt (\<lambda>a b. ie_LSN a < ie_LSN b) (xs @ ys)"
    using sh(5) inv by (auto simp: array_inv_def sorted_wrt_append)
  ultimately have "array_inv (Array_Add lsn f o' im)"
    using sorted_entries_middle [of xs ys e] sh(1,3,4) by (simp add: array_inv_def)
  moreover have "array_abs (Array_Add lsn f o' im) = (array_abs im)(lsn \<mapsto> (f, o'))"
    unfolding array_abs_def sh(1)
    using sh(5) key_place_middle [OF sh(3,2)] key_place_replace [OF sh(3,2)] by auto
  ultimately show ?thesis by simp
qed

lemma array_abs_find: "array_abs im l = map_option place (find (\<lambda>e. ie_LSN e = l) (ar_entries im))"
proof -
  have "map_of (map key_place es) l = map_option place (find (\<lambda>e. ie_LSN e = l) es)" for es
    by (induction es) (auto simp: key_place_def)
  then show ?thesis by (simp add: array_abs_def)
qed

interpretation ar: index_if NewIndexManagerArray Array_Add Array_GetIndex array_inv array_abs
proof unfold_locales
  fix i l p assume "array_inv i" "array_abs i l = Some p"
  then show "\<exists>e. Array_GetIndex i l = Ok e \<and> place e = p"
    by (auto simp: Array_Get_spec array_abs_find)
next
  fix i l assume "array_inv i" "array_abs i l = None"
  then show "Array_GetIndex i l = Fail ErrIndexNotFound"
    by (auto simp: Array_Get_spec array_abs_find)
qed (simp_all add: Array_Add_spec, simp_all add: NewIndexManagerArray_def array_inv_def array_abs_def)

section \<open>Properties\<close>

text \<open>
  C36. The three index managers agree: after the same additions in the same order, looking a
  sequence number up in the mutex manager, in the copy-on-write manager and in the sorted array
  finds the file and offset added last for it, and \<^verbatim>\<open>ErrNotFound\<close> when there was none; in
  particular the binary search of the array finds every entry \<^verbatim>\<open>Add\<close> inserted out of order.
\<close>

theorem index_managers_agree:
  "(case map_of (rev xs) l of
      None \<Rightarrow> Mutex_GetIndex (mx.add_all xs NewIndexManagerMutex) l = Fail ErrIndexNotFound \<and>
              COW_GetIndex (cow.add_all xs NewIndexManagerCOW) l = Fail ErrIndexNotFound \<and>
              Array_GetIndex (ar.add_all xs NewIndexManagerArray) l = Fail ErrIndexNotFound
    | Some p \<Rightarrow> (\<exists>e1 e2 e3. Mutex_GetIndex (mx.add_all xs NewIndexManagerMutex) l = Ok e1 \<and>
              COW_GetIndex (cow.add_all xs NewIndexManagerCOW) l = Ok e2 \<and>
              Array_GetIndex (ar.add_all xs NewIndexManagerArray) l = Ok e3 \<and>
              place e1 = p \<and> place e2 = p \<and> place e3 = p))"
proof (cases "map_of (rev xs) l")
  case None
  have "Mutex_GetIndex (mx.add_all xs NewIndexManagerMutex) l = Fail ErrIndexNotFound"
    by (rule mx.get_none) (simp_all add: mx.add_all_spec mx.new_abs None)
  moreover have "COW_GetIndex (cow.add_all xs NewIndexManagerCOW) l = Fail ErrIndexNotFound"
    by (rule cow.get_none) (simp_all add: cow.add_all_spec cow.new_inv cow.new_abs None)
  moreover have "Array_GetIndex (ar.add_all xs NewIndexManagerArray) l = Fail ErrIndexNotFound"
    by (rule ar.get_none) (simp_all add: ar.add_all_spec ar.new_inv ar.new_abs None)
  ultimately show ?thesis by (simp add: None)
next
  case (Some p)
  show ?thesis
    using mx.get_after_add_all [OF Some] cow.get_after_add_all [OF Some] ar.get_after_add_all [OF Some]
    by (auto simp: Some)
qed

text \<open>
  The batch operation of the sorted array breaks its lookup: it appends the entries as they
  come, and an entry that was just added may not be found, as entry 1 below.
\<close>

lemma Array_AddBatch_loses_entry:
  "Array_GetIndex (Array_AddBatch [\<lparr>ie_LSN = 1, ie_FileName = ''a'', ie_Offset = 0\<rparr>]
     (Array_Add 3 ''a'' 20 (Array_Add 2 ''a'' 10 NewIndexManagerArray))) 1 = Fail ErrIndexNotFound"
  by (simp add: NewIndexManagerArray_def Array_Add_def Array_AddBatch_def Array_GetIndex_def
      binarySearchIndex_def binarySearchIndex_loop.simps)

text \<open>
  The copy-on-write manager loses updates under concurrency: two additions of different
  sequence numbers whose loads both precede their stores leave only the second one, for every
  starting state without the first number.
\<close>

lemma COW_lost_update:
  assumes "cow_inv im" and "map_of (cow_load im) l1 = None" and "l1 \<noteq> l2"
  shows "let m1 = cow_added l1 f1 o1 (cow_load im); m2 = cow_added l2 f2 o2 (cow_load im);
             im' = cow_store m2 (cow_store m1 im)
         in COW_GetIndex im' l1 = Fail ErrIndexNotFound \<and>
            COW_GetIndex (COW_Add l2 f2 o2 (COW_Add l1 f1 o1 im)) l1 \<noteq> Fail ErrIndexNotFound"
  using assms by (simp add: cow_defs update_conv' distinct_update distinct_copy_into)

end
