(* ===== verification/Segment.thy ===== *)
theory Segment
  imports Fs Row Index "HOL-Library.Multiset"
begin

text \<open>
  \<^verbatim>\<open>internal/segment/segment.go\<close> and \<^verbatim>\<open>segment_manager.go\<close>: the files the log is written to and
  the manager that packs batches of rows into them, rotates to a new file when the current one
  is full and keeps the index. Sizes and offsets are \<^verbatim>\<open>int64\<close> in the code; a file would need
  \<open>2 ^ 63\<close> bytes to overflow them, they are \<^typ>\<open>int\<close> here. The write lock of the manager is a
  flag: locking a locked mutex blocks forever, since the only holder that keeps it across calls
  has returned. The goroutine \<^verbatim>\<open>go s.AddBatchIndex(entries)\<close> is an entry of \<open>m_pending\<close> until it
  runs.

  The abstract log is a list of named files with the rows they hold (\<open>slog\<close>); \<open>mgr_rel\<close> relates
  it to the manager and the file system, and \<open>idx_rel\<close> relates the index to it.
\<close>

section \<open>The segment file\<close>

record file_segment =
  fs_file :: os_file
  fs_path :: string
  fs_size :: int
  fs_maxSize :: int

definition digit :: "nat \<Rightarrow> char" where
  "digit d = char_of (48 + d)"

text \<open>\<^verbatim>\<open>strconv.FormatInt(id, 10)\<close> for the non-negative number of microseconds.\<close>

fun decimal :: "nat \<Rightarrow> string" where
  "decimal n = (if n < 10 then [digit n] else decimal (n div 10) @ [digit (n mod 10)])"

declare decimal.simps [simp del]

definition seg_name :: "nat \<Rightarrow> string" where
  "seg_name t = decimal t @ ''.bin''"

definition newFile :: "string \<Rightarrow> world \<Rightarrow> world \<times> os_file res" where
  "newFile path w = (case now_micro w of (w1, t) \<Rightarrow> OpenFile (path_join path (seg_name t)) w1)"

definition initFileSegment :: "string \<Rightarrow> world \<Rightarrow> world \<times> os_file res" where
  "initFileSegment path w =
     (case ReadDir path w of
        (w1, Ok names) \<Rightarrow>
          if names = [] then newFile path w1 else OpenFile (path_join path (last names)) w1
      | (w1, Fail e) \<Rightarrow> (w1, Fail e)
      | (w1, Panic) \<Rightarrow> (w1, Panic)
      | (w1, Hang) \<Rightarrow> (w1, Hang))"

definition NewFileSegment :: "string \<Rightarrow> int \<Rightarrow> world \<Rightarrow> world \<times> file_segment res" where
  "NewFileSegment path maxSize w =
     (case initFileSegment path w of
        (w1, Ok f) \<Rightarrow>
          (case file_Stat_Size f w1 of
             (w2, r) \<Rightarrow> (w2, then_res r (\<lambda>n.
                Ok \<lparr>fs_file = f, fs_path = path, fs_size = int n, fs_maxSize = maxSize\<rparr>)))
      | (w1, Fail e) \<Rightarrow> (w1, Fail e)
      | (w1, Panic) \<Rightarrow> (w1, Panic)
      | (w1, Hang) \<Rightarrow> (w1, Hang))"

text \<open>An error of the \<^verbatim>\<open>Close\<close> is only logged.\<close>

definition Rotate :: "file_segment \<Rightarrow> world \<Rightarrow> file_segment \<times> world \<times> unit res" where
  "Rotate f w =
     (case file_Close (fs_file f) w of
        (w1, file', _) \<Rightarrow>
          (let f1 = f\<lparr>fs_file := file'\<rparr> in
           case newFile (fs_path f) w1 of
             (w2, Ok file) \<Rightarrow> (f1\<lparr>fs_file := file, fs_size := 0\<rparr>, w2, Ok ())
           | (w2, Fail e) \<Rightarrow> (f1, w2, Fail e)
           | (w2, Panic) \<Rightarrow> (f1, w2, Panic)
           | (w2, Hang) \<Rightarrow> (f1, w2, Hang)))"

definition Segment_Write :: "byte list \<Rightarrow> file_segment \<Rightarrow> world \<Rightarrow> file_segment \<times> world \<times> unit res" where
  "Segment_Write data f w =
     (case file_Write data (fs_file f) w of
        (w1, file', n, Some e) \<Rightarrow> (f\<lparr>fs_file := file'\<rparr>, w1, Fail e)
      | (w1, file', n, None) \<Rightarrow>
          (let f1 = f\<lparr>fs_file := file'\<rparr> in
           case file_Sync file' w1 of
             (w2, Ok _) \<Rightarrow> (f1\<lparr>fs_size := fs_size f1 + int n\<rparr>, w2, Ok ())
           | (w2, Fail e) \<Rightarrow> (f1, w2, Fail e)
           | (w2, Panic) \<Rightarrow> (f1, w2, Panic)
           | (w2, Hang) \<Rightarrow> (f1, w2, Hang)))"

definition Segment_Close :: "file_segment \<Rightarrow> world \<Rightarrow> file_segment \<times> world \<times> unit res" where
  "Segment_Close f w = (case file_Close (fs_file f) w of (w1, file', r) \<Rightarrow> (f\<lparr>fs_file := file'\<rparr>, w1, r))"

definition Fits :: "int \<Rightarrow> file_segment \<Rightarrow> bool" where
  "Fits fileSize f \<longleftrightarrow> fileSize + fs_size f \<le> fs_maxSize f"

definition GetName :: "file_segment \<Rightarrow> string" where
  "GetName f = base_name (f_path (fs_file f))"

definition CurrentOffset :: "file_segment \<Rightarrow> int" where
  "CurrentOffset f = fs_size f"

definition Segment_Read :: "file_segment \<Rightarrow> world \<Rightarrow> file_segment \<times> world \<times> byte list res" where
  "Segment_Read f w = (case file_ReadAll (fs_file f) w of (w1, file', r) \<Rightarrow> (f\<lparr>fs_file := file'\<rparr>, w1, r))"

section \<open>The manager\<close>

record manager =
  m_locked :: bool
  m_curSeg :: file_segment
  m_im :: index_mutex
  m_pending :: "batch list"

definition NewSegmentManager :: "index_mutex \<Rightarrow> file_segment \<Rightarrow> manager" where
  "NewSegmentManager im seg = \<lparr>m_locked = False, m_curSeg = seg, m_im = im, m_pending = []\<rparr>"

definition Manager_GetIndex :: "u64 \<Rightarrow> manager \<Rightarrow> index_entry res" where
  "Manager_GetIndex lsn m = Mutex_GetIndex (m_im m) lsn"

definition AddBatchIndex :: "batch \<Rightarrow> manager \<Rightarrow> manager" where
  "AddBatchIndex entries m = m\<lparr>m_im := Mutex_AddBatch entries (m_im m)\<rparr>"

text \<open>A started goroutine \<open>go s.AddBatchIndex(entries)\<close> gets its turn.\<close>

definition run_pending :: "nat \<Rightarrow> manager \<Rightarrow> manager" where
  "run_pending i m =
     (if i < length (m_pending m)
      then AddBatchIndex (m_pending m ! i)
             (m\<lparr>m_pending := take i (m_pending m) @ drop (Suc i) (m_pending m)\<rparr>)
      else m)"

fun createBatch :: "row list \<Rightarrow> byte list list res" where
  "createBatch [] = Ok []"
| "createBatch (r # rows) =
     then_res (Marshal r) (\<lambda>b. then_res (createBatch rows) (\<lambda>bs. Ok (b # bs)))"

definition Manager_flatten :: "byte list list \<Rightarrow> byte list" where
  "Manager_flatten bs = fold (\<lambda>b buf. buf @ b) bs []"

text \<open>On an error the lock is kept: only the last line of the function unlocks.\<close>

definition writeInSeg :: "byte list \<Rightarrow> manager \<Rightarrow> world \<Rightarrow> manager \<times> world \<times> unit res" where
  "writeInSeg data m w =
     (if data = [] then (m, w, Ok ())
      else if m_locked m then (m, w, Hang)
      else (case Segment_Write data (m_curSeg m) w of
              (seg, w1, Ok _) \<Rightarrow> (m\<lparr>m_curSeg := seg, m_locked := False\<rparr>, w1, Ok ())
            | (seg, w1, r) \<Rightarrow> (m\<lparr>m_curSeg := seg, m_locked := True\<rparr>, w1, r)))"

text \<open>
  The loop that fills the Go map \<open>entries\<close>; reading \<open>batch[i]\<close> beyond the slice would panic.
\<close>

fun batch_entries :: "string \<Rightarrow> int \<Rightarrow> row list \<Rightarrow> byte list list \<Rightarrow> batch \<Rightarrow> batch res" where
  "batch_entries name offset [] bs entries = Ok entries"
| "batch_entries name offset (r # rows) [] entries = Panic"
| "batch_entries name offset (r # rows) (b # bs) entries =
     batch_entries name (offset + int (length b)) rows bs
       (AList.update (r_lsnID r) \<lparr>ie_LSN = 0, ie_FileName = name, ie_Offset = offset\<rparr> entries)"

definition writeBatch :: "byte list list \<Rightarrow> row list \<Rightarrow> manager \<Rightarrow> world \<Rightarrow> manager \<times> world \<times> unit res" where
  "writeBatch bs rows m w =
     (case batch_entries (GetName (m_curSeg m)) (CurrentOffset (m_curSeg m)) rows bs [] of
        Ok entries \<Rightarrow>
          (case writeInSeg (Manager_flatten bs) m w of
             (m1, w1, Ok _) \<Rightarrow> (m1\<lparr>m_pending := m_pending m1 @ [entries]\<rparr>, w1, Ok ())
           | (m1, w1, r) \<Rightarrow> (m1, w1, r))
      | Fail e \<Rightarrow> (m, w, Fail e)
      | Panic \<Rightarrow> (m, w, Panic)
      | Hang \<Rightarrow> (m, w, Hang))"

text \<open>\<^verbatim>\<open>s.m.Lock(); err = s.curSeg.Rotate(); ...; s.m.Unlock()\<close>, again without unlocking on an error.\<close>

definition rotateLocked :: "manager \<Rightarrow> world \<Rightarrow> manager \<times> world \<times> unit res" where
  "rotateLocked m w =
     (if m_locked m then (m, w, Hang)
      else (case Rotate (m_curSeg m) w of
              (seg, w1, Ok _) \<Rightarrow> (m\<lparr>m_curSeg := seg, m_locked := False\<rparr>, w1, Ok ())
            | (seg, w1, r) \<Rightarrow> (m\<lparr>m_curSeg := seg, m_locked := True\<rparr>, w1, r)))"

definition slice :: "nat \<Rightarrow> nat \<Rightarrow> 'a list \<Rightarrow> 'a list" where
  "slice a b xs = drop a (take b xs)"

text \<open>The loop \<^verbatim>\<open>for i, b := range batch\<close> and the write of the remainder behind it.\<close>

fun batch_loop ::
  "byte list list \<Rightarrow> nat \<Rightarrow> nat \<Rightarrow> int \<Rightarrow> byte list list \<Rightarrow> row list \<Rightarrow> manager \<Rightarrow> world \<Rightarrow>
   manager \<times> world \<times> unit res" where
  "batch_loop [] i start currentSize batch rows m w =
     writeBatch (drop start batch) (drop start rows) m w"
| "batch_loop (b # rest) i start currentSize batch rows m w =
     (let size = int (length b) in
      if \<not> Fits (currentSize + size) (m_curSeg m) then
        (case writeBatch (slice start i batch) (slice start i rows) m w of
           (m1, w1, Ok _) \<Rightarrow>
             (case rotateLocked m1 w1 of
                (m2, w2, Ok _) \<Rightarrow> batch_loop rest (Suc i) i size batch rows m2 w2
              | (m2, w2, r) \<Rightarrow> (m2, w2, r))
         | (m1, w1, r) \<Rightarrow> (m1, w1, r))
      else batch_loop rest (Suc i) start (currentSize + size) batch rows m w)"

definition processBatches :: "byte list list \<Rightarrow> row list \<Rightarrow> manager \<Rightarrow> world \<Rightarrow> manager \<times> world \<times> unit res" where
  "processBatches batch rows m w =
     (let batchSize = sum_list (map (\<lambda>b. int (length b) + 1) batch) in
      if Fits batchSize (m_curSeg m) then writeBatch batch rows m w
      else batch_loop batch 0 0 0 batch rows m w)"

definition Manager_Write :: "row list \<Rightarrow> manager \<Rightarrow> world \<Rightarrow> manager \<times> world \<times> unit res" where
  "Manager_Write rows m w =
     (case createBatch rows of
        Ok batch \<Rightarrow> processBatches batch rows m w
      | Fail e \<Rightarrow> (m, w, Fail e)
      | Panic \<Rightarrow> (m, w, Panic)
      | Hang \<Rightarrow> (m, w, Hang))"

definition readCurrSegment :: "manager \<Rightarrow> world \<Rightarrow> manager \<times> world \<times> byte list res" where
  "readCurrSegment m w =
     (if m_locked m then (m, w, Hang)
      else (case Segment_Read (m_curSeg m) w of (seg, w1, r) \<Rightarrow> (m\<lparr>m_curSeg := seg\<rparr>, w1, r)))"

definition readFile :: "string \<Rightarrow> manager \<Rightarrow> world \<Rightarrow> manager \<times> world \<times> byte list res" where
  "readFile name m w = (case ReadFile name w of (w1, r) \<Rightarrow> (m, w1, r))"

definition ReadSegment :: "string \<Rightarrow> manager \<Rightarrow> world \<Rightarrow> manager \<times> world \<times> byte list res" where
  "ReadSegment name m w =
     (if GetName (m_curSeg m) = name then readCurrSegment m w else readFile name m w)"

section \<open>File names\<close>

lemma of_char_digit: "d < 10 \<Longrightarrow> of_char (digit d) = (48 + d :: nat)"
  by (simp add: digit_def)

lemma digit_less: "a < b \<Longrightarrow> b < 10 \<Longrightarrow> digit a < digit b"
  by (simp add: less_char_def of_char_digit)

lemma digit_not_slash: "d < 10 \<Longrightarrow> digit d \<noteq> slash"
proof
  assume d: "d < 10" "digit d = slash"
  then have "of_char slash = (48 + d :: nat)" using of_char_digit by metis
  then show False by (simp add: slash_def)
qed

lemma decimal_no_slash: "slash \<notin> set (decimal n)"
proof (induction n rule: decimal.induct)
  case (1 n)
  then show ?case
    using digit_not_slash [of n] digit_not_slash [of "n mod 10"] by (subst decimal.simps) auto
qed

lemma seg_name_no_slash: "slash \<notin> set (seg_name t)"
  using decimal_no_slash by (auto simp: seg_name_def slash_def)

lemma ten_le_power: "10 ^ Suc k \<le> n \<Longrightarrow> 10 \<le> (n :: nat)"
  by (rule order_trans [OF self_le_power [of 10 "Suc k"]]) simp_all

lemma decimal_length: "10 ^ k \<le> n \<Longrightarrow> n < 10 ^ Suc k \<Longrightarrow> length (decimal n) = Suc k"
proof (induction k arbitrary: n)
  case 0
  then show ?case by (simp add: decimal.simps)
next
  case (Suc k)
  then have "\<not> n < 10" using ten_le_power [of k n] by simp
  with Suc show ?case by (simp add: decimal.simps [of n] less_eq_div_iff_mult_less_eq div_less_iff_less_mult mult.commute)
qed

lemma list_less_same_length: "xs < ys \<Longrightarrow> length xs = length ys \<Longrightarrow> xs @ us < ys @ (vs :: 'a::order list)"
  by (simp add: list_less_def lexord_sufI)

text \<open>Timestamps with the same number of digits are ordered as their names are.\<close>

lemma decimal_mono: "10 ^ k \<le> a \<Longrightarrow> a < b \<Longrightarrow> b < 10 ^ Suc k \<Longrightarrow> decimal a < decimal b"
proof (induction k arbitrary: a b)
  case 0
  then show ?case by (simp add: decimal.simps digit_less)
next
  case (Suc k)
  have big: "\<not> a < 10" "\<not> b < 10"
    using Suc.prems(1,2) ten_le_power [of k a] by simp_all
  have dv: "10 ^ k \<le> a div 10" "b div 10 < 10 ^ Suc k" "a div 10 \<le> b div 10"
    using Suc.prems by (simp_all add: less_eq_div_iff_mult_less_eq div_less_iff_less_mult mult.commute div_le_mono)
  show ?case
  proof (cases "a div 10 = b div 10")
    case True
    then have "a mod 10 < b mod 10" using Suc.prems(2) by (metis div_mult_mod_eq nat_add_left_cancel_less)
    then have "digit (a mod 10) < digit (b mod 10)" by (simp add: digit_less)
    with True big show ?thesis
      by (simp add: decimal.simps [of a] decimal.simps [of b] list_less_def lexord_append_leftI)
  next
    case False
    with dv have lt: "a div 10 < b div 10" by simp
    then have "length (decimal (a div 10)) = length (decimal (b div 10))"
      using decimal_length [of k "a div 10"] decimal_length [of k "b div 10"] dv by simp
    with Suc.IH [OF dv(1) lt dv(2)] big show ?thesis
      by (simp add: decimal.simps [of a] decimal.simps [of b] list_less_same_length)
  qed
qed

lemma seg_name_mono: "10 ^ 15 \<le> a \<Longrightarrow> a < b \<Longrightarrow> b < 10 ^ 16 \<Longrightarrow> seg_name a < seg_name b"
  using decimal_mono [of 15 a b] decimal_length [of 15 a] decimal_length [of 15 b]
  by (simp add: seg_name_def list_less_same_length)

section \<open>The abstract log\<close>

type_synonym slog = "(string \<times> row list) list"

definition all_rows :: "slog \<Rightarrow> row list" where
  "all_rows fs = concat (map snd fs)"

definition encs :: "row list \<Rightarrow> byte list" where
  "encs rs = concat (map enc rs)"

definition log_rel :: "string \<Rightarrow> world \<Rightarrow> slog \<Rightarrow> bool" where
  "log_rel d w fs \<longleftrightarrow> sort (dir_entries d w) = map fst fs \<and>
     list_all (\<lambda>(n, rs). content w (path_join d n) = encs rs \<and> list_all row_ok rs) fs"

definition next_times :: "nat \<Rightarrow> world \<Rightarrow> nat list" where
  "next_times k w = map (\<lambda>i. w_clock w (w_ticks w + i)) [0..<k]"

text \<open>
  The file names in the directory and the names that the clock gives to the next \<open>k\<close> files are
  strictly increasing.
\<close>

definition fresh_names :: "nat \<Rightarrow> string \<Rightarrow> world \<Rightarrow> bool" where
  "fresh_names k d w \<longleftrightarrow> sorted_wrt (<) (sort (dir_entries d w) @ map seg_name (next_times k w))"

definition mgr_rel :: "nat \<Rightarrow> string \<Rightarrow> manager \<Rightarrow> world \<Rightarrow> slog \<Rightarrow> bool" where
  "mgr_rel k d m w fs \<longleftrightarrow>
     \<not> m_locked m \<and> w_faults w = [] \<and> world_ok w \<and> d \<noteq> [] \<and> d \<in> set (w_dirs w) \<and> fs \<noteq> [] \<and>
     fs_path (m_curSeg m) = d \<and> f_open (fs_file (m_curSeg m)) \<and>
     f_path (fs_file (m_curSeg m)) = path_join d (fst (last fs)) \<and>
     fs_size (m_curSeg m) = int (length (encs (snd (last fs)))) \<and>
     fresh_names k d w \<and> log_rel d w fs"

lemma encs_simps [simp]: "encs [] = []" "encs (r # rs) = enc r @ encs rs" "encs (a @ b) = encs a @ encs b"
  by (simp_all add: encs_def)

lemma all_rows_simps [simp]:
  "all_rows [] = []" "all_rows ((n, rs) # fs) = rs @ all_rows fs" "all_rows (a @ b) = all_rows a @ all_rows b"
  by (simp_all add: all_rows_def)

lemma next_times_Suc:
  "next_times (Suc k) w = w_clock w (w_ticks w) # next_times k (w\<lparr>w_ticks := Suc (w_ticks w)\<rparr>)"
  by (simp add: next_times_def upt_conv_Cons map_Suc_upt [symmetric] del: upt_Suc map_Suc_upt)

text \<open>A clock that advances, in the years when a timestamp has 16 digits, gives fresh names.\<close>

lemma fresh_names_from_clock:
  assumes "sort (dir_entries d w) = map seg_name ts"
    and "sorted_wrt (<) (ts @ next_times k w)"
    and "list_all (\<lambda>t. 10 ^ 15 \<le> t \<and> t < 10 ^ 16) (ts @ next_times k w)"
  shows "fresh_names k d w"
proof -
  have "sorted_wrt (\<lambda>a b. seg_name a < seg_name b) (ts @ next_times k w)"
    by (rule sorted_wrt_mono_rel [OF _ assms(2)])
      (use assms(3) seg_name_mono in \<open>auto simp: list_all_iff\<close>)
  then show ?thesis by (simp only: fresh_names_def assms(1) map_append [symmetric] sorted_wrt_map)
qed

subsection \<open>Directories\<close>

lemma dir_entries_append [simp]:
  "map_of (w_files w) p \<noteq> None \<Longrightarrow> dir_entries d (append_file p bs w) = dir_entries d w"
proof -
  assume "map_of (w_files w) p \<noteq> None"
  then have "p \<in> fst ` set (w_files w)" by (simp add: map_of_eq_None_iff)
  then have "map fst (AList.update p v (w_files w)) = map fst (w_files w)" for v
    by (simp add: AList.update_keys)
  then show ?thesis by (simp add: dir_entries_def append_file_def)
qed

lemma dir_entries_has_file:
  assumes "world_ok w" and "n \<in> set (dir_entries d w)"
  shows "map_of (w_files w) (path_join d n) \<noteq> None \<and> slash \<notin> set n \<and> n \<noteq> []"
proof -
  obtain p where p: "p \<in> fst ` set (w_files w)" "dir_name p = d" "base_name p = n"
    using assms(2) by (auto simp: dir_entries_def)
  then have "slash \<in> set p" "n \<noteq> []" using assms(1) by (auto simp: world_ok_def list_all_iff)
  then have "path_join d n = p" using path_split p by auto
  then show ?thesis using p \<open>n \<noteq> []\<close> base_name_no_slash [of p] by (simp add: map_of_eq_None_iff)
qed

lemma file_in_dir_entries:
  "map_of (w_files w) (path_join d n) \<noteq> None \<Longrightarrow> slash \<notin> set n \<Longrightarrow> n \<in> set (dir_entries d w)"
proof -
  assume f: "map_of (w_files w) (path_join d n) \<noteq> None" and n: "slash \<notin> set n"
  have "path_join d n \<in> set (filter (\<lambda>p. dir_name p = d) (map fst (w_files w)))"
    using f n by (simp add: map_of_eq_None_iff dir_path_join)
  then have "base_name (path_join d n) \<in> set (dir_entries d w)"
    unfolding dir_entries_def by (metis image_eqI list.set_map)
  then show ?thesis by (simp add: base_path_join n)
qed

lemma dir_entries_new:
  assumes "n \<notin> set (dir_entries d w)" and "slash \<notin> set n"
  shows "dir_entries d (w\<lparr>w_files := AList.update (path_join d n) bs (w_files w)\<rparr>) = dir_entries d w @ [n]"
proof -
  have "path_join d n \<notin> fst ` set (w_files w)"
    using assms file_in_dir_entries [of w d n] by (auto simp: map_of_eq_None_iff)
  then show ?thesis
    using assms(2) by (simp add: dir_entries_def AList.update_keys base_path_join dir_path_join)
qed

lemma sort_snoc_greatest:
  "(\<And>x. x \<in> set xs \<Longrightarrow> x < (n :: 'a::linorder)) \<Longrightarrow> sort (xs @ [n]) = sort xs @ [n]"
  by (rule properties_for_sort) (auto simp: sorted_append less_imp_le)

lemma dir_entries_fields [simp]:
  "dir_entries d (w\<lparr>w_ticks := t\<rparr>) = dir_entries d w" "dir_entries d (w\<lparr>w_dirs := ds\<rparr>) = dir_entries d w"
  "dir_entries d (w\<lparr>w_faults := fl\<rparr>) = dir_entries d w"
  by (simp_all add: dir_entries_def)

subsection \<open>The current file\<close>

lemma log_rel_last:
  assumes "log_rel d w (fs @ [(n, rs)])" and "world_ok w"
  shows "n \<in> set (dir_entries d w)" "n \<notin> fst ` set fs" "map_of (w_files w) (path_join d n) \<noteq> None"
    "slash \<notin> set n" "content w (path_join d n) = encs rs" "n \<noteq> []"
proof -
  have names: "sort (dir_entries d w) = map fst fs @ [n]" using assms(1) by (simp add: log_rel_def)
  show n: "n \<in> set (dir_entries d w)"
    using arg_cong [OF names, of set] by simp
  have "distinct (sort (dir_entries d w))"
    using dir_entries_strict [OF assms(2)] strict_sorted_iff by blast
  then show "n \<notin> fst ` set fs" by (simp add: names del: distinct_sort)
  show "map_of (w_files w) (path_join d n) \<noteq> None" "slash \<notin> set n" "n \<noteq> []"
    using dir_entries_has_file [OF assms(2) n] by auto
  show "content w (path_join d n) = encs rs" using assms(1) by (simp add: log_rel_def)
qed

lemma log_rel_append:
  assumes "log_rel d w (fs @ [(n, rs)])" and "world_ok w" and "list_all row_ok new"
  shows "log_rel d (append_file (path_join d n) (encs new) w) (fs @ [(n, rs @ new)])"
proof -
  note last = log_rel_last [OF assms(1,2)]
  have "content (append_file (path_join d n) (encs new) w) (path_join d k) = content w (path_join d k)"
    if "(k, b) \<in> set fs" for k b
    using last(2) that by (intro content_append_other) (force simp: path_join_inj)
  with assms last show ?thesis by (fastforce simp: log_rel_def list_all_iff)
qed

lemma fresh_names_append [simp]:
  "map_of (w_files w) p \<noteq> None \<Longrightarrow> fresh_names k d (append_file p bs w) = fresh_names k d w"
  by (simp add: fresh_names_def next_times_def)

lemma enc_nonempty: "row_ok r \<Longrightarrow> enc r \<noteq> []"
  using enc_length [of r] by auto

lemma encs_empty: "list_all row_ok rs \<Longrightarrow> encs rs = [] \<longleftrightarrow> rs = []"
  by (cases rs) (auto simp: enc_nonempty)

lemma writeInSeg_ok:
  assumes rel: "mgr_rel k d m w (fs @ [(n, rs)])" and new: "list_all row_ok new"
  shows "\<exists>m' w'. writeInSeg (encs new) m w = (m', w', Ok ()) \<and> mgr_rel k d m' w' (fs @ [(n, rs @ new)]) \<and>
    m_im m' = m_im m \<and> m_pending m' = m_pending m \<and> fs_maxSize (m_curSeg m') = fs_maxSize (m_curSeg m)"
proof (cases "new = []")
  case True
  with rel show ?thesis by (simp add: writeInSeg_def)
next
  case False
  have fault: "w_faults (append_file p bs w) = []" for p bs using rel by (simp add: mgr_rel_def)
  note last = log_rel_last [of d w fs n rs]
  have lr: "log_rel d w (fs @ [(n, rs)])" "world_ok w" using rel by (simp_all add: mgr_rel_def)
  show ?thesis
    using rel False log_rel_append [OF lr new] last [OF lr] encs_empty [OF new]
    by (auto simp: writeInSeg_def Segment_Write_def file_Write_def file_Sync_def mgr_rel_def fault Let_def
        path_join_has_slash base_path_join)
qed

lemma newFile_ok:
  assumes R: "w_faults w = []" "world_ok w" "d \<noteq> []" "log_rel d w fs" "fresh_names (Suc k) d w"
  shows "\<exists>n w'. newFile d w = (w', Ok \<lparr>f_path = path_join d n, f_pos = 0, f_open = True\<rparr>) \<and>
    w_faults w' = [] \<and> world_ok w' \<and> d \<in> set (w_dirs w') \<and> fresh_names k d w' \<and>
    log_rel d w' (fs @ [(n, [])]) \<and> content w' (path_join d n) = []"
proof -
  define n where "n = seg_name (w_clock w (w_ticks w))"
  define w1 where "w1 = w\<lparr>w_ticks := Suc (w_ticks w)\<rparr>"
  define w2 where "w2 = w1\<lparr>w_dirs := List.insert d (w_dirs w1)\<rparr>"
  define w3 where "w3 = w2\<lparr>w_files := AList.update (path_join d n) (content w2 (path_join d n)) (w_files w2)\<rparr>"
  have slash: "slash \<notin> set n" by (simp add: n_def seg_name_no_slash)
  have sorted: "sorted_wrt (<) ((sort (dir_entries d w) @ [n]) @ map seg_name (next_times k w1))"
    using R(5) by (simp add: fresh_names_def next_times_Suc n_def w1_def)
  then have great: "x < n" if "x \<in> set (dir_entries d w)" for x
    using that by (simp add: sorted_wrt_append)
  then have notin: "n \<notin> set (dir_entries d w)" by blast
  have entries: "dir_entries d w3 = dir_entries d w @ [n]"
    using dir_entries_new [of n d w2] notin slash by (simp add: w3_def w2_def w1_def)
  have names: "sort (dir_entries d w3) = sort (dir_entries d w) @ [n]"
    unfolding entries by (rule sort_snoc_greatest) (rule great)
  have nofile: "map_of (w_files w) (path_join d n) = None"
    using notin file_in_dir_entries [of w d n] slash by blast
  have cont: "content w3 p = content w p" for p
    unfolding w3_def by (subst content_touch) (simp add: w2_def w1_def)
  have empty: "content w (path_join d n) = []" by (simp add: content_def nofile)
  have "newFile d w = (w3, Ok \<lparr>f_path = path_join d n, f_pos = 0, f_open = True\<rparr>)"
    using R by (simp add: newFile_def now_micro_def OpenFile_def os_MkdirAll_def os_OpenFile_def
        dir_path_join seg_name_no_slash n_def w3_def w2_def w1_def)
  moreover have "world_ok w3"
    using R(2) slash base_path_join [OF slash, of d]
    by (auto simp: world_ok_def w3_def w2_def w1_def AList.update_keys path_join_has_slash n_def seg_name_def)
  moreover have "fresh_names k d w3"
    using sorted unfolding fresh_names_def names by (simp add: next_times_def w3_def w2_def w1_def)
  moreover have "log_rel d w3 (fs @ [(n, [])])"
    using R(4) empty by (simp add: log_rel_def names cont)
  moreover have "w_faults w3 = []" "d \<in> set (w_dirs w3)" "content w3 (path_join d n) = []"
    using R(1) empty by (simp_all add: cont) (simp_all add: w3_def w2_def w1_def)
  ultimately show ?thesis by auto
qed

lemma rotateLocked_ok:
  assumes rel: "mgr_rel (Suc k) d m w fs"
  shows "\<exists>m' w' n. rotateLocked m w = (m', w', Ok ()) \<and> mgr_rel k d m' w' (fs @ [(n, [])]) \<and>
    m_im m' = m_im m \<and> m_pending m' = m_pending m \<and> fs_maxSize (m_curSeg m') = fs_maxSize (m_curSeg m)"
proof -
  have R: "w_faults w = []" "world_ok w" "d \<noteq> []" "log_rel d w fs" "fresh_names (Suc k) d w"
    using rel by (simp_all add: mgr_rel_def)
  obtain n w' where n: "newFile d w = (w', Ok \<lparr>f_path = path_join d n, f_pos = 0, f_open = True\<rparr>)"
    "w_faults w' = []" "world_ok w'" "d \<in> set (w_dirs w')" "fresh_names k d w'" "log_rel d w' (fs @ [(n, [])])"
    using newFile_ok [OF R] by blast
  let ?m = "m\<lparr>m_curSeg := (m_curSeg m)\<lparr>fs_file := \<lparr>f_path = path_join d n, f_pos = 0, f_open = True\<rparr>,
      fs_size := 0\<rparr>, m_locked := False\<rparr>"
  have "rotateLocked m w = (?m, w', Ok ())"
    using rel n(1) by (simp add: mgr_rel_def rotateLocked_def Rotate_def file_Close_def Let_def)
  moreover have "mgr_rel k d ?m w' (fs @ [(n, [])])" using rel n by (simp add: mgr_rel_def)
  ultimately show ?thesis by auto
qed

subsection \<open>The index\<close>

text \<open>
  \<open>points fs l (n, off)\<close>: offset \<open>off\<close> of file \<open>n\<close> is where a row with number \<open>l\<close> begins.
\<close>

definition points :: "slog \<Rightarrow> u64 \<Rightarrow> string \<times> int \<Rightarrow> bool" where
  "points fs l p \<longleftrightarrow> (\<exists>pre rs1 r rs2 post. fs = pre @ (fst p, rs1 @ r # rs2) # post \<and>
     r_lsnID r = l \<and> snd p = int (length (encs rs1)))"

text \<open>A place the index knows for a number, or will know once the goroutines have run.\<close>

definition entry_of :: "manager \<Rightarrow> u64 \<Rightarrow> string \<times> int \<Rightarrow> bool" where
  "entry_of m l p \<longleftrightarrow> mutex_abs (m_im m) l = Some p \<or>
     (\<exists>b\<in>set (m_pending m). map_option place (map_of b l) = Some p)"

definition idx_rel :: "manager \<Rightarrow> slog \<Rightarrow> bool" where
  "idx_rel m fs \<longleftrightarrow> (\<forall>b\<in>set (m_pending m). distinct (map fst b)) \<and>
     (\<forall>l p. entry_of m l p \<longrightarrow> points fs l p) \<and>
     (\<forall>r\<in>set (all_rows fs). \<exists>p. entry_of m (r_lsnID r) p)"

lemma points_append: "points (fs @ [(n, rs)]) l p \<Longrightarrow> points (fs @ [(n, rs @ new)]) l p"
proof -
  assume "points (fs @ [(n, rs)]) l p"
  then obtain pre rs1 r rs2 post where P: "fs @ [(n, rs)] = pre @ (fst p, rs1 @ r # rs2) # post"
    "r_lsnID r = l" "snd p = int (length (encs rs1))" by (auto simp: points_def)
  show ?thesis
  proof (cases post rule: rev_cases)
    case Nil
    then have "fs @ [(n, rs @ new)] = pre @ (fst p, rs1 @ r # (rs2 @ new)) # []" using P(1) by auto
    with P show ?thesis unfolding points_def by blast
  next
    case (snoc post' x)
    then have "fs = pre @ (fst p, rs1 @ r # rs2) # post'" using P(1) by simp
    then have "fs @ [(n, rs @ new)] = pre @ (fst p, rs1 @ r # rs2) # (post' @ [(n, rs @ new)])" by simp
    with P show ?thesis unfolding points_def by blast
  qed
qed

lemma points_rotate: "points fs l p \<Longrightarrow> points (fs @ [x]) l p"
  unfolding points_def by (metis append.assoc append_Cons)

lemma points_new:
  "points (fs @ [(n, rs @ rs1 @ r # rs2)]) (r_lsnID r) (n, int (length (encs rs)) + int (length (encs rs1)))"
  unfolding points_def by (intro exI [of _ fs] exI [of _ "rs @ rs1"] exI [of _ r] exI [of _ rs2] exI [of _ "[]"]) simp

text \<open>The entries of a batch whose records are given by the encoder.\<close>

fun ents :: "string \<Rightarrow> int \<Rightarrow> row list \<Rightarrow> batch \<Rightarrow> batch" where
  "ents n off [] acc = acc"
| "ents n off (r # rows) acc = ents n (off + int (length (enc r))) rows
     (AList.update (r_lsnID r) \<lparr>ie_LSN = 0, ie_FileName = n, ie_Offset = off\<rparr> acc)"

lemma batch_entries_ents: "batch_entries n off rows (map enc rows) acc = Ok (ents n off rows acc)"
  by (induction rows arbitrary: off acc) auto

lemma ents_distinct: "distinct (map fst acc) \<Longrightarrow> distinct (map fst (ents n off rows acc))"
  by (induction rows arbitrary: off acc) (auto simp: distinct_update)

lemma ents_dom: "map_of (ents n off rows acc) l = None \<longleftrightarrow> l \<notin> r_lsnID ` set rows \<and> map_of acc l = None"
  by (induction rows arbitrary: off acc) (auto simp: update_conv')

lemma ents_places:
  "map_of (ents n off rows acc) l = Some e \<Longrightarrow> map_of acc l = Some e \<or>
     (\<exists>rs1 r rs2. rows = rs1 @ r # rs2 \<and> r_lsnID r = l \<and> place e = (n, off + int (length (encs rs1))))"
proof (induction rows arbitrary: off acc)
  case (Cons r rows)
  let ?e = "\<lparr>ie_LSN = 0, ie_FileName = n, ie_Offset = off\<rparr>"
  consider "map_of acc l = Some e" | "l = r_lsnID r" "e = ?e" |
    rs1 r' rs2 where "rows = rs1 @ r' # rs2" "r_lsnID r' = l"
      "place e = (n, off + int (length (enc r)) + int (length (encs rs1)))"
    using Cons.IH Cons.prems by (force simp: update_conv' split: if_splits)
  then show ?case
  proof cases
    case 2
    then have "r # rows = [] @ r # rows \<and> r_lsnID r = l \<and> place e = (n, off + int (length (encs [])))"
      by (simp add: place_def)
    then show ?thesis by blast
  next
    case 3
    then have "r # rows = (r # rs1) @ r' # rs2 \<and> r_lsnID r' = l \<and>
        place e = (n, off + int (length (encs (r # rs1))))" by simp
    then show ?thesis by blast
  qed blast
qed simp

lemma idx_rel_append:
  assumes idx: "idx_rel m (fs @ [(n, rs)])"
    and m': "m_im m' = m_im m" "m_pending m' = m_pending m @ [ents n (int (length (encs rs))) new []]"
  shows "idx_rel m' (fs @ [(n, rs @ new)])"
proof -
  let ?es = "ents n (int (length (encs rs))) new []"
  have eo: "entry_of m' l p \<longleftrightarrow> entry_of m l p \<or> map_option place (map_of ?es l) = Some p" for l p
    by (auto simp: entry_of_def m')
  have new: "points (fs @ [(n, rs @ new)]) l p" if "map_option place (map_of ?es l) = Some p" for l p
    using that ents_places [of n _ new "[]" l] points_new by fastforce
  have old: "points (fs @ [(n, rs @ new)]) l p" if "entry_of m l p" for l p
    using that idx unfolding idx_rel_def by (intro points_append) blast
  have "\<exists>p. entry_of m' (r_lsnID r) p" if "r \<in> set (all_rows (fs @ [(n, rs @ new)]))" for r
  proof (cases "r \<in> set new")
    case True
    then have "map_of ?es (r_lsnID r) \<noteq> None" by (simp add: ents_dom)
    then obtain e where "map_option place (map_of ?es (r_lsnID r)) = Some (place e)" by auto
    then show ?thesis using eo by blast
  next
    case False
    with that have "r \<in> set (all_rows (fs @ [(n, rs)]))" by auto
    then show ?thesis using idx eo unfolding idx_rel_def by blast
  qed
  moreover have "distinct (map fst ?es)" by (simp add: ents_distinct)
  ultimately show ?thesis using idx new old unfolding idx_rel_def m'(2) eo by auto
qed

lemma idx_rel_rotate:
  assumes "idx_rel m fs" "m_im m' = m_im m" "m_pending m' = m_pending m"
  shows "idx_rel m' (fs @ [(n, [])])"
proof -
  have "entry_of m' = entry_of m" by (simp add: entry_of_def fun_eq_iff assms)
  then show ?thesis using assms(1) points_rotate unfolding idx_rel_def assms(3) by auto
qed

subsection \<open>Writing a batch\<close>

text \<open>No file exceeds the maximal size unless it holds a single row.\<close>

definition seg_bounded :: "int \<Rightarrow> slog \<Rightarrow> bool" where
  "seg_bounded mx fs = list_all (\<lambda>(n, rs). int (length (encs rs)) \<le> mx \<or> length rs \<le> 1) fs"

definition mgr_ok :: "nat \<Rightarrow> string \<Rightarrow> manager \<Rightarrow> world \<Rightarrow> slog \<Rightarrow> bool" where
  "mgr_ok k d m w fs \<longleftrightarrow> mgr_rel k d m w fs \<and> idx_rel m fs \<and> seg_bounded (fs_maxSize (m_curSeg m)) fs"

lemma flatten_concat: "Manager_flatten bs = concat bs"
proof -
  have "fold (\<lambda>b buf. buf @ b) bs acc = acc @ concat bs" for acc
    by (induction bs arbitrary: acc) auto
  then show ?thesis by (simp add: Manager_flatten_def)
qed

lemma writeBatch_ok:
  assumes ok: "mgr_ok k d m w (fs @ [(n, rs)])" and new: "list_all row_ok new"
    and fit: "new = [] \<or> int (length (encs (rs @ new))) \<le> fs_maxSize (m_curSeg m) \<or> rs = [] \<and> length new = 1"
  shows "\<exists>m' w'. writeBatch (map enc new) new m w = (m', w', Ok ()) \<and>
    mgr_ok k d m' w' (fs @ [(n, rs @ new)]) \<and> fs_maxSize (m_curSeg m') = fs_maxSize (m_curSeg m)"
proof -
  have rel: "mgr_rel k d m w (fs @ [(n, rs)])" and idx: "idx_rel m (fs @ [(n, rs)])"
    using ok by (simp_all add: mgr_ok_def)
  obtain m1 w1 where w1: "writeInSeg (encs new) m w = (m1, w1, Ok ())"
    "mgr_rel k d m1 w1 (fs @ [(n, rs @ new)])" "m_im m1 = m_im m" "m_pending m1 = m_pending m"
    "fs_maxSize (m_curSeg m1) = fs_maxSize (m_curSeg m)"
    using writeInSeg_ok [OF rel new] by blast
  have lr: "log_rel d w (fs @ [(n, rs)])" "world_ok w" using rel by (simp_all add: mgr_rel_def)
  have name: "GetName (m_curSeg m) = n" "CurrentOffset (m_curSeg m) = int (length (encs rs))"
    using rel log_rel_last(4) [OF lr] by (simp_all add: mgr_rel_def GetName_def CurrentOffset_def base_path_join)
  define m2 where "m2 = m1\<lparr>m_pending := m_pending m1 @ [ents n (int (length (encs rs))) new []]\<rparr>"
  have "writeBatch (map enc new) new m w = (m2, w1, Ok ())"
    using w1(1) by (simp add: writeBatch_def name batch_entries_ents flatten_concat encs_def m2_def)
  moreover have "mgr_rel k d m2 w1 (fs @ [(n, rs @ new)])" using w1(2) by (simp add: mgr_rel_def m2_def)
  moreover have "idx_rel m2 (fs @ [(n, rs @ new)])"
    using idx_rel_append [OF idx, of m2 new] w1(3,4) by (simp add: m2_def)
  moreover have "seg_bounded (fs_maxSize (m_curSeg m2)) (fs @ [(n, rs @ new)])"
    using ok fit w1(5) by (auto simp: mgr_ok_def seg_bounded_def m2_def)
  ultimately show ?thesis using w1(5) by (auto simp: mgr_ok_def m2_def)
qed

lemma rotateLocked_mgr_ok:
  assumes "mgr_ok (Suc k) d m w fs"
  shows "\<exists>m' w' n. rotateLocked m w = (m', w', Ok ()) \<and> mgr_ok k d m' w' (fs @ [(n, [])]) \<and>
    fs_maxSize (m_curSeg m') = fs_maxSize (m_curSeg m)"
proof -
  obtain m' w' n where "rotateLocked m w = (m', w', Ok ())" "mgr_rel k d m' w' (fs @ [(n, [])])"
    "m_im m' = m_im m" "m_pending m' = m_pending m" "fs_maxSize (m_curSeg m') = fs_maxSize (m_curSeg m)"
    using rotateLocked_ok assms(1) unfolding mgr_ok_def by blast
  moreover have "idx_rel m' (fs @ [(n, [])])"
    by (rule idx_rel_rotate [of m]) (use assms(1) calculation(3,4) in \<open>simp_all add: mgr_ok_def\<close>)
  ultimately show ?thesis using assms(1) by (auto simp: mgr_ok_def seg_bounded_def)
qed

lemma fresh_names_mono: "fresh_names (k + j) d w \<Longrightarrow> fresh_names k d w"
proof -
  assume "fresh_names (k + j) d w"
  moreover have "next_times (k + j) w = next_times k w @ map (\<lambda>i. w_clock w (w_ticks w + i)) [k..<k + j]"
    unfolding next_times_def by (simp only: upt_add_eq_append [OF le0] map_append)
  ultimately show ?thesis by (simp add: fresh_names_def sorted_wrt_append)
qed

lemma mgr_ok_mono: "mgr_ok (k + j) d m w fs \<Longrightarrow> mgr_ok k d m w fs"
  by (auto simp: mgr_ok_def mgr_rel_def intro: fresh_names_mono)

lemma mgr_size: "mgr_ok k d m w (fs @ [(n, rs)]) \<Longrightarrow> fs_size (m_curSeg m) = int (length (encs rs))"
  by (simp add: mgr_ok_def mgr_rel_def)

lemma batch_loop_ok:
  assumes "mgr_ok (k + length rest) d m w (fs @ [(n, rs)])"
    and "list_all row_ok (front @ pend @ rest)"
    and "pend = [] \<or> int (length (encs (rs @ pend))) \<le> fs_maxSize (m_curSeg m) \<or> rs = [] \<and> length pend = 1"
  shows "\<exists>m' w' fs'. batch_loop (map enc rest) (length (front @ pend)) (length front) (int (length (encs pend)))
      (map enc (front @ pend @ rest)) (front @ pend @ rest) m w = (m', w', Ok ()) \<and>
    mgr_ok k d m' w' fs' \<and> all_rows fs' = all_rows fs @ rs @ pend @ rest \<and>
    fs_maxSize (m_curSeg m') = fs_maxSize (m_curSeg m)"
  using assms
proof (induction rest arbitrary: m w fs n rs front pend)
  case Nil
  then obtain m' w' where "writeBatch (map enc pend) pend m w = (m', w', Ok ())"
    "mgr_ok k d m' w' (fs @ [(n, rs @ pend)])" "fs_maxSize (m_curSeg m') = fs_maxSize (m_curSeg m)"
    using writeBatch_ok [of k d m w fs n rs pend] by auto
  then show ?case by fastforce
next
  case (Cons r rest)
  let ?all = "front @ pend @ r # rest"
  note size = mgr_size [OF Cons.prems(1)]
  show ?case
  proof (cases "Fits (int (length (encs pend)) + int (length (enc r))) (m_curSeg m)")
    case True
    have ok: "mgr_ok (k + length rest) d m w (fs @ [(n, rs)])"
      using mgr_ok_mono [of "k + length rest" 1] Cons.prems(1) by simp
    show ?thesis
      using Cons.IH [OF ok, of front "pend @ [r]"] Cons.prems(2) True size by (simp add: Fits_def)
  next
    case False
    obtain m1 w1 where w1: "writeBatch (map enc pend) pend m w = (m1, w1, Ok ())"
      "mgr_ok (Suc (k + length rest)) d m1 w1 (fs @ [(n, rs @ pend)])"
      "fs_maxSize (m_curSeg m1) = fs_maxSize (m_curSeg m)"
      using writeBatch_ok [OF Cons.prems(1) _ Cons.prems(3)] Cons.prems(2) by auto
    obtain m2 w2 n2 where w2: "rotateLocked m1 w1 = (m2, w2, Ok ())"
      "mgr_ok (k + length rest) d m2 w2 ((fs @ [(n, rs @ pend)]) @ [(n2, [])])"
      "fs_maxSize (m_curSeg m2) = fs_maxSize (m_curSeg m1)"
      using rotateLocked_mgr_ok [OF w1(2)] by blast
    obtain m' w' fs' where fin: "batch_loop (map enc rest) (length ((front @ pend) @ [r])) (length (front @ pend))
        (int (length (encs [r]))) (map enc ((front @ pend) @ [r] @ rest)) ((front @ pend) @ [r] @ rest) m2 w2 = (m', w', Ok ())"
      "mgr_ok k d m' w' fs'" "all_rows fs' = all_rows (fs @ [(n, rs @ pend)]) @ [] @ [r] @ rest"
      "fs_maxSize (m_curSeg m') = fs_maxSize (m_curSeg m2)"
      using Cons.IH [OF w2(2), of "front @ pend" "[r]"] Cons.prems(2) by auto
    have "batch_loop (map enc (r # rest)) (length (front @ pend)) (length front) (int (length (encs pend)))
        (map enc ?all) ?all m w = (m', w', Ok ())"
      using False w1(1) w2(1) fin(1) by (simp add: slice_def Let_def)
    then show ?thesis using fin w1(3) w2(3) by auto
  qed
qed

lemma createBatch_ok: "list_all row_ok rows \<Longrightarrow> createBatch rows = Ok (map enc rows)"
  by (induction rows) (auto simp: row_ok_Marshal)

lemma batch_size_bound: "int (length (encs rows)) \<le> sum_list (map (\<lambda>b. int (length b) + 1) (map enc rows))"
  by (induction rows) auto

lemma Manager_Write_ok:
  assumes ok: "mgr_ok (k + length rows) d m w fs" and rows: "list_all row_ok rows"
  shows "\<exists>m' w' fs'. Manager_Write rows m w = (m', w', Ok ()) \<and> mgr_ok k d m' w' fs' \<and>
    all_rows fs' = all_rows fs @ rows \<and> fs_maxSize (m_curSeg m') = fs_maxSize (m_curSeg m)"
proof -
  obtain fs0 n rs where fs: "fs = fs0 @ [(n, rs)]"
    using ok by (cases fs rule: rev_cases) (auto simp: mgr_ok_def mgr_rel_def)
  note ok' = ok [unfolded fs]
  have W: "Manager_Write rows m w = processBatches (map enc rows) rows m w"
    by (simp add: Manager_Write_def createBatch_ok rows)
  show ?thesis
  proof (cases "Fits (sum_list (map (\<lambda>b. int (length b) + 1) (map enc rows))) (m_curSeg m)")
    case True
    then have "int (length (encs (rs @ rows))) \<le> fs_maxSize (m_curSeg m)"
      using batch_size_bound [of rows] mgr_size [OF ok'] by (simp add: Fits_def)
    then obtain m' w' where "writeBatch (map enc rows) rows m w = (m', w', Ok ())"
      "mgr_ok k d m' w' (fs0 @ [(n, rs @ rows)])" "fs_maxSize (m_curSeg m') = fs_maxSize (m_curSeg m)"
      using writeBatch_ok [OF mgr_ok_mono [OF ok'] rows] by auto
    moreover have "processBatches (map enc rows) rows m w = writeBatch (map enc rows) rows m w"
      using True by (simp only: processBatches_def Let_def if_True)
    ultimately show ?thesis by (auto simp: W fs)
  next
    case False
    then have "processBatches (map enc rows) rows m w = batch_loop (map enc rows) 0 0 0 (map enc rows) rows m w"
      by (simp only: processBatches_def Let_def if_False)
    then show ?thesis using batch_loop_ok [OF ok', of "[]" "[]"] rows by (auto simp: W fs)
  qed
qed

text \<open>The start of the manager on a directory that holds a log, or none yet.\<close>

lemma NewFileSegment_ok:
  assumes w: "w_faults w = []" "world_ok w" "d \<noteq> []" "log_rel d w fs" "fresh_names (Suc k) d w"
    and dir: "fs \<noteq> [] \<Longrightarrow> d \<in> set (w_dirs w)"
  shows "\<exists>seg w' fs'. NewFileSegment d mx w = (w', Ok seg) \<and> fs_maxSize seg = mx \<and>
    mgr_rel k d (NewSegmentManager im seg) w' fs' \<and> (fs' = fs \<or> fs = [] \<and> (\<exists>n. fs' = [(n, [])]))"
proof (cases fs rule: rev_cases)
  case (snoc fs0 x)
  obtain n rs where x: "x = (n, rs)" by (cases x)
  note lr = w(4) [unfolded snoc x]
  note last = log_rel_last [OF lr w(2)]
  have "sort (dir_entries d w) = map fst fs0 @ [n]" using lr by (simp add: log_rel_def)
  then have rd: "ReadDir d w = (w, Ok (map fst fs0 @ [n]))"
    using w(1) dir snoc by (simp add: ReadDir_def os_ReadDir_def)
  define w1 where "w1 = w\<lparr>w_dirs := List.insert d (w_dirs w),
    w_files := AList.update (path_join d n) (content w (path_join d n)) (w_files w)\<rparr>"
  let ?f = "\<lparr>f_path = path_join d n, f_pos = 0, f_open = True\<rparr>"
  have cont: "content w1 p = content w p" for p
    using content_touch [of "path_join d n" "w\<lparr>w_dirs := List.insert d (w_dirs w)\<rparr>" p] by (simp add: w1_def)
  have keys: "map fst (w_files w1) = map fst (w_files w)"
    using last(3) by (simp add: w1_def AList.update_keys map_of_eq_None_iff)
  then have ents: "dir_entries d w1 = dir_entries d w" by (simp add: dir_entries_def)
  have "NewFileSegment d mx w = (w1, Ok \<lparr>fs_file = ?f, fs_path = d, fs_size = int (length (encs rs)), fs_maxSize = mx\<rparr>)"
    using w(1,3) rd last(4,5) cont
    by (simp add: NewFileSegment_def initFileSegment_def OpenFile_def os_MkdirAll_def os_OpenFile_def
        dir_path_join file_Stat_Size_def w1_def)
  moreover have "fresh_names k d w1"
    using fresh_names_mono [of k 1] w(5) unfolding fresh_names_def ents
    by (simp add: w1_def next_times_def)
  moreover have "log_rel d w1 fs" using w(4) by (simp add: log_rel_def ents cont)
  moreover have "world_ok w1" using w(2) keys by (simp add: world_ok_def)
  ultimately show ?thesis using w snoc x dir by (simp add: mgr_rel_def NewSegmentManager_def w1_def)
next
  case Nil
  define w1 where "w1 = (if d \<in> set (w_dirs w) then w else w\<lparr>w_dirs := List.insert d (w_dirs w)\<rparr>)"
  have "sort (dir_entries d w) = []" using w(4) Nil by (simp add: log_rel_def)
  then have rd: "ReadDir d w = (w1, Ok [])"
    using w(1,3) by (auto simp: ReadDir_def os_ReadDir_def os_MkdirAll_def w1_def)
  have w1: "w_faults w1 = []" "world_ok w1" "log_rel d w1 []" "fresh_names (Suc k) d w1"
    using w Nil by (auto simp: w1_def world_ok_def log_rel_def fresh_names_def next_times_def)
  obtain n w' where "newFile d w1 = (w', Ok \<lparr>f_path = path_join d n, f_pos = 0, f_open = True\<rparr>)"
    "w_faults w' = []" "world_ok w'" "d \<in> set (w_dirs w')" "fresh_names k d w'" "log_rel d w' [(n, [])]"
    "content w' (path_join d n) = []"
    using newFile_ok [OF w1(1,2) w(3) w1(3,4)] by auto
  then show ?thesis using rd w(3) Nil
    by (simp add: NewFileSegment_def initFileSegment_def file_Stat_Size_def mgr_rel_def NewSegmentManager_def)
      (rule exI [of _ "[(n, [])]"], simp)
qed

section \<open>Goroutines and failures\<close>

lemma entry_of_run_pending:
  assumes i: "i < length (m_pending m)" and dist: "distinct (map fst (m_pending m ! i))"
  shows "entry_of (run_pending i m) l p \<Longrightarrow> entry_of m l p"
    "entry_of m l p \<Longrightarrow> \<exists>q. entry_of (run_pending i m) l q"
proof -
  let ?b = "m_pending m ! i" and ?rest = "take i (m_pending m) @ drop (Suc i) (m_pending m)"
  have pend: "set (m_pending m) = insert ?b (set ?rest)"
    using arg_cong [OF id_take_nth_drop [OF i], of set] by auto
  have run: "m_pending (run_pending i m) = ?rest"
    "mutex_abs (m_im (run_pending i m)) = mutex_abs (m_im m) ++ (map_option place \<circ> map_of ?b)"
    using i mx.batch_abs [OF TrueI dist] by (simp_all add: run_pending_def AddBatchIndex_def)
  show "entry_of (run_pending i m) l p \<Longrightarrow> entry_of m l p"
    unfolding entry_of_def run pend by (auto simp: map_add_def split: option.splits)
  assume "entry_of m l p"
  then have "entry_of (run_pending i m) l (case map_of ?b l of None \<Rightarrow> p | Some e \<Rightarrow> place e)"
    unfolding entry_of_def run pend by (auto simp: map_add_def split: option.splits)
  then show "\<exists>q. entry_of (run_pending i m) l q" by blast
qed

lemma idx_rel_run_pending:
  assumes "idx_rel m fs"
  shows "idx_rel (run_pending i m) fs"
proof (cases "i < length (m_pending m)")
  case True
  then have dist: "distinct (map fst (m_pending m ! i))" using assms by (simp add: idx_rel_def)
  have "set (m_pending (run_pending i m)) \<subseteq> set (m_pending m)"
    using True set_take_subset set_drop_subset by (fastforce simp: run_pending_def AddBatchIndex_def)
  moreover have "points fs l p" if "entry_of (run_pending i m) l p" for l p
    using entry_of_run_pending(1) [OF True dist that] assms unfolding idx_rel_def by blast
  moreover have "\<exists>p. entry_of (run_pending i m) (r_lsnID r) p" if "r \<in> set (all_rows fs)" for r
    using that assms entry_of_run_pending(2) [OF True dist] unfolding idx_rel_def by blast
  ultimately show ?thesis using assms unfolding idx_rel_def by blast
next
  case False
  with assms show ?thesis by (simp add: run_pending_def)
qed

lemma run_pending_mgr_ok: "mgr_ok k d m w fs \<Longrightarrow> mgr_ok k d (run_pending i m) w fs"
  using idx_rel_run_pending [of m fs i]
  by (simp add: mgr_ok_def mgr_rel_def run_pending_def AddBatchIndex_def)

lemma idx_rel_lookup:
  assumes "idx_rel m fs" and "m_pending m = []" and "r \<in> set (all_rows fs)"
  shows "\<exists>e. Manager_GetIndex (r_lsnID r) m = Ok e \<and> points fs (r_lsnID r) (place e)"
proof -
  obtain p where "entry_of m (r_lsnID r) p" "points fs (r_lsnID r) p"
    using assms unfolding idx_rel_def by blast
  then have "mutex_abs (m_im m) (r_lsnID r) = Some p" using assms(2) by (simp add: entry_of_def)
  with mx.get_some [OF TrueI this] \<open>points fs (r_lsnID r) p\<close> show ?thesis
    by (auto simp: Manager_GetIndex_def)
qed

lemma batch_entries_not_Fail: "batch_entries n off rows bs acc \<noteq> Fail e"
  by (induction n off rows bs acc rule: batch_entries.induct) auto

lemma writeInSeg_fail: "writeInSeg data m w = (m', w', Fail e) \<Longrightarrow> m_locked m'"
  by (auto simp: writeInSeg_def split: if_splits prod.splits res.splits)

lemma writeBatch_fail: "writeBatch bs rows m w = (m', w', Fail e) \<Longrightarrow> m_locked m'"
  using batch_entries_not_Fail
  by (auto simp: writeBatch_def split: res.splits prod.splits dest: writeInSeg_fail)

lemma rotateLocked_fail: "rotateLocked m w = (m', w', Fail e) \<Longrightarrow> m_locked m'"
  by (auto simp: rotateLocked_def split: if_splits prod.splits res.splits)

lemma batch_loop_fail: "batch_loop rest i start cur batch rows m w = (m', w', Fail e) \<Longrightarrow> m_locked m'"
proof (induction rest arbitrary: i start cur m w)
  case (Cons b rest)
  show ?case
  proof (cases "Fits (cur + int (length b)) (m_curSeg m)")
    case True
    with Cons show ?thesis by simp
  next
    case False
    with Cons.prems show ?thesis
      by (auto simp: Let_def split: prod.splits res.splits
          dest: writeBatch_fail rotateLocked_fail Cons.IH)
  qed
qed (auto dest: writeBatch_fail)

lemma writeBatch_locked:
  assumes "m_locked m" and "list_all row_ok new"
  shows "\<exists>m'. m_locked m' \<and>
    writeBatch (map enc new) new m w = (m', w, if new = [] then Ok () else Hang)"
  using assms encs_empty [OF assms(2)]
  by (simp add: writeBatch_def batch_entries_ents flatten_concat writeInSeg_def encs_def)

lemma batch_loop_locked:
  assumes "m_locked m" and "list_all row_ok (front @ pend @ rest)" and "pend @ rest \<noteq> []"
  shows "\<exists>m'. batch_loop (map enc rest) (length (front @ pend)) (length front) cur
      (map enc (front @ pend @ rest)) (front @ pend @ rest) m w = (m', w, Hang)"
  using assms
proof (induction rest arbitrary: m front pend cur)
  case Nil
  then show ?case using writeBatch_locked [of m pend w] by auto
next
  case (Cons r rest)
  show ?case
  proof (cases "Fits (cur + int (length (enc r))) (m_curSeg m)")
    case True
    then show ?thesis using Cons.IH [of m front "pend @ [r]" "cur + int (length (enc r))"] Cons.prems by simp
  next
    case False
    obtain m' where "m_locked m'" "writeBatch (map enc pend) pend m w = (m', w, if pend = [] then Ok () else Hang)"
      using writeBatch_locked [OF Cons.prems(1), of pend w] Cons.prems(2) by auto
    with False show ?thesis by (simp add: slice_def Let_def rotateLocked_def)
  qed
qed

lemma Manager_Write_locked:
  assumes "m_locked m" and "list_all row_ok rows" and "rows \<noteq> []"
  shows "\<exists>m'. Manager_Write rows m w = (m', w, Hang)"
  using writeBatch_locked [OF assms(1,2), of w] batch_loop_locked [of m "[]" "[]" rows 0 w] assms
  by (auto simp: Manager_Write_def createBatch_ok processBatches_def Let_def)

lemma Manager_Write_fail:
  assumes "list_all row_ok rows" and "Manager_Write rows m w = (m', w', Fail e)"
  shows "m_locked m'"
  using assms
  by (auto simp: Manager_Write_def createBatch_ok processBatches_def Let_def split: if_splits
      dest: writeBatch_fail batch_loop_fail)

text \<open>The bytes on disk, file after file.\<close>

lemma encs_all_rows: "concat (map (encs \<circ> snd) gs) = encs (all_rows gs)"
  by (induction gs) auto

lemma log_rel_bytes:
  assumes "log_rel d v gs"
  shows "concat (map (\<lambda>n. content v (path_join d n)) (sort (dir_entries d v))) = encs (all_rows gs)"
proof -
  have "map (\<lambda>n. content v (path_join d n)) (map fst gs) = map (encs \<circ> snd) gs"
    using assms by (auto simp: log_rel_def list_all_iff)
  moreover have "sort (dir_entries d v) = map fst gs" using assms by (simp add: log_rel_def)
  ultimately show ?thesis by (simp only: encs_all_rows)
qed

text \<open>What the index points at decodes to a row with the number that was asked for.\<close>

lemma points_decodes:
  assumes "log_rel d w fs" and "points fs l p"
  shows "\<exists>r. r_lsnID r = l \<and> r \<in> set (all_rows fs) \<and> 0 \<le> snd p \<and>
    Unmarshal (drop (nat (snd p)) (content w (path_join d (fst p)))) = Ok (r, length (enc r))"
proof -
  obtain pre rs1 r rs2 post where P: "fs = pre @ (fst p, rs1 @ r # rs2) # post"
    "r_lsnID r = l" "snd p = int (length (encs rs1))"
    using assms(2) by (auto simp: points_def)
  then have "content w (path_join d (fst p)) = encs rs1 @ enc r @ encs rs2" "row_ok r"
    using assms(1) by (simp_all add: log_rel_def)
  then show ?thesis using P by (intro exI [of _ r]) (simp add: Unmarshal_enc)
qed

lemma fold_run_pending_ok: "mgr_ok k d m w fs \<Longrightarrow> mgr_ok k d (fold run_pending sched m) w fs"
  by (induction sched arbitrary: m) (auto intro: run_pending_mgr_ok)

lemma pending_drained: "m_pending (fold run_pending (replicate (length (m_pending m)) 0) m) = []"
proof (induction "m_pending m" arbitrary: m)
  case (Cons b bs)
  then have "m_pending (run_pending 0 m) = bs" by (simp add: run_pending_def AddBatchIndex_def flip: Cons(2))
  with Cons(1) [of "run_pending 0 m"] show ?case
    using Cons(2) by (metis fold_simps(2) length_Cons replicate_Suc)
qed simp

text \<open>A manager started on an empty directory.\<close>

lemma fresh_manager_ok:
  assumes "w_faults w = []" "world_ok w" "d \<noteq> []" "dir_entries d w = []" "fresh_names (Suc k) d w"
  shows "\<exists>seg w' n. NewFileSegment d mx w = (w', Ok seg) \<and> fs_maxSize seg = mx \<and>
    mgr_ok k d (NewSegmentManager NewIndexManagerMutex seg) w' [(n, [])]"
proof -
  have "log_rel d w []" using assms(4) by (simp add: log_rel_def)
  then obtain seg w' fs' where "NewFileSegment d mx w = (w', Ok seg)" "fs_maxSize seg = mx"
    "mgr_rel k d (NewSegmentManager NewIndexManagerMutex seg) w' fs'" "fs' = [] \<or> (\<exists>n. fs' = [(n, [])])"
    using NewFileSegment_ok [OF assms(1-3) _ assms(5), of "[]" mx NewIndexManagerMutex] by auto
  moreover from this(3) have "fs' \<noteq> []" by (simp add: mgr_rel_def)
  moreover have "idx_rel (NewSegmentManager NewIndexManagerMutex seg) [(n, [])]" for n
    by (simp add: idx_rel_def entry_of_def NewSegmentManager_def mx.new_abs)
  ultimately show ?thesis by (auto simp: mgr_ok_def seg_bounded_def)
qed

definition demo_log_world :: world where
  "demo_log_world = \<lparr>w_dirs = [], w_files = [], w_faults = [], w_clock = (\<lambda>n. 10 ^ 15 + n), w_ticks = 0\<rparr>"

lemma demo_fresh_names: "fresh_names 4 d demo_log_world"
  by (rule fresh_names_from_clock [of _ _ "[]"])
    (simp_all add: demo_log_world_def dir_entries_def next_times_def upt_rec)

lemma demo_manager:
  "\<exists>seg w' n. NewFileSegment ''wal'' mx demo_log_world = (w', Ok seg) \<and> fs_maxSize seg = mx \<and>
    mgr_ok 3 ''wal'' (NewSegmentManager NewIndexManagerMutex seg) w' [(n, [])]"
proof (rule fresh_manager_ok)
  show "fresh_names (Suc 3) ''wal'' demo_log_world" using demo_fresh_names by simp
qed (simp_all add: demo_log_world_def world_ok_def dir_entries_def)

definition demo_rows :: "row list" where
  "demo_rows = [NewRow 1 SetMethodID [''k'', ''v''], NewRow 2 DelMethodID [''k'']]"

lemma demo_rows_ok: "list_all row_ok demo_rows"
  by (simp add: demo_rows_def row_ok_def NewRow_def)

section \<open>Properties\<close>

text \<open>
  C11. Writing a batch of rows to the log appends exactly these rows, in order: in a system whose
  calls succeed and whose clock gives increasing file names, \<^verbatim>\<open>Write\<close> returns without an error,
  the files of the directory, in the order of their names, hold the encodings of the old rows
  followed by those of the new ones, whatever rotations were needed, and the manager is again
  consistent with its files and its index.
\<close>

theorem log_write_appends:
  assumes "mgr_ok (k + length rows) d m w fs" and "list_all row_ok rows"
  shows "\<exists>m' w' fs'. Manager_Write rows m w = (m', w', Ok ()) \<and> mgr_ok k d m' w' fs' \<and>
    all_rows fs' = all_rows fs @ rows \<and>
    concat (map (\<lambda>n. content w' (path_join d n)) (sort (dir_entries d w'))) =
    concat (map (\<lambda>n. content w (path_join d n)) (sort (dir_entries d w))) @ concat (map enc rows)"
proof -
  obtain m' w' fs' where W: "Manager_Write rows m w = (m', w', Ok ())" "mgr_ok k d m' w' fs'"
    "all_rows fs' = all_rows fs @ rows"
    using Manager_Write_ok [OF assms] by blast
  have "log_rel d w fs" "log_rel d w' fs'" using assms(1) W(2) by (simp_all add: mgr_ok_def mgr_rel_def)
  then show ?thesis using W by (auto simp: log_rel_bytes encs_def)
qed

theorem log_write_appends_witness:
  "\<exists>seg w m' w' fs'. NewFileSegment ''wal'' 20 demo_log_world = (w, Ok seg) \<and>
     Manager_Write demo_rows (NewSegmentManager NewIndexManagerMutex seg) w = (m', w', Ok ()) \<and>
     all_rows fs' = demo_rows \<and> mgr_ok 1 ''wal'' m' w' fs'"
proof -
  obtain seg w n where s: "NewFileSegment ''wal'' 20 demo_log_world = (w, Ok seg)"
    "mgr_ok (1 + length demo_rows) ''wal'' (NewSegmentManager NewIndexManagerMutex seg) w [(n, [])]"
    using demo_manager [of 20] by (auto simp: demo_rows_def numeral_3_eq_3)
  from log_write_appends [OF s(2) demo_rows_ok] s(1) show ?thesis by auto
qed

text \<open>
  C12. The index leads to every row: after a write, in whatever order the goroutines that add the
  batches to the index run, once they are done each sequence number in the log, old or new, is
  found, and decoding the named file from the given offset yields a row with that number.
\<close>

theorem index_leads_to_rows:
  assumes "mgr_ok (k + length rows) d m w fs" and "list_all row_ok rows"
    and "Manager_Write rows m w = (m', w', res)"
    and "m_pending (fold run_pending sched m') = []"
    and "r \<in> set (all_rows fs @ rows)"
  shows "\<exists>e r'. Manager_GetIndex (r_lsnID r) (fold run_pending sched m') = Ok e \<and>
    r_lsnID r' = r_lsnID r \<and> r' \<in> set (all_rows fs @ rows) \<and>
    Unmarshal (drop (nat (ie_Offset e)) (content w' (path_join d (ie_FileName e)))) = Ok (r', length (enc r'))"
proof -
  obtain fs' where fs': "mgr_ok k d m' w' fs'" "all_rows fs' = all_rows fs @ rows"
    using Manager_Write_ok [OF assms(1,2)] assms(3) by auto
  then have "mgr_ok k d (fold run_pending sched m') w' fs'" by (simp add: fold_run_pending_ok)
  then have "idx_rel (fold run_pending sched m') fs'" "log_rel d w' fs'"
    by (simp_all add: mgr_ok_def mgr_rel_def)
  moreover from idx_rel_lookup [OF this(1) assms(4), of r] obtain e where
    "Manager_GetIndex (r_lsnID r) (fold run_pending sched m') = Ok e" "points fs' (r_lsnID r) (place e)"
    using assms(5) fs'(2) by auto
  ultimately show ?thesis
    using points_decodes [of d w' fs' "r_lsnID r" "place e"] fs'(2) by (auto simp: place_def)
qed

theorem index_leads_to_rows_witness:
  "\<exists>seg w m' w' e r'. NewFileSegment ''wal'' 20 demo_log_world = (w, Ok seg) \<and>
     Manager_Write demo_rows (NewSegmentManager NewIndexManagerMutex seg) w = (m', w', Ok ()) \<and>
     Manager_GetIndex 2 (fold run_pending (replicate (length (m_pending m')) 0) m') = Ok e \<and>
     r_lsnID r' = 2 \<and>
     Unmarshal (drop (nat (ie_Offset e)) (content w' (path_join ''wal'' (ie_FileName e)))) = Ok (r', length (enc r'))"
proof -
  obtain seg w n where s: "NewFileSegment ''wal'' 20 demo_log_world = (w, Ok seg)"
    "mgr_ok (1 + length demo_rows) ''wal'' (NewSegmentManager NewIndexManagerMutex seg) w [(n, [])]"
    using demo_manager [of 20] by (auto simp: demo_rows_def numeral_3_eq_3)
  obtain m' w' where W: "Manager_Write demo_rows (NewSegmentManager NewIndexManagerMutex seg) w = (m', w', Ok ())"
    using Manager_Write_ok [OF s(2) demo_rows_ok] by blast
  have "NewRow 2 DelMethodID [''k''] \<in> set (all_rows [(n, [])] @ demo_rows)" by (simp add: demo_rows_def)
  from index_leads_to_rows [OF s(2) demo_rows_ok W pending_drained this] s(1) W show ?thesis
    by (auto simp: NewRow_def)
qed

text \<open>
  C23. The size limit of the segments holds after every write: a file of the log is not longer than
  the maximal size, unless it consists of a single row, which then was larger than the limit
  itself.
\<close>

theorem segment_size_bound:
  assumes "mgr_ok (k + length rows) d m w fs" and "list_all row_ok rows"
    and "Manager_Write rows m w = (m', w', res)" and "n \<in> set (dir_entries d w')"
  shows "int (length (content w' (path_join d n))) \<le> fs_maxSize (m_curSeg m) \<or>
    (\<exists>rs. length rs \<le> 1 \<and> content w' (path_join d n) = concat (map enc rs))"
proof -
  obtain fs' where fs': "mgr_ok k d m' w' fs'" "fs_maxSize (m_curSeg m') = fs_maxSize (m_curSeg m)"
    using Manager_Write_ok [OF assms(1,2)] assms(3) by auto
  then have L: "log_rel d w' fs'" "seg_bounded (fs_maxSize (m_curSeg m)) fs'"
    by (auto simp: mgr_ok_def mgr_rel_def)
  have "n \<in> set (sort (dir_entries d w'))" using assms(4) by simp
  then have "n \<in> set (map fst fs')" using L(1) by (simp only: log_rel_def)
  then obtain rs where "(n, rs) \<in> set fs'" by auto
  then have "content w' (path_join d n) = encs rs"
    "int (length (encs rs)) \<le> fs_maxSize (m_curSeg m) \<or> length rs \<le> 1"
    using L by (fastforce simp: log_rel_def seg_bounded_def list_all_iff)+
  then show ?thesis by (auto simp: encs_def)
qed

theorem segment_size_bound_witness:
  "\<exists>seg w m' w' n. NewFileSegment ''wal'' 20 demo_log_world = (w, Ok seg) \<and>
     Manager_Write demo_rows (NewSegmentManager NewIndexManagerMutex seg) w = (m', w', Ok ()) \<and>
     n \<in> set (dir_entries ''wal'' w') \<and>
     (int (length (content w' (path_join ''wal'' n))) \<le> 20 \<or>
      (\<exists>rs. length rs \<le> 1 \<and> content w' (path_join ''wal'' n) = concat (map enc rs)))"
proof -
  obtain seg w n where s: "NewFileSegment ''wal'' 20 demo_log_world = (w, Ok seg)" "fs_maxSize seg = 20"
    "mgr_ok (1 + length demo_rows) ''wal'' (NewSegmentManager NewIndexManagerMutex seg) w [(n, [])]"
    using demo_manager [of 20] by (auto simp: demo_rows_def numeral_3_eq_3)
  obtain m' w' fs' where W: "Manager_Write demo_rows (NewSegmentManager NewIndexManagerMutex seg) w = (m', w', Ok ())"
    "mgr_ok 1 ''wal'' m' w' fs'"
    using Manager_Write_ok [OF s(3) demo_rows_ok] by blast
  obtain fs0 n0 rs0 where "fs' = fs0 @ [(n0, rs0)]"
    using W(2) by (cases fs' rule: rev_cases) (auto simp: mgr_ok_def mgr_rel_def)
  then have "n0 \<in> set (dir_entries ''wal'' w')"
    using W(2) log_rel_last(1) [of "''wal''" w' fs0 n0 rs0] by (simp add: mgr_ok_def mgr_rel_def)
  from segment_size_bound [OF s(3) demo_rows_ok W(1) this] this s(1,2) W(1) show ?thesis
    by (auto simp: NewSegmentManager_def)
qed

text \<open>
  A failed write wedges the log: when the operating system makes \<^verbatim>\<open>Write\<close> return an error,
  the mutex of the manager is still locked, and every later write of at least one row blocks
  forever, whatever the state of the disk then is.
\<close>

lemma failed_write_wedges_log:
  assumes "list_all row_ok rows" and "Manager_Write rows m w = (m', w', Fail e)"
    and "list_all row_ok rows2" and "rows2 \<noteq> []"
  shows "m_locked m' \<and> (\<exists>m2. Manager_Write rows2 m' w2 = (m2, w2, Hang))"
  using Manager_Write_fail [OF assms(1,2)] Manager_Write_locked [OF _ assms(3,4)] by blast

lemma Manager_Write_disk_full:
  assumes "mgr_rel k d m w fs" and "row_ok r"
    and "int (length (enc r)) + 1 + fs_size (m_curSeg m) \<le> fs_maxSize (m_curSeg m)"
  shows "\<exists>m' w'. Manager_Write [r] m (w\<lparr>w_faults := [Fault 0 (IOErr s)]\<rparr>) = (m', w', Fail (IOErr s))"
  using assms enc_nonempty [of r]
  by (simp add: mgr_rel_def Manager_Write_def row_ok_Marshal processBatches_def Fits_def Let_def writeBatch_def
      flatten_concat writeInSeg_def Segment_Write_def file_Write_def take_fault_def add.commute)

end
