(* ===== verification/Concurrency.thy ===== *)
theory Concurrency
  imports Laguna_Prelude Id_Generator
begin

text \<open>
  \<^verbatim>\<open>utils/concurrency\<close>: the semaphore, the lock helper and the two kinds of future. Channels are
  bounded FIFO buffers with a closed flag. An operation that cannot proceed in the given
  channel state returns \<open>Hang\<close>: it waits for another goroutine. A \<^verbatim>\<open>FutureRespWithErr\<close> is a
  struct passed by value whose channel and mutex are shared but whose \<^verbatim>\<open>err\<close> field is not; the
  step relation at the end keeps the producer's and the consumer's copy apart.
\<close>

section \<open>Channels\<close>

record 'a chan =
  buf :: "'a list"
  chan_cap :: nat
  closed :: bool

definition make_chan :: "nat \<Rightarrow> 'a chan" where
  "make_chan n = \<lparr>buf = [], chan_cap = n, closed = False\<rparr>"

definition chan_send :: "'a \<Rightarrow> 'a chan \<Rightarrow> 'a chan \<times> unit res" where
  "chan_send v c =
     (if closed c then (c, Panic)
      else if length (buf c) < chan_cap c then (c\<lparr>buf := buf c @ [v]\<rparr>, Ok ())
      else (c, Hang))"

text \<open>\<^verbatim>\<open>v, ok := <-ch\<close>: a closed and drained channel yields \<open>None\<close>.\<close>

definition chan_recv :: "'a chan \<Rightarrow> 'a chan \<times> 'a option res" where
  "chan_recv c =
     (case buf c of
        v # vs \<Rightarrow> (c\<lparr>buf := vs\<rparr>, Ok (Some v))
      | [] \<Rightarrow> if closed c then (c, Ok None) else (c, Hang))"

definition chan_close :: "'a chan \<Rightarrow> 'a chan \<times> unit res" where
  "chan_close c = (if closed c then (c, Panic) else (c\<lparr>closed := True\<rparr>, Ok ()))"

lemmas chan_defs = make_chan_def chan_send_def chan_recv_def chan_close_def

section \<open>Semaphore\<close>

type_synonym semaphore = "unit chan"

text \<open>\<^verbatim>\<open>make(chan struct{}, max)\<close> panics for a negative size.\<close>

definition NewSemaphore :: "int \<Rightarrow> semaphore res" where
  "NewSemaphore n = (if n < 0 then Panic else Ok (make_chan (nat n)))"

definition Acquire :: "semaphore \<Rightarrow> semaphore \<times> unit res" where
  "Acquire s = chan_send () s"

definition Release :: "semaphore \<Rightarrow> semaphore" where
  "Release s = (case chan_recv s of (s', Ok _) \<Rightarrow> s' | (s', _) \<Rightarrow> s)"

text \<open>
  \<^verbatim>\<open>AcquireWithDeadline\<close>: \<open>fired\<close> says whether the timer wins the select; with no room in the
  channel the timer is the only case that can.
\<close>

definition AcquireWithDeadline :: "bool \<Rightarrow> semaphore \<Rightarrow> semaphore \<times> bool" where
  "AcquireWithDeadline fired s =
     (case chan_send () s of
        (s', Ok _) \<Rightarrow> if fired then (s, False) else (s', True)
      | (s', _) \<Rightarrow> (s, False))"

definition held :: "semaphore \<Rightarrow> nat" where
  "held s = length (buf s)"

definition sem_inv :: "semaphore \<Rightarrow> bool" where
  "sem_inv s \<longleftrightarrow> held s \<le> chan_cap s \<and> \<not> closed s"

lemmas sem_defs = NewSemaphore_def Acquire_def Release_def AcquireWithDeadline_def held_def
  sem_inv_def

lemma sem_new: "0 \<le> n \<Longrightarrow> NewSemaphore n = Ok s \<Longrightarrow> sem_inv s \<and> held s = 0"
  by (auto simp: sem_defs chan_defs)

lemma sem_acquire:
  "sem_inv s \<Longrightarrow> AcquireWithDeadline fired s = (s', got) \<Longrightarrow>
   sem_inv s' \<and> chan_cap s' = chan_cap s \<and> held s' = held s + (if got then 1 else 0) \<and>
   (got \<longrightarrow> held s < chan_cap s)"
  by (auto simp: sem_defs chan_defs split: if_splits)

lemma sem_release:
  "sem_inv s \<Longrightarrow> sem_inv (Release s) \<and> chan_cap (Release s) = chan_cap s \<and>
   held (Release s) = held s - 1"
  by (auto simp: sem_defs chan_defs split: list.splits)

section \<open>The lock helper\<close>

text \<open>\<^verbatim>\<open>WithLock\<close>: nothing happens without a function or a mutex; a held mutex blocks.\<close>

definition WithLock :: "bool option \<Rightarrow> ('s \<Rightarrow> 's) option \<Rightarrow> 's \<Rightarrow> 's \<times> unit res" where
  "WithLock m fn s =
     (case (fn, m) of
        (Some f, Some locked) \<Rightarrow> if locked then (s, Hang) else (f s, Ok ())
      | _ \<Rightarrow> (s, Ok ()))"

section \<open>Futures\<close>

type_synonym 'a future = "'a chan"

definition NewFutureResp :: "'a future" where
  "NewFutureResp = make_chan 1"

definition FutureResp_Put :: "'a \<Rightarrow> 'a future \<Rightarrow> 'a future \<times> unit res" where
  "FutureResp_Put v f = chan_send v f"

definition FutureResp_Done :: "'a future \<Rightarrow> 'a future \<times> unit res" where
  "FutureResp_Done f = chan_close f"

text \<open>A receive from a closed channel yields the zero value of the type.\<close>

definition FutureResp_GetResponse :: "'a \<Rightarrow> 'a future \<Rightarrow> 'a future \<times> 'a res" where
  "FutureResp_GetResponse zero f =
     (case chan_recv f of
        (f', Ok (Some v)) \<Rightarrow> (f', Ok v)
      | (f', Ok None) \<Rightarrow> (f', Ok zero)
      | (f', _) \<Rightarrow> (f', Hang))"

text \<open>
  \<open>early\<close> is the error of the context at the first select, \<open>late\<close> its error should it be done
  while the call waits; when response and deadline are both ready the select may take either,
  and \<open>pick\<close> says which.
\<close>

definition FutureResp_GetResponseWithDeadline ::
  "goerr option \<Rightarrow> goerr option \<Rightarrow> bool \<Rightarrow> 'a \<Rightarrow> 'a future \<Rightarrow> 'a future \<times> 'a res" where
  "FutureResp_GetResponseWithDeadline early late pick zero f =
     (case early of
        Some e \<Rightarrow> (f, Fail e)
      | None \<Rightarrow>
          (case (FutureResp_GetResponse zero f, late) of
             ((f', Hang), Some e) \<Rightarrow> (f, Fail e)
           | ((f', r), Some e) \<Rightarrow> if pick then (f', r) else (f, Fail e)
           | ((f', r), None) \<Rightarrow> (f', r)))"

record 'a frwe =
  fr_chan :: "'a chan"
  fr_err :: "goerr option"

definition NewFutureRespWithErr :: "'a frwe" where
  "NewFutureRespWithErr = \<lparr>fr_chan = make_chan 1, fr_err = None\<rparr>"

definition FutureRespWithErr_Put :: "'a \<Rightarrow> goerr option \<Rightarrow> 'a frwe \<Rightarrow> 'a frwe \<times> unit res" where
  "FutureRespWithErr_Put v err f =
     (case err of
        Some e \<Rightarrow> (f\<lparr>fr_err := Some e\<rparr>, Ok ())
      | None \<Rightarrow> (case chan_send v (fr_chan f) of (c, r) \<Rightarrow> (f\<lparr>fr_chan := c\<rparr>, r)))"

definition FutureRespWithErr_Done :: "'a frwe \<Rightarrow> 'a frwe \<times> unit res" where
  "FutureRespWithErr_Done f =
     (case chan_close (fr_chan f) of (c, r) \<Rightarrow> (f\<lparr>fr_chan := c\<rparr>, r))"

text \<open>\<^verbatim>\<open>Next() (T, error, bool)\<close>: \<open>Ok (Some v)\<close> is a value, \<open>Ok None\<close> the end of the stream.\<close>

definition FutureRespWithErr_Next :: "'a frwe \<Rightarrow> 'a frwe \<times> 'a option res" where
  "FutureRespWithErr_Next f =
     (case fr_err f of
        Some e \<Rightarrow> (f, Fail e)
      | None \<Rightarrow> (case chan_recv (fr_chan f) of (c, r) \<Rightarrow> (f\<lparr>fr_chan := c\<rparr>, r)))"

definition FutureRespWithErr_GetResponse :: "'a \<Rightarrow> 'a frwe \<Rightarrow> 'a frwe \<times> 'a res" where
  "FutureRespWithErr_GetResponse zero f =
     (case FutureRespWithErr_Next f of
        (f', Fail e) \<Rightarrow> (f', Fail e)
      | (f', Ok (Some v)) \<Rightarrow> (f', Ok v)
      | (f', Ok None) \<Rightarrow> (f', Ok zero)
      | (f', _) \<Rightarrow> (f', Hang))"

lemmas future_defs = NewFutureResp_def FutureResp_Put_def FutureResp_Done_def
  FutureResp_GetResponse_def FutureResp_GetResponseWithDeadline_def NewFutureRespWithErr_def
  FutureRespWithErr_Put_def FutureRespWithErr_Done_def FutureRespWithErr_Next_def
  FutureRespWithErr_GetResponse_def

text \<open>A resolved future delivers its value to a waiting caller whose context is live.\<close>

lemma future_roundtrip:
  "FutureResp_Put v NewFutureResp = (f, Ok ()) \<Longrightarrow> FutureResp_Done f = (f', Ok ()) \<Longrightarrow>
   snd (FutureResp_GetResponseWithDeadline None None pick zero f') = Ok v"
  by (auto simp: future_defs chan_defs)

section \<open>A producer goroutine and its consumer\<close>

text \<open>
  The pattern of \<^verbatim>\<open>RestoreSystemStream\<close>, \<^verbatim>\<open>RestoreStream\<close> and \<^verbatim>\<open>ReadStream\<close>:
  \<^verbatim>\<open>resp := New...; go func() { defer resp.Done(); ...resp.Put(...)... }(); return resp\<close>.
  The goroutine works on the variable \<open>resp\<close>, the caller on the copy the return made of it; the
  channel is shared, the error field is not. \<open>script\<close> is what the goroutine has left to put.
\<close>

datatype 'a act = PutV 'a | PutE goerr

record 'a sstate =
  s_chan :: "'a chan"
  p_err :: "goerr option"
  c_err :: "goerr option"
  returned :: bool
  script :: "'a act list"
  got :: "'a list"
  outcome :: "goerr option option"

definition producer :: "'a sstate \<Rightarrow> 'a frwe" where
  "producer s = \<lparr>fr_chan = s_chan s, fr_err = p_err s\<rparr>"

definition consumer :: "'a sstate \<Rightarrow> 'a frwe" where
  "consumer s = \<lparr>fr_chan = s_chan s, fr_err = c_err s\<rparr>"

definition stream_script :: "'a list \<Rightarrow> goerr option \<Rightarrow> 'a act list" where
  "stream_script vs e = map PutV vs @ (case e of None \<Rightarrow> [] | Some x \<Rightarrow> [PutE x])"

definition stream_init :: "'a list \<Rightarrow> goerr option \<Rightarrow> 'a sstate" where
  "stream_init vs e =
     \<lparr>s_chan = fr_chan NewFutureRespWithErr, p_err = None, c_err = None, returned = False,
      script = stream_script vs e, got = [], outcome = None\<rparr>"

inductive sstep :: "'a sstate \<Rightarrow> 'a sstate \<Rightarrow> bool" where
  put_value: "script s = PutV v # r \<Longrightarrow>
     FutureRespWithErr_Put v None (producer s) = (f, Ok ()) \<Longrightarrow>
     sstep s (s\<lparr>s_chan := fr_chan f, script := r\<rparr>)"
| put_error: "script s = PutE e # r \<Longrightarrow>
     FutureRespWithErr_Put v (Some e) (producer s) = (f, Ok ()) \<Longrightarrow>
     sstep s (s\<lparr>p_err := fr_err f, script := r\<rparr>)"
| finish: "script s = [] \<Longrightarrow> FutureRespWithErr_Done (producer s) = (f, Ok ()) \<Longrightarrow>
     sstep s (s\<lparr>s_chan := fr_chan f\<rparr>)"
| return_copy: "\<not> returned s \<Longrightarrow> sstep s (s\<lparr>returned := True, c_err := p_err s\<rparr>)"
| next_value: "returned s \<Longrightarrow> outcome s = None \<Longrightarrow>
     FutureRespWithErr_Next (consumer s) = (f, Ok (Some v)) \<Longrightarrow>
     sstep s (s\<lparr>s_chan := fr_chan f, got := got s @ [v]\<rparr>)"
| next_end: "returned s \<Longrightarrow> outcome s = None \<Longrightarrow>
     FutureRespWithErr_Next (consumer s) = (f, Ok None) \<Longrightarrow>
     sstep s (s\<lparr>outcome := Some None\<rparr>)"
| next_error: "returned s \<Longrightarrow> outcome s = None \<Longrightarrow>
     FutureRespWithErr_Next (consumer s) = (f, Fail e) \<Longrightarrow>
     sstep s (s\<lparr>outcome := Some (Some e)\<rparr>)"

text \<open>What is left of the script, and what the fields know of it.\<close>

definition stream_inv :: "'a list \<Rightarrow> goerr option \<Rightarrow> 'a sstate \<Rightarrow> bool" where
  "stream_inv vs e s \<longleftrightarrow>
     (\<exists>ws. vs = got s @ buf (s_chan s) @ ws \<and>
        (script s = stream_script ws e \<and> p_err s = None \<or>
         script s = [] \<and> ws = [] \<and> p_err s = e)) \<and>
     chan_cap (s_chan s) = 1 \<and> length (buf (s_chan s)) \<le> 1 \<and>
     (closed (s_chan s) \<longrightarrow> script s = []) \<and>
     (\<not> returned s \<longrightarrow> got s = [] \<and> c_err s = None) \<and>
     (\<forall>x. c_err s = Some x \<longrightarrow> e = Some x \<and> got s = [] \<and> script s = []) \<and>
     (outcome s = Some None \<longrightarrow> script s = [] \<and> buf (s_chan s) = []) \<and>
     (\<forall>x. outcome s = Some (Some x) \<longrightarrow> c_err s = Some x)"

lemma stream_script_simps [simp]:
  "stream_script [] None = []" "stream_script [] (Some x) = [PutE x]"
  "stream_script (v # vs) e = PutV v # stream_script vs e"
  by (simp_all add: stream_script_def)

lemma stream_script_Nil [simp]: "stream_script ws e = [] \<longleftrightarrow> ws = [] \<and> e = None"
  by (cases ws; cases e) auto

lemma stream_script_PutV [simp]:
  "stream_script ws e = PutV v # r \<longleftrightarrow> (\<exists>us. ws = v # us \<and> r = stream_script us e)"
  by (cases ws; cases e) auto

lemma stream_script_PutE [simp]:
  "stream_script ws e = PutE x # r \<longleftrightarrow> ws = [] \<and> e = Some x \<and> r = []"
  by (cases ws; cases e) auto

lemma stream_script_sym [simp]:
  "PutV v # r = stream_script ws e \<longleftrightarrow> (\<exists>us. ws = v # us \<and> r = stream_script us e)"
  "PutE x # r = stream_script ws e \<longleftrightarrow> ws = [] \<and> e = Some x \<and> r = []"
  "[] = stream_script ws e \<longleftrightarrow> ws = [] \<and> e = None"
  by (metis stream_script_PutV, metis stream_script_PutE, metis stream_script_Nil)

lemma stream_inv_init: "stream_inv vs e (stream_init vs e)"
  by (auto simp: stream_inv_def stream_init_def NewFutureRespWithErr_def make_chan_def)

lemmas sstep_simps = producer_def consumer_def FutureRespWithErr_Put_def
  FutureRespWithErr_Done_def FutureRespWithErr_Next_def chan_defs

lemma sstep_inv: "sstep s t \<Longrightarrow> stream_inv vs e s \<Longrightarrow> stream_inv vs e t"
proof (induction rule: sstep.induct)
  case (put_value s v r f)
  then show ?case by (auto simp: stream_inv_def sstep_simps split: if_splits)
next
  case (put_error s x r v f)
  then show ?case by (auto simp: stream_inv_def sstep_simps)
next
  case (finish s f)
  then show ?case by (auto simp: stream_inv_def sstep_simps split: if_splits)
next
  case (return_copy s)
  then show ?case by (auto simp: stream_inv_def)
next
  case (next_value s f v)
  then show ?case
    by (auto simp: stream_inv_def sstep_simps split: list.splits option.splits if_splits)
next
  case (next_end s f)
  then show ?case
    by (auto simp: stream_inv_def sstep_simps split: list.splits option.splits if_splits)
next
  case (next_error s f x)
  then show ?case
    by (auto simp: stream_inv_def sstep_simps split: list.splits option.splits if_splits)
qed

lemma sstep_reach_inv: "sstep\<^sup>*\<^sup>* (stream_init vs e) s \<Longrightarrow> stream_inv vs e s"
  by (induction rule: rtranclp_induct) (auto intro: stream_inv_init sstep_inv)

text \<open>
  What the caller can observe of a stream: \<open>drain early vs e\<close> is the list of values and the
  error it sees when the goroutine puts \<open>vs\<close> and then the error \<open>e\<close>; \<open>early\<close> says that the
  goroutine got as far as the error before the copy was made.
\<close>

definition drain :: "bool \<Rightarrow> 'a list \<Rightarrow> goerr option \<Rightarrow> 'a list \<times> goerr option" where
  "drain early vs e = (if early \<and> e \<noteq> None \<and> length vs \<le> 1 then ([], e) else (vs, None))"

lemma sstep_put_then_next:
  assumes "returned s" "outcome s = None" "c_err s = None" "script s = PutV v # r"
    and "buf (s_chan s) = []" "chan_cap (s_chan s) = 1" "\<not> closed (s_chan s)"
  shows "sstep\<^sup>*\<^sup>* s (s\<lparr>script := r, got := got s @ [v]\<rparr>)"
proof -
  define t where "t = s\<lparr>s_chan := (s_chan s)\<lparr>buf := [v]\<rparr>, script := r\<rparr>"
  have "sstep s t"
    using assms unfolding t_def
    by (intro put_value [where f = "\<lparr>fr_chan = (s_chan s)\<lparr>buf := [v]\<rparr>, fr_err = p_err s\<rparr>",
          simplified]) (simp_all add: sstep_simps)
  moreover have "sstep t (t\<lparr>s_chan := (s_chan s)\<lparr>buf := []\<rparr>, got := got t @ [v]\<rparr>)"
    using assms unfolding t_def
    by (intro next_value [where f = "\<lparr>fr_chan = (s_chan s)\<lparr>buf := []\<rparr>, fr_err = None\<rparr>",
          simplified]) (simp_all add: sstep_simps)
  moreover have "t\<lparr>s_chan := (s_chan s)\<lparr>buf := []\<rparr>, got := got t @ [v]\<rparr> =
      s\<lparr>script := r, got := got s @ [v]\<rparr>"
    using assms(5) by (cases s; cases "s_chan s") (simp add: t_def)
  ultimately show ?thesis by auto
qed

lemma sstep_deliver_all:
  assumes "returned s" "outcome s = None" "c_err s = None"
    and "buf (s_chan s) = []" "chan_cap (s_chan s) = 1" "\<not> closed (s_chan s)"
    and "script s = stream_script ws e"
  shows "sstep\<^sup>*\<^sup>* s (s\<lparr>script := stream_script [] e, got := got s @ ws\<rparr>)"
  using assms
proof (induction ws arbitrary: s)
  case Nil
  then show ?case by (cases s) simp
next
  case (Cons w ws)
  have "sstep\<^sup>*\<^sup>* s (s\<lparr>script := stream_script ws e, got := got s @ [w]\<rparr>)"
    by (rule sstep_put_then_next) (use Cons.prems in auto)
  moreover have "sstep\<^sup>*\<^sup>* (s\<lparr>script := stream_script ws e, got := got s @ [w]\<rparr>)
      (s\<lparr>script := stream_script [] e, got := got s @ (w # ws)\<rparr>)"
    using Cons.IH [of "s\<lparr>script := stream_script ws e, got := got s @ [w]\<rparr>"] Cons.prems
    by simp
  ultimately show ?case by (rule rtranclp_trans)
qed

lemma sstep_end_of_stream:
  assumes "returned s" "outcome s = None" "c_err s = None"
    and "buf (s_chan s) = []" "\<not> closed (s_chan s)" and "script s = stream_script [] e"
  shows "\<exists>t. sstep\<^sup>*\<^sup>* s t \<and> got t = got s \<and> outcome t = Some None"
proof -
  have "\<exists>u. sstep\<^sup>*\<^sup>* s u \<and> u = s\<lparr>script := [], p_err := p_err u\<rparr>"
  proof (cases e)
    case None
    with assms(6) show ?thesis by (intro exI [of _ s]) (cases s, simp)
  next
    case (Some x)
    have "sstep s (s\<lparr>p_err := Some x, script := []\<rparr>)"
      using assms(6) Some
      by (intro put_error [where f = "\<lparr>fr_chan = s_chan s, fr_err = Some x\<rparr>", simplified])
        (simp_all add: sstep_simps)
    then show ?thesis by (intro exI [of _ "s\<lparr>p_err := Some x, script := []\<rparr>"]) auto
  qed
  then obtain u where su: "sstep\<^sup>*\<^sup>* s u" and u: "u = s\<lparr>script := [], p_err := p_err u\<rparr>" by blast
  have uf: "script u = []" "returned u" "outcome u = None" "c_err u = None" "got u = got s"
    "s_chan u = s_chan s" by (subst u, simp add: assms)+
  define w where "w = u\<lparr>s_chan := (s_chan u)\<lparr>closed := True\<rparr>\<rparr>"
  have "sstep u w" unfolding w_def
    using uf assms(5)
    by (intro finish [where f = "\<lparr>fr_chan = (s_chan u)\<lparr>closed := True\<rparr>, fr_err = p_err u\<rparr>",
          simplified]) (simp_all add: sstep_simps)
  moreover have "sstep w (w\<lparr>outcome := Some None\<rparr>)"
    using uf assms(4)
    by (intro next_end [where f = "\<lparr>fr_chan = s_chan w, fr_err = None\<rparr>"])
      (simp_all add: sstep_simps w_def)
  ultimately have "sstep\<^sup>*\<^sup>* s (w\<lparr>outcome := Some None\<rparr>)" using su by auto
  then show ?thesis using uf by (intro exI [of _ "w\<lparr>outcome := Some None\<rparr>"]) (simp add: w_def)
qed

lemma stream_full_run:
  "\<exists>s. sstep\<^sup>*\<^sup>* (stream_init vs e) s \<and> got s = vs \<and> outcome s = Some None"
proof -
  let ?i = "stream_init vs e"
  define s0 where "s0 = ?i\<lparr>returned := True, c_err := p_err ?i\<rparr>"
  have f0: "returned s0" "outcome s0 = None" "c_err s0 = None" "buf (s_chan s0) = []"
    "chan_cap (s_chan s0) = 1" "\<not> closed (s_chan s0)" "script s0 = stream_script vs e"
    "got s0 = []"
    by (simp_all add: s0_def stream_init_def NewFutureRespWithErr_def make_chan_def)
  have "sstep ?i s0" unfolding s0_def by (rule return_copy) (simp add: stream_init_def)
  define s1 where "s1 = s0\<lparr>script := stream_script [] e, got := got s0 @ vs\<rparr>"
  have "sstep\<^sup>*\<^sup>* s0 s1" unfolding s1_def by (rule sstep_deliver_all) (use f0 in simp_all)
  obtain t where "sstep\<^sup>*\<^sup>* s1 t" "got t = got s1" "outcome t = Some None"
    using sstep_end_of_stream [of s1 e] f0 by (auto simp: s1_def)
  then show ?thesis
    using \<open>sstep ?i s0\<close> \<open>sstep\<^sup>*\<^sup>* s0 s1\<close> f0(8)
    by (intro exI [of _ t]) (auto simp: s1_def intro: converse_rtranclp_into_rtranclp rtranclp_trans)
qed

text \<open>With at most one value the goroutine can reach its error before the copy is made.\<close>

lemma stream_early_run:
  assumes "length vs \<le> 1"
  shows "\<exists>s. sstep\<^sup>*\<^sup>* (stream_init vs (Some x)) s \<and> got s = [] \<and> outcome s = Some (Some x)"
proof -
  let ?i = "stream_init vs (Some x)"
  define c where "c = \<lparr>buf = vs, chan_cap = 1, closed = False\<rparr>"
  define s1 where "s1 = ?i\<lparr>s_chan := c, script := [PutE x]\<rparr>"
  have "sstep\<^sup>*\<^sup>* ?i s1"
  proof (cases vs)
    case Nil
    then show ?thesis by (simp add: s1_def c_def stream_init_def NewFutureRespWithErr_def make_chan_def)
  next
    case (Cons v ws)
    then have "vs = [v]" using assms by simp
    then have "sstep ?i s1" unfolding s1_def
      by (intro put_value [where f = "\<lparr>fr_chan = c, fr_err = None\<rparr>", simplified])
        (simp_all add: sstep_simps c_def stream_init_def NewFutureRespWithErr_def)
    then show ?thesis by blast
  qed
  also have "sstep s1 (s1\<lparr>p_err := Some x, script := []\<rparr>)"
    by (intro put_error [where f = "\<lparr>fr_chan = c, fr_err = Some x\<rparr>", simplified])
      (simp_all add: sstep_simps s1_def)
  also have "sstep \<dots> (s1\<lparr>p_err := Some x, script := [], returned := True, c_err := Some x\<rparr>)"
    using return_copy [of "s1\<lparr>p_err := Some x, script := []\<rparr>"] by (simp add: s1_def stream_init_def)
  also have "sstep \<dots> (s1\<lparr>p_err := Some x, script := [], returned := True, c_err := Some x, outcome := Some (Some x)\<rparr>)"
    using next_error [of "s1\<lparr>p_err := Some x, script := [], returned := True, c_err := Some x\<rparr>" "\<lparr>fr_chan = c, fr_err = Some x\<rparr>" x]
    by (simp add: sstep_simps s1_def stream_init_def)
  finally show ?thesis by (intro exI conjI) (assumption, simp_all add: s1_def stream_init_def)
qed

text \<open>What a complete run can end with.\<close>

lemma stream_run_outcome:
  assumes "sstep\<^sup>*\<^sup>* (stream_init vs e) s" and "outcome s = Some r"
  shows "\<exists>early. (got s, r) = drain early vs e"
proof -
  have inv: "stream_inv vs e s" using assms(1) by (rule sstep_reach_inv)
  show ?thesis
  proof (cases r)
    case None
    then have "got s = vs" using inv assms(2) by (auto simp: stream_inv_def)
    then show ?thesis using None by (intro exI [of _ False]) (simp add: drain_def)
  next
    case (Some x)
    then have "c_err s = Some x" using inv assms(2) by (simp add: stream_inv_def)
    then have "e = Some x" "got s = []" "script s = []" using inv by (auto simp: stream_inv_def)
    moreover have "length vs \<le> 1" using inv calculation by (auto simp: stream_inv_def)
    ultimately show ?thesis using Some by (intro exI [of _ True]) (simp add: drain_def)
  qed
qed

section \<open>Properties\<close>

text \<open>A sequence of acquisitions, each with whether its deadline fires, and releases.\<close>

fun sem_run :: "bool option list \<Rightarrow> semaphore \<Rightarrow> semaphore" where
  "sem_run [] s = s"
| "sem_run (Some fired # ops) s = sem_run ops (fst (AcquireWithDeadline fired s))"
| "sem_run (None # ops) s = sem_run ops (Release s)"

lemma sem_run_inv: "sem_inv s \<Longrightarrow> sem_inv (sem_run ops s) \<and> chan_cap (sem_run ops s) = chan_cap s"
proof (induction ops s rule: sem_run.induct)
  case (2 fired ops s)
  obtain s' g where "AcquireWithDeadline fired s = (s', g)" by (cases "AcquireWithDeadline fired s")
  with 2 sem_acquire [OF 2(2) this] show ?case by simp
next
  case (3 ops s)
  then show ?case using sem_release [of s] by simp
qed simp

text \<open>
  The semaphore never admits more holders than its capacity, whatever the sequence of
  acquisitions with a deadline and releases, and a successful acquisition adds exactly one.
\<close>

lemma semaphore_bound:
  assumes "NewSemaphore n = Ok s"
  shows "int (held (sem_run ops s)) \<le> n \<and>
    (snd (AcquireWithDeadline fired (sem_run ops s)) \<longleftrightarrow>
       \<not> fired \<and> int (held (sem_run ops s)) < n)"
proof -
  have s: "sem_inv s" "0 \<le> n" "chan_cap s = nat n"
    using assms by (auto simp: sem_defs chan_defs split: if_splits)
  then have "sem_inv (sem_run ops s)" "chan_cap (sem_run ops s) = nat n"
    using sem_run_inv [of s ops] by auto
  then show ?thesis using s(2) by (auto simp: sem_defs chan_defs)
qed

text \<open>
  C19. What a consumer can see of a stream, exactly: a complete run delivers all values in order and
  then ends without an error, or reports the error of the producer and delivers nothing. The first is
  possible for every producer, also for one that ends with an error; the second exactly when the
  producer ends with an error that at most one value precedes.
\<close>

theorem stream_outcomes:
  "(\<exists>s. sstep\<^sup>*\<^sup>* (stream_init vs e) s \<and> got s = g \<and> outcome s = Some r) \<longleftrightarrow> (\<exists>early. (g, r) = drain early vs e)"
proof
  assume "\<exists>early. (g, r) = drain early vs e"
  then consider "g = vs" "r = None" | x where "e = Some x" "length vs \<le> 1" "g = []" "r = Some x"
    by (auto simp: drain_def split: if_splits)
  then show "\<exists>s. sstep\<^sup>*\<^sup>* (stream_init vs e) s \<and> got s = g \<and> outcome s = Some r"
  proof cases
    case 1
    then show ?thesis using stream_full_run [of vs e] by simp
  next
    case 2
    then show ?thesis using stream_early_run [of vs x] by simp
  qed
qed (use stream_run_outcome in blast)

text \<open>
  The producer's error can be lost: for every list of values and every error the goroutine
  puts after them, there is a run in which the caller receives all values and then the regular
  end of the stream.
\<close>

lemma stream_error_lost:
  "\<exists>s. sstep\<^sup>*\<^sup>* (stream_init vs (Some x)) s \<and> got s = vs \<and> outcome s = Some None"
  by (rule stream_full_run)

end
