(* ===== verification/Logs.thy ===== *)
theory Logs
  imports Segment Concurrency
begin

text \<open>
  \<^verbatim>\<open>internal/database/logs\<close>: reading rows back from files and connections, and writing them to a
  target. A reader is the list of what its successive \<^verbatim>\<open>Read\<close> calls return, each with the bytes
  and the error; a reader whose list ends without an error blocks. The reader of a file and of
  a \<^verbatim>\<open>bytes.Reader\<close> deliver at most 4096 bytes, the size of the buffer, per call.

  The locale \<open>log_target\<close> is the Go interface \<^verbatim>\<open>Target\<close>; the segment manager is its instance.
\<close>

section \<open>Readers\<close>

type_synonym reads = "(byte list \<times> goerr option) list"

definition bufLen :: nat where "bufLen = 4096"

text \<open>The reads of a \<^verbatim>\<open>bytes.Reader\<close> on the given bytes.\<close>

function bytes_reads :: "byte list \<Rightarrow> reads" where
  "bytes_reads bs =
     (if bs = [] then [([], Some EOF)] else (take bufLen bs, None) # bytes_reads (drop bufLen bs))"
  by pat_completeness auto
termination
  by (relation "measure length") (auto simp: bufLen_def)

text \<open>The reads of an open file from its offset on; every call may meet a fault.\<close>

function file_reads_from :: "byte list \<Rightarrow> world \<Rightarrow> world \<times> reads" where
  "file_reads_from bs w =
     (case take_fault w of
        (w', Some (n, e)) \<Rightarrow> (w', [([], Some e)])
      | (w', None) \<Rightarrow>
          if bs = [] then (w', [([], Some EOF)])
          else (case file_reads_from (drop bufLen bs) w' of
                  (w2, rs) \<Rightarrow> (w2, (take bufLen bs, None) # rs)))"
  by pat_completeness auto
termination
  by (relation "measure (\<lambda>(bs, w). length bs)") (auto simp: bufLen_def)

definition file_reads :: "os_file \<Rightarrow> world \<Rightarrow> world \<times> reads" where
  "file_reads f w =
     (if \<not> f_open f then (w, [([], Some ErrClosed)])
      else file_reads_from (drop (f_pos f) (content w (f_path f))) w)"

declare bytes_reads.simps [simp del] file_reads_from.simps [simp del]

section \<open>The read loop\<close>

text \<open>The loop over the buffered bytes: the rows that are complete and the offset it stops at.\<close>

function parse_loop :: "byte list \<Rightarrow> nat \<Rightarrow> row list \<Rightarrow> row list \<times> nat" where
  "parse_loop leftover offset rows =
     (if offset < length leftover then
        (case Unmarshal (drop offset leftover) of
           Ok (row, readBytes) \<Rightarrow> parse_loop leftover (offset + readBytes) (rows @ [row])
         | Fail uErr \<Rightarrow>
             if uErr = EOF then (rows, offset) else parse_loop leftover (offset + 1) rows
         | _ \<Rightarrow> (rows, offset))
      else (rows, offset))"
  by pat_completeness auto
termination
  by (relation "measure (\<lambda>(l, off, rows). length l - off)") (auto dest: Unmarshal_pos)

text \<open>The loop over the final tail, which stops at the first error of any kind.\<close>

function tail_loop :: "byte list \<Rightarrow> nat \<Rightarrow> row list \<Rightarrow> row list" where
  "tail_loop leftover offset rows =
     (if offset < length leftover then
        (case Unmarshal (drop offset leftover) of
           Ok (row, readBytes) \<Rightarrow> tail_loop leftover (offset + readBytes) (rows @ [row])
         | _ \<Rightarrow> rows)
      else rows)"
  by pat_completeness auto
termination
  by (relation "measure (\<lambda>(l, off, rows). length l - off)") (auto dest: Unmarshal_pos)

declare parse_loop.simps [simp del] tail_loop.simps [simp del]

text \<open>The results of \<^verbatim>\<open>read\<close>: the rows and the error.\<close>

fun read_loop :: "reads \<Rightarrow> byte list \<Rightarrow> row list \<Rightarrow> (row list \<times> goerr option) res" where
  "read_loop [] leftover rows = Hang"
| "read_loop ((bs, err) # rs) leftover rows =
     (let (rows', leftover') =
        (if bs \<noteq> [] then
           (let l = leftover @ bs; (rw, off) = parse_loop l 0 rows in (rw, drop off l))
         else (rows, leftover))
      in case err of
           Some e \<Rightarrow>
             if e = EOF then
               Ok (if leftover' \<noteq> [] then tail_loop leftover' 0 rows' else rows', None)
             else Ok (rows', Some (Wrap ''parseRows read error: '' e))
         | None \<Rightarrow> read_loop rs leftover' rows')"

definition read :: "reads \<Rightarrow> (row list \<times> goerr option) res" where
  "read rs = read_loop rs [] []"

text \<open>\<^verbatim>\<open>Seek\<close> on a \<^verbatim>\<open>bytes.Reader\<close> refuses a negative position.\<close>

definition readFromOffset :: "byte list \<Rightarrow> int \<Rightarrow> (row list \<times> goerr option) res" where
  "readFromOffset data offset =
     (if offset < 0 then Ok ([], Some (IOErr ''bytes.Reader.Seek: negative position''))
      else read (bytes_reads (drop (nat offset) data)))"

fun ReadFrom_loop ::
  "string \<Rightarrow> int \<Rightarrow> string list \<Rightarrow> row list \<Rightarrow> manager \<Rightarrow> world \<Rightarrow> manager \<times> world \<times> row list res" where
  "ReadFrom_loop directory offset [] results m w = (m, w, Ok results)"
| "ReadFrom_loop directory offset (name # names) results m w =
     (case ReadSegment (path_join directory name) m w of
        (m1, w1, Ok data) \<Rightarrow>
          (case readFromOffset data offset of
             Ok (rows, None) \<Rightarrow> ReadFrom_loop directory 0 names (results @ rows) m1 w1
           | Ok (rows, Some e) \<Rightarrow> (m1, w1, Fail e)
           | Fail e \<Rightarrow> (m1, w1, Fail e)
           | Panic \<Rightarrow> (m1, w1, Panic)
           | Hang \<Rightarrow> (m1, w1, Hang))
      | (m1, w1, Fail e) \<Rightarrow> (m1, w1, Fail e)
      | (m1, w1, Panic) \<Rightarrow> (m1, w1, Panic)
      | (m1, w1, Hang) \<Rightarrow> (m1, w1, Hang))"

definition ReadFrom :: "string \<Rightarrow> string \<Rightarrow> int \<Rightarrow> manager \<Rightarrow> world \<Rightarrow> manager \<times> world \<times> row list res" where
  "ReadFrom directory target firstOffset m w =
     (case ReadDirsFrom directory target w of
        (w1, Ok names) \<Rightarrow> ReadFrom_loop directory firstOffset names [] m w1
      | (w1, Fail e) \<Rightarrow> (m, w1, Fail e)
      | (w1, Panic) \<Rightarrow> (m, w1, Panic)
      | (w1, Hang) \<Rightarrow> (m, w1, Hang))"

section \<open>Restoring\<close>

text \<open>A row that does not marshal is skipped.\<close>

fun restore_entries :: "string \<Rightarrow> int \<Rightarrow> row list \<Rightarrow> batch \<Rightarrow> batch" where
  "restore_entries fileName offset [] entries = entries"
| "restore_entries fileName offset (r # rows) entries =
     (case Marshal r of
        Ok b \<Rightarrow> restore_entries fileName (offset + int (length b)) rows
                  (AList.update (r_lsnID r) \<lparr>ie_LSN = 0, ie_FileName = fileName, ie_Offset = offset\<rparr> entries)
      | _ \<Rightarrow> restore_entries fileName offset rows entries)"

definition restoreIndex :: "row list \<Rightarrow> string \<Rightarrow> manager \<Rightarrow> manager" where
  "restoreIndex rows fileName m = AddBatchIndex (restore_entries fileName 0 rows []) m"

text \<open>
  The body of the goroutine of \<^verbatim>\<open>RestoreSystemStream\<close>: the values it puts into the stream and the
  error it puts at the end, if any. What the consumer sees of them is \<^const>\<open>drain\<close>. The reads of
  a file always end, so the last branch of the inner cases is never taken.
\<close>

fun restore_files :: "string \<Rightarrow> string list \<Rightarrow> manager \<Rightarrow> world \<Rightarrow> manager \<times> world \<times> row list list \<times> goerr option" where
  "restore_files directory [] m w = (m, w, [], None)"
| "restore_files directory (fileName # names) m w =
     (case OpenFile (path_join directory fileName) w of
        (w1, Ok file) \<Rightarrow>
          (case file_reads file w1 of
             (w2, rs) \<Rightarrow>
               (case read rs of
                  Ok (data, None) \<Rightarrow>
                    (let m1 = restoreIndex data fileName m in
                     case file_Close file w2 of
                       (w3, file', _) \<Rightarrow>
                         (case restore_files directory names m1 w3 of
                            (m2, w4, vs, e) \<Rightarrow> (m2, w4, data # vs, e)))
                | Ok (data, Some e) \<Rightarrow> (m, w2, [], Some e)
                | Fail e \<Rightarrow> (m, w2, [], Some e)
                | _ \<Rightarrow> (m, w2, [], None)))
      | (w1, Fail e) \<Rightarrow> (m, w1, [], Some e)
      | (w1, _) \<Rightarrow> (m, w1, [], None))"

definition RestoreSystemStream :: "string \<Rightarrow> manager \<Rightarrow> world \<Rightarrow> manager \<times> world \<times> row list list \<times> goerr option" where
  "RestoreSystemStream directory m w =
     (case ReadDir directory w of
        (w1, Ok names) \<Rightarrow> restore_files directory names m w1
      | (w1, Fail e) \<Rightarrow> (m, w1, [], Some e)
      | (w1, _) \<Rightarrow> (m, w1, [], None))"

text \<open>
  \<^verbatim>\<open>ReadStream\<close> puts one value, or the error; it is only called on a \<^verbatim>\<open>bytes.Reader\<close>, whose reads
  always end.
\<close>

definition ReadStream :: "reads \<Rightarrow> row list list \<times> goerr option" where
  "ReadStream r =
     (case read r of
        Ok (rows, None) \<Rightarrow> ([rows], None)
      | Ok (rows, Some e) \<Rightarrow> ([], Some e)
      | Fail e \<Rightarrow> ([], Some e)
      | _ \<Rightarrow> ([], None))"

section \<open>Writing\<close>

type_synonym 's target = "row list \<Rightarrow> 's \<Rightarrow> 's \<times> unit res"

definition LogWriter_write :: "row list \<Rightarrow> 's target option \<Rightarrow> 's \<Rightarrow> 's \<times> unit res" where
  "LogWriter_write rows t s =
     (case t of
        None \<Rightarrow> (s, Fail ErrNoTarget)
      | Some write \<Rightarrow> if rows = [] then (s, Ok ()) else write rows s)"

definition WriteTo :: "row list \<Rightarrow> 's target option \<Rightarrow> 's \<Rightarrow> 's \<times> unit res" where
  "WriteTo rows t s = LogWriter_write rows t s"

record 's log_writer =
  lw_target :: "'s target option"

definition NewLogWriter :: "'s target option \<Rightarrow> 's log_writer" where
  "NewLogWriter t = \<lparr>lw_target = t\<rparr>"

definition LogWriter_Write :: "'s log_writer \<Rightarrow> row list \<Rightarrow> 's \<Rightarrow> 's \<times> unit res" where
  "LogWriter_Write lw rows s = LogWriter_write rows (lw_target lw) s"

text \<open>The segment manager as a target.\<close>

definition manager_target :: "(manager \<times> world) target" where
  "manager_target rows s = (case Manager_Write rows (fst s) (snd s) of (m', w', r) \<Rightarrow> ((m', w'), r))"

section \<open>What reading means\<close>

text \<open>The rows at the front of a byte sequence, and what is left behind them.\<close>

function rows_of :: "byte list \<Rightarrow> row list" where
  "rows_of bs = (case Unmarshal bs of Ok (r, n) \<Rightarrow> r # rows_of (drop n bs) | _ \<Rightarrow> [])"
  by pat_completeness auto
termination
  by (relation "measure length") (use Unmarshal_pos in fastforce)+

function rest_of :: "byte list \<Rightarrow> byte list" where
  "rest_of bs = (case Unmarshal bs of Ok (r, n) \<Rightarrow> rest_of (drop n bs) | _ \<Rightarrow> bs)"
  by pat_completeness auto
termination
  by (relation "measure length") (use Unmarshal_pos in fastforce)+

declare rows_of.simps [simp del] rest_of.simps [simp del]

lemma Unmarshal_Nil [simp]: "Unmarshal [] = Fail EOF"
  by (simp add: Unmarshal_def read_or_eof_def read_full_def)

lemma rows_of_Nil [simp]: "rows_of [] = []" "rest_of [] = []"
  by (simp_all add: rows_of.simps rest_of.simps)

lemma rows_of_Ok: "Unmarshal bs = Ok (r, n) \<Longrightarrow> rows_of bs = r # rows_of (drop n bs)"
  "Unmarshal bs = Ok (r, n) \<Longrightarrow> rest_of bs = rest_of (drop n bs)"
  by (subst rows_of.simps, simp) (subst rest_of.simps, simp)

lemma rows_of_EOF: "Unmarshal bs = Fail EOF \<Longrightarrow> rows_of bs = []" "Unmarshal bs = Fail EOF \<Longrightarrow> rest_of bs = bs"
  by (simp_all add: rows_of.simps rest_of.simps)

lemma Unmarshal_elim:
  obtains (row) r n where "Unmarshal bs = Ok (r, n)" "0 < n" "n \<le> length bs" | (eof) "Unmarshal bs = Fail EOF"
proof (cases "Unmarshal bs = Fail EOF")
  case False
  then obtain v where "Unmarshal bs = Ok v" using Unmarshal_cases by blast
  then show ?thesis using Unmarshal_pos that(1) by (cases v) blast
qed (rule that(2))

lemma rows_of_append:
  "rows_of (a @ b) = rows_of a @ rows_of (rest_of a @ b) \<and> rest_of (a @ b) = rest_of (rest_of a @ b)"
proof (induction a rule: length_induct)
  case (1 a)
  show ?case
  proof (cases a rule: Unmarshal_elim)
    case (row r n)
    then have "length (drop n a) < length a" by simp
    with 1 have "rows_of (drop n a @ b) = rows_of (drop n a) @ rows_of (rest_of (drop n a) @ b) \<and>
        rest_of (drop n a @ b) = rest_of (rest_of (drop n a) @ b)" by blast
    with row show ?thesis
      using rows_of_Ok [OF row(1)] rows_of_Ok [OF Unmarshal_extend [OF row(1), of b]] by simp
  next
    case eof
    then show ?thesis by (simp add: rows_of_EOF)
  qed
qed

lemma rest_of_rest: "Unmarshal (rest_of bs) = Fail EOF"
proof (induction bs rule: length_induct)
  case (1 bs)
  show ?case
  proof (cases bs rule: Unmarshal_elim)
    case (row r n)
    then have "length (drop n bs) < length bs" by simp
    with 1 show ?thesis by (simp add: rows_of_Ok(2) [OF row(1)])
  next
    case eof
    then show ?thesis by (simp add: rows_of_EOF)
  qed
qed

lemma rest_of_length: "length (rest_of bs) \<le> length bs"
proof (induction bs rule: length_induct)
  case (1 bs)
  show ?case
  proof (cases bs rule: Unmarshal_elim)
    case (row r n)
    then have "length (drop n bs) < length bs" by simp
    with 1 have "length (rest_of (drop n bs)) \<le> length (drop n bs)" by blast
    with row(1) show ?thesis by (simp add: rows_of_Ok(2))
  next
    case eof
    then show ?thesis by (simp add: rows_of_EOF)
  qed
qed

lemma rows_of_encs: "list_all row_ok rs \<Longrightarrow> rows_of (encs rs @ t) = rs @ rows_of t \<and> rest_of (encs rs @ t) = rest_of t"
proof (induction rs)
  case (Cons r rs)
  then have "Unmarshal (enc r @ (encs rs @ t)) = Ok (r, length (enc r))" by (simp add: Unmarshal_enc)
  from rows_of_Ok [OF this] Cons show ?case by simp
qed simp

text \<open>What is read is what was written: the rows encode to the bytes that were consumed.\<close>

lemma encs_rows_of: "encs (rows_of bs) @ rest_of bs = bs \<and> list_all row_ok (rows_of bs)"
proof (induction bs rule: length_induct)
  case (1 bs)
  show ?case
  proof (cases bs rule: Unmarshal_elim)
    case (row r n)
    then have "length (drop n bs) < length bs" by simp
    with 1 have "encs (rows_of (drop n bs)) @ rest_of (drop n bs) = drop n bs \<and> list_all row_ok (rows_of (drop n bs))"
      by blast
    with Unmarshal_row_ok [OF row(1)] show ?thesis by (simp add: rows_of_Ok [OF row(1)])
  next
    case eof
    then show ?thesis by (simp add: rows_of_EOF)
  qed
qed

lemma parse_loop_spec:
  "off \<le> length l \<Longrightarrow> parse_loop l off rows = (rows @ rows_of (drop off l), length l - length (rest_of (drop off l)))"
proof (induction l off rows rule: parse_loop.induct)
  case (1 l off rows)
  show ?case
  proof (cases "off < length l")
    case True
    show ?thesis
    proof (cases "drop off l" rule: Unmarshal_elim)
      case (row r n)
      then show ?thesis
        using "1.IH"(1) [OF True row(1) refl] True rows_of_Ok [OF row(1)]
        by (simp add: parse_loop.simps [of l off rows] add.commute)
    next
      case eof
      then show ?thesis using True by (simp add: parse_loop.simps [of l off rows] rows_of_EOF)
    qed
  next
    case False
    with 1 show ?thesis by (simp add: parse_loop.simps [of l "length l" rows])
  qed
qed

lemma tail_loop_spec: "off \<le> length l \<Longrightarrow> tail_loop l off rows = rows @ rows_of (drop off l)"
proof (induction l off rows rule: tail_loop.induct)
  case (1 l off rows)
  show ?case
  proof (cases "off < length l")
    case True
    show ?thesis
    proof (cases "drop off l" rule: Unmarshal_elim)
      case (row r n)
      then show ?thesis
        using "1.IH" [OF True row(1) refl] True rows_of_Ok(1) [OF row(1)]
        by (simp add: tail_loop.simps [of l off rows] add.commute)
    next
      case eof
      then show ?thesis using True by (simp add: tail_loop.simps [of l off rows] rows_of_EOF)
    qed
  next
    case False
    with 1 show ?thesis by (simp add: tail_loop.simps [of l "length l" rows])
  qed
qed

lemma drop_to_rest: "drop (length l - length (rest_of l)) l = rest_of l"
  using encs_rows_of [of l] by (metis append_eq_conv_conj length_append add_diff_cancel_right')

lemma read_loop_spec:
  "Unmarshal left = Fail EOF \<Longrightarrow>
   read_loop (map (\<lambda>c. (c, None)) cs @ (c, Some e) # rs) left rows =
     Ok (rows @ rows_of (left @ concat cs @ c), if e = EOF then None else Some (Wrap ''parseRows read error: '' e))"
proof (induction cs arbitrary: left rows)
  case Nil
  then show ?case
    using rest_of_rest [of "left @ c"]
    by (auto simp: parse_loop_spec drop_to_rest tail_loop_spec rows_of_EOF Let_def)
next
  case (Cons b cs)
  have "rows_of (left @ b @ concat cs @ c) = rows_of (left @ b) @ rows_of (rest_of (left @ b) @ concat cs @ c)"
    using rows_of_append [of "left @ b" "concat cs @ c"] by simp
  moreover have "rows_of left = []" "rest_of left = left" using Cons.prems by (simp_all add: rows_of_EOF)
  ultimately show ?case
    using Cons.IH [OF rest_of_rest, of "left @ b" "rows @ rows_of (left @ b)"] Cons.IH [OF Cons.prems, of rows]
    by (cases "b = []") (simp_all add: parse_loop_spec drop_to_rest Let_def)
qed

lemma bytes_reads_chunks: "\<exists>cs. bytes_reads bs = map (\<lambda>c. (c, None)) cs @ [([], Some EOF)] \<and> concat cs = bs"
proof (induction bs rule: bytes_reads.induct)
  case (1 bs)
  show ?case
  proof (cases "bs = []")
    case False
    with 1 obtain cs where "bytes_reads (drop bufLen bs) = map (\<lambda>c. (c, None)) cs @ [([], Some EOF)]"
      "concat cs = drop bufLen bs" by blast
    then show ?thesis using False
      by (intro exI [of _ "take bufLen bs # cs"]) (simp add: bytes_reads.simps [of bs])
  qed (simp add: bytes_reads.simps)
qed

lemma read_bytes: "read (bytes_reads bs) = Ok (rows_of bs, None)"
proof -
  obtain cs where "bytes_reads bs = map (\<lambda>c. (c, None)) cs @ [([], Some EOF)]" "concat cs = bs"
    using bytes_reads_chunks by blast
  then show ?thesis using read_loop_spec [of "[]" cs "[]" EOF "[]" "[]"] by (simp add: read_def)
qed

lemma file_reads_clean:
  "w_faults w = [] \<Longrightarrow> f_open f \<Longrightarrow> file_reads f w = (w, bytes_reads (drop (f_pos f) (content w (f_path f))))"
proof -
  assume "w_faults w = []" "f_open f"
  moreover have "file_reads_from bs w = (w, bytes_reads bs)" if "w_faults w = []" for bs
    using that by (induction bs rule: bytes_reads.induct)
      (simp add: file_reads_from.simps [of _ w] bytes_reads.simps)
  ultimately show ?thesis by (simp add: file_reads_def)
qed

section \<open>Reading the log back\<close>

lemma ReadSegment_content:
  assumes "w_faults w = []" and "map_of (w_files w) (path_join d n) \<noteq> None"
  shows "ReadSegment (path_join d n) m w = (m, w, Ok (content w (path_join d n)))"
proof -
  have "GetName (m_curSeg m) \<noteq> path_join d n"
    using path_join_has_slash [of d n] base_name_no_slash by (metis GetName_def)
  with assms show ?thesis
    by (auto simp: ReadSegment_def readFile_def ReadFile_def os_Open_def file_ReadAll_def file_Close_def)
qed

lemma OpenFile_existing:
  assumes "w_faults w = []" "d \<noteq> []" "d \<in> set (w_dirs w)" "slash \<notin> set n"
    and "map_of (w_files w) (path_join d n) \<noteq> None"
  shows "OpenFile (path_join d n) w = (w, Ok \<lparr>f_path = path_join d n, f_pos = 0, f_open = True\<rparr>)"
proof -
  have "AList.update (path_join d n) (content w (path_join d n)) (w_files w) = w_files w"
    using assms(5) by (auto simp: content_def update_triv)
  then show ?thesis using assms
    by (simp add: OpenFile_def os_MkdirAll_def os_OpenFile_def dir_path_join List.insert_def)
qed

text \<open>The conditions under which the files of a log can be read.\<close>

definition readable :: "string \<Rightarrow> world \<Rightarrow> slog \<Rightarrow> bool" where
  "readable d w fs \<longleftrightarrow> w_faults w = [] \<and> world_ok w \<and> d \<noteq> [] \<and> d \<in> set (w_dirs w) \<and> log_rel d w fs"

lemma mgr_ok_readable: "mgr_ok k d m w fs \<Longrightarrow> readable d w fs"
  by (simp add: mgr_ok_def mgr_rel_def readable_def)

lemma readable_file:
  assumes "readable d w fs" and "(n, rs) \<in> set fs"
  shows "map_of (w_files w) (path_join d n) \<noteq> None" "slash \<notin> set n" "n \<noteq> []"
    "content w (path_join d n) = encs rs" "list_all row_ok rs"
proof -
  have "n \<in> set (map fst fs)" using assms(2) by force
  then have "n \<in> set (sort (dir_entries d w))" using assms(1) by (simp only: readable_def log_rel_def)
  then have "n \<in> set (dir_entries d w)" by simp
  moreover have "world_ok w" using assms(1) by (simp add: readable_def)
  ultimately show "map_of (w_files w) (path_join d n) \<noteq> None" "slash \<notin> set n" "n \<noteq> []"
    using dir_entries_has_file by blast+
  show "content w (path_join d n) = encs rs" "list_all row_ok rs"
    using assms by (fastforce simp: readable_def log_rel_def list_all_iff)+
qed

lemma ReadFrom_loop_files:
  assumes "readable d w fs" and "set gs \<subseteq> set fs"
  shows "ReadFrom_loop d 0 (map fst gs) acc m w = (m, w, Ok (acc @ all_rows gs))"
  using assms(2)
proof (induction gs arbitrary: acc)
  case (Cons g gs)
  obtain n rs where g: "g = (n, rs)" by (cases g)
  have mem: "(n, rs) \<in> set fs" using Cons.prems g by simp
  note f = readable_file [OF assms(1) mem]
  have "rows_of (encs rs) = rs" using rows_of_encs [OF f(5), of "[]"] by simp
  then show ?case
    using Cons f assms(1) by (simp add: g ReadSegment_content readable_def readFromOffset_def read_bytes)
qed simp

lemma ReadFrom_rows:
  assumes rd: "readable d w fs" and fs: "fs = pre @ (n, rs1 @ rs2) # post"
  shows "ReadFrom d n (int (length (encs rs1))) m w = (m, w, Ok (rs2 @ all_rows post))"
proof -
  have mem: "(n, rs1 @ rs2) \<in> set fs" by (simp add: fs)
  note f = readable_file [OF rd mem]
  have R: "w_faults w = []" "world_ok w" "d \<in> set (w_dirs w)" "sort (dir_entries d w) = map fst fs"
    using rd by (simp_all add: readable_def log_rel_def)
  have strict: "sorted_wrt (<) (map fst fs)" using dir_entries_strict [OF R(2), of d] by (simp add: R(4))
  have rdir: "ReadDir d w = (w, Ok (map fst fs))" using R by (simp add: ReadDir_def os_ReadDir_def)
  obtain i where i: "binarySearch (map fst fs) n = Ok i" "0 \<le> i" "nat i < length fs" "map fst fs ! nat i = n"
    using binarySearch_correct [OF strict, of n] fs by auto
  have "map fst fs ! length pre = n" "length pre < length fs" "distinct (map fst fs)"
    using strict by (simp_all add: fs nth_append strict_sorted_iff)
  then have "nat i = length pre"
    using nth_eq_iff_index_eq [of "map fst fs" "nat i" "length pre"] i(3,4) by simp
  then have dirs: "ReadDirsFrom d n w = (w, Ok (n # map fst post))"
    using rdir i f(3) by (simp add: ReadDirsFrom_def go_from_def fs)
  have "content w (path_join d n) = encs rs1 @ encs rs2" "list_all row_ok rs2" using f(4,5) by simp_all
  then have "readFromOffset (content w (path_join d n)) (int (length (encs rs1))) = Ok (rs2, None)"
    using rows_of_encs [of rs2 "[]"] by (simp add: readFromOffset_def read_bytes)
  moreover have "set post \<subseteq> set fs" by (auto simp: fs)
  ultimately show ?thesis
    using dirs R(1) f(1) ReadFrom_loop_files [OF rd, of post rs2 m]
    by (simp add: ReadFrom_def ReadSegment_content)
qed

lemma restore_entries_ents:
  "list_all row_ok rs \<Longrightarrow> restore_entries n off rs acc = ents n off rs acc"
  by (induction rs arbitrary: off acc) (auto simp: row_ok_Marshal)

lemma restoreIndex_idx:
  assumes "idx_rel m fs" and "list_all row_ok rs"
  shows "idx_rel (restoreIndex rs n m) (fs @ [(n, rs)])"
proof -
  let ?m2 = "m\<lparr>m_pending := m_pending m @ [ents n 0 rs []]\<rparr>"
  have "idx_rel m (fs @ [(n, [])])" by (rule idx_rel_rotate [OF assms(1)]) simp_all
  then have "idx_rel ?m2 (fs @ [(n, rs)])" using idx_rel_append [of m fs n "[]" ?m2 rs] by simp
  from idx_rel_run_pending [OF this, of "length (m_pending m)"] show ?thesis
    by (simp add: restoreIndex_def restore_entries_ents [OF assms(2)] run_pending_def AddBatchIndex_def)
qed

lemma restore_files_ok:
  assumes rd: "readable d w fs"
  shows "set gs \<subseteq> set fs \<Longrightarrow> idx_rel m pre \<Longrightarrow>
    \<exists>m'. restore_files d (map fst gs) m w = (m', w, map snd gs, None) \<and> idx_rel m' (pre @ gs) \<and>
      m_curSeg m' = m_curSeg m \<and> m_locked m' = m_locked m \<and> m_pending m' = m_pending m"
proof (induction gs arbitrary: m pre)
  case (Cons g gs)
  obtain n rs where g: "g = (n, rs)" by (cases g)
  have mem: "(n, rs) \<in> set fs" using Cons.prems g by simp
  note f = readable_file [OF rd mem]
  let ?m1 = "restoreIndex rs n m"
  have idx: "idx_rel ?m1 (pre @ [(n, rs)])" by (rule restoreIndex_idx [OF Cons.prems(2) f(5)])
  obtain m' where m': "restore_files d (map fst gs) ?m1 w = (m', w, map snd gs, None)"
    "idx_rel m' ((pre @ [(n, rs)]) @ gs)" "m_curSeg m' = m_curSeg ?m1" "m_locked m' = m_locked ?m1"
    "m_pending m' = m_pending ?m1"
    using Cons.IH [OF _ idx] Cons.prems(1) by auto
  have R: "w_faults w = []" "d \<noteq> []" "d \<in> set (w_dirs w)" using rd by (simp_all add: readable_def)
  have "rows_of (encs rs) = rs" using rows_of_encs [OF f(5), of "[]"] by simp
  then show ?case
    using m' f R OpenFile_existing [OF R f(2,1)]
    by (simp add: g file_reads_clean read_bytes file_Close_def Let_def restoreIndex_def AddBatchIndex_def)
qed simp

lemma RestoreSystemStream_ok:
  assumes "readable d w fs" and "m_im m = NewIndexManagerMutex" and "m_pending m = []"
  shows "\<exists>m'. RestoreSystemStream d m w = (m', w, map snd fs, None) \<and> idx_rel m' fs \<and>
    m_curSeg m' = m_curSeg m \<and> m_locked m' = m_locked m \<and> m_pending m' = []"
proof -
  have "ReadDir d w = (w, Ok (map fst fs))"
    using assms(1) by (simp add: readable_def log_rel_def ReadDir_def os_ReadDir_def)
  moreover have "idx_rel m []" by (simp add: idx_rel_def entry_of_def assms(2,3) mx.new_abs)
  ultimately show ?thesis
    using restore_files_ok [OF assms(1) subset_refl, of m "[]"] assms(3) by (auto simp: RestoreSystemStream_def)
qed

section \<open>The interface of a target\<close>

text \<open>
  \<open>thas k s xs\<close>: the target \<open>s\<close> holds the rows \<open>xs\<close> and has room for \<open>k\<close> more; a write of rows
  that marshal succeeds and appends them.
\<close>

locale log_target =
  fixes twrite :: "'s target"
    and thas :: "nat \<Rightarrow> 's \<Rightarrow> row list \<Rightarrow> bool"
  assumes twrite_ok: "thas (k + length rows) s xs \<Longrightarrow> list_all row_ok rows \<Longrightarrow>
      \<exists>s'. twrite rows s = (s', Ok ()) \<and> thas k s' (xs @ rows)"
    and thas_less: "thas (k + j) s xs \<Longrightarrow> thas k s xs"
begin

lemma LogWriter_ok:
  assumes "thas (k + length rows) s xs" and "list_all row_ok rows"
  shows "\<exists>s'. LogWriter_Write (NewLogWriter (Some twrite)) rows s = (s', Ok ()) \<and> thas k s' (xs @ rows)"
  using twrite_ok [OF assms] assms(1)
  by (cases "rows = []") (auto simp: LogWriter_Write_def NewLogWriter_def LogWriter_write_def)

text \<open>A sequence of writes.\<close>

lemma LogWriter_seq:
  assumes "thas (k + sum_list (map length batches)) s xs" and "list_all (list_all row_ok) batches"
  shows "\<exists>s'. fold (\<lambda>b st. fst (LogWriter_Write (NewLogWriter (Some twrite)) b st)) batches s = s' \<and>
    thas k s' (xs @ concat batches)"
  using assms
proof (induction batches arbitrary: s xs)
  case (Cons b bs)
  then have "thas ((k + sum_list (map length bs)) + length b) s xs" by (simp add: algebra_simps)
  then obtain s1 where "LogWriter_Write (NewLogWriter (Some twrite)) b s = (s1, Ok ())"
    "thas (k + sum_list (map length bs)) s1 (xs @ b)"
    using LogWriter_ok Cons.prems(2) by (metis list.pred_inject(2))
  then show ?case using Cons.IH [of s1 "xs @ b"] Cons.prems(2) by simp
qed simp

end

definition log_has :: "string \<Rightarrow> nat \<Rightarrow> manager \<times> world \<Rightarrow> row list \<Rightarrow> bool" where
  "log_has d k s xs \<longleftrightarrow> (\<exists>fs. mgr_ok k d (fst s) (snd s) fs \<and> all_rows fs = xs)"

interpretation seg: log_target manager_target "log_has d" for d
proof unfold_locales
  fix k rows s xs assume "log_has d (k + length rows) s xs" "list_all row_ok rows"
  then show "\<exists>s'. manager_target rows s = (s', Ok ()) \<and> log_has d k s' (xs @ rows)"
    unfolding log_has_def manager_target_def
    using Manager_Write_ok [of k rows d "fst s" "snd s"] by fastforce
next
  fix k j s xs assume "log_has d (k + j) s xs"
  then show "log_has d k s xs" unfolding log_has_def using mgr_ok_mono by blast
qed

section \<open>Properties\<close>

text \<open>
  C17. Reading does not depend on how the bytes arrive: whatever pieces the reader returns, empty
  ones included, the read loop ends and returns exactly the rows at the front of the joined
  bytes; after the regular end without an error, after a read error together with the wrapped
  error. These rows encode to exactly the bytes consumed, and no complete row is left over.
\<close>

theorem read_chunk_independent:
  "read (map (\<lambda>c. (c, None)) cs @ [(c, Some e)]) =
     Ok (rows_of (concat cs @ c), if e = EOF then None else Some (Wrap ''parseRows read error: '' e)) \<and>
   encs (rows_of (concat cs @ c)) @ rest_of (concat cs @ c) = concat cs @ c \<and>
   Unmarshal (rest_of (concat cs @ c)) = Fail EOF"
  using read_loop_spec [of "[]" cs c e "[]" "[]"] encs_rows_of rest_of_rest by (simp add: read_def)

text \<open>
  A torn write costs only the torn row: reading a log whose last row was cut at any point by
  a crash returns exactly the rows before it, for any sizes of the pieces read.
\<close>

lemma read_torn_log:
  assumes "list_all row_ok (rs @ [r])" and "j < length (enc r)"
    and "concat cs = concat (map enc rs) @ take j (enc r)"
  shows "read (map (\<lambda>c. (c, None)) cs @ [([], Some EOF)]) = Ok (rs, None)"
proof -
  have "Unmarshal (take j (enc r)) = Fail EOF" using assms by (simp add: Unmarshal_torn)
  then have "rows_of (concat cs) = rs"
    using assms rows_of_encs [of rs "take j (enc r)"] by (simp add: encs_def rows_of_EOF)
  then show ?thesis using read_loop_spec [of "[]" cs "[]" EOF "[]" "[]"] by (simp add: read_def)
qed

text \<open>
  Replication reads the right part of the log: from the place the index gives for a sequence
  number, \<^verbatim>\<open>ReadFrom\<close> returns a row with this number and all rows written after it, across all
  later files, in order, and changes nothing.
\<close>

lemma ReadFrom_from_index:
  assumes "readable d w fs" and "idx_rel m fs" and "Manager_GetIndex l m = Ok e"
  shows "\<exists>before rows. all_rows fs = before @ rows \<and> rows \<noteq> [] \<and> r_lsnID (hd rows) = l \<and>
    ReadFrom d (ie_FileName e) (ie_Offset e) m w = (m, w, Ok rows)"
proof -
  have "entry_of m l (place e)"
    using assms(3) by (auto simp: entry_of_def mutex_abs_def Manager_GetIndex_def Mutex_GetIndex_def split: option.splits)
  then have "points fs l (place e)" using assms(2) unfolding idx_rel_def by blast
  then obtain pre rs1 r rs2 post where P: "fs = pre @ (ie_FileName e, rs1 @ r # rs2) # post"
    "r_lsnID r = l" "ie_Offset e = int (length (encs rs1))"
    by (auto simp: points_def place_def)
  have "ReadFrom d (ie_FileName e) (ie_Offset e) m w = (m, w, Ok ((r # rs2) @ all_rows post))"
    unfolding P(3) by (rule ReadFrom_rows [OF assms(1) P(1)])
  moreover have "all_rows fs = (all_rows pre @ rs1) @ (r # rs2) @ all_rows post" by (simp add: P(1))
  ultimately show ?thesis using P(2) by (metis append_Cons list.distinct(1) list.sel(1))
qed

text \<open>
  A row whose last argument ends in \<open>c\<close> and the same row with another last byte differ in the last
  byte of their encodings only.
\<close>

lemma enc_last_byte:
  assumes "r_args r = as @ [a @ [c]]" and "row_ok r"
  shows "row_ok (r\<lparr>r_args := as @ [a @ [char_of_byte b]]\<rparr>) \<and>
    enc (r\<lparr>r_args := as @ [a @ [char_of_byte b]]\<rparr>) = butlast (enc r) @ [b]"
proof -
  have marsh: "marshal_args (as @ [a @ [x]]) = Ok (ms @ be_bytes 2 (unat (word_of_nat (Suc (length a)) :: u16)) @
      bytes_of_string a @ [byte_of_char x])"
    if "marshal_args as = Ok ms" "length a < 65535" for as ms x
    using that by (induction as arbitrary: ms) (auto simp: bytes_of_string_def)
  have small: "list_all (\<lambda>x. length x \<le> 65535) as" "length a < 65535" using assms by (auto simp: row_ok_def)
  obtain ms where ms: "marshal_args as = Ok ms" using marshal_args_Ok_iff small(1) by blast
  have "row_ok (r\<lparr>r_args := as @ [a @ [char_of_byte b]]\<rparr>)" using assms small by (simp add: row_ok_def)
  moreover have "enc (r\<lparr>r_args := as @ [a @ [char_of_byte b]]\<rparr>) = butlast (enc r) @ [b]"
    by (simp add: enc_def Marshal_def marsh [OF ms small(2)] assms(1) butlast_append)
  ultimately show ?thesis by blast
qed

text \<open>
  A torn tail is not cut off at the restart and corrupts what follows: the segment file is
  reopened and appended to behind the fragment. When the last byte of an argument was lost, the
  next byte written to the log takes its place: the reader then returns the unfinished row with
  an altered value and loses the alignment of the rows written after the restart.
\<close>

lemma torn_tail_corrupts_log:
  assumes "list_all row_ok (rs @ [r])" and "r_args r = as @ [a @ [c]]" and "encs new = b # bs"
  shows "read (bytes_reads (encs rs @ butlast (enc r) @ encs new)) =
    Ok (rs @ r\<lparr>r_args := as @ [a @ [char_of_byte b]]\<rparr> # rows_of bs, None)"
proof -
  define r' where "r' = r\<lparr>r_args := as @ [a @ [char_of_byte b]]\<rparr>"
  have r': "row_ok r'" "enc r' = butlast (enc r) @ [b]"
    using enc_last_byte [OF assms(2), of b] assms(1) by (simp_all add: r'_def)
  have "list_all row_ok (rs @ [r'])" using assms(1) r'(1) by simp
  from rows_of_encs [OF this, of bs] r'(2) show ?thesis
    by (simp add: read_bytes assms(3) r'_def)
qed

end
