(* ===== verification/Retry.thy ===== *)
theory Retry
  imports Laguna_Prelude
begin

text \<open>
  \<^verbatim>\<open>utils/retry/with_retry.go\<close>. The retried function is a state transformer; the waits are
  observed through \<open>wait i\<close>, the error of the context if it is done before the \<open>i\<close>-th delay
  elapses. Durations are signed 64-bit words, so the doubling of the delay overflows as in Go.
  The random jitter only prolongs a wait and appears as the argument of \<^verbatim>\<open>rand.Int63n\<close>,
  which panics when it is not positive.
\<close>

type_synonym duration = u64

definition defaultBaseDelay :: duration where
  "defaultBaseDelay = 50000000"

text \<open>\<^verbatim>\<open>baseDelay << i\<close>, with the fallback when the shift leaves nothing positive.\<close>

definition retry_delay :: "duration \<Rightarrow> nat \<Rightarrow> duration" where
  "retry_delay baseDelay i =
     (let delay = push_bit i baseDelay in if sint delay \<le> 0 then baseDelay else delay)"

text \<open>\<open>jitter_ok d\<close>: the argument \<^verbatim>\<open>int64(delay / 3)\<close> of \<^verbatim>\<open>rand.Int63n\<close> is positive.\<close>

definition jitter_ok :: "duration \<Rightarrow> bool" where
  "jitter_ok d \<longleftrightarrow> 0 < sint d div 3"

text \<open>
  The loop: \<open>n\<close> attempts are left, \<open>i\<close> are done, \<open>err\<close> is the error of the last one.
\<close>

fun retry_loop ::
  "nat \<Rightarrow> nat \<Rightarrow> nat \<Rightarrow> duration \<Rightarrow> (nat \<Rightarrow> goerr option) \<Rightarrow> ('s \<Rightarrow> 's \<times> 'a res) \<Rightarrow> goerr \<Rightarrow> 's \<Rightarrow> 's \<times> 'a res"
where
  "retry_loop 0 i retry base wait f err s = (s, Fail err)"
| "retry_loop (Suc n) i retry base wait f err s =
     (case f s of
        (s', Ok v) \<Rightarrow> (s', Ok v)
      | (s', Panic) \<Rightarrow> (s', Panic)
      | (s', Hang) \<Rightarrow> (s', Hang)
      | (s', Fail e) \<Rightarrow>
          if i = retry then (s', Fail e)
          else if \<not> jitter_ok (retry_delay base i) then (s', Panic)
          else (case wait i of
                  Some ce \<Rightarrow> (s', Fail ce)
                | None \<Rightarrow> retry_loop n (Suc i) retry base wait f e s'))"

text \<open>The two entry points have the same body; the value version returns the function's value.\<close>

definition retry_count :: "int \<Rightarrow> nat" where
  "retry_count retry = (if retry \<le> 0 then 1 else nat retry)"

definition retry_base :: "duration \<Rightarrow> duration" where
  "retry_base baseDelay = (if sint baseDelay \<le> 0 then defaultBaseDelay else baseDelay)"

definition WithRetryValue ::
  "(nat \<Rightarrow> goerr option) \<Rightarrow> int \<Rightarrow> duration \<Rightarrow> ('s \<Rightarrow> 's \<times> 'a res) option \<Rightarrow> 's \<Rightarrow> 's \<times> 'a res"
where
  "WithRetryValue wait retry baseDelay f s =
     (case f of
        None \<Rightarrow> (s, Fail ErrFuncNil)
      | Some g \<Rightarrow> retry_loop (retry_count retry) 0 (retry_count retry) (retry_base baseDelay) wait g EOF s)"

definition WithRetry ::
  "(nat \<Rightarrow> goerr option) \<Rightarrow> int \<Rightarrow> duration \<Rightarrow> ('s \<Rightarrow> 's \<times> unit res) option \<Rightarrow> 's \<Rightarrow> 's \<times> unit res"
where
  "WithRetry wait retry baseDelay f s =
     (case f of
        None \<Rightarrow> (s, Fail ErrFuncNil)
      | Some g \<Rightarrow> retry_loop (retry_count retry) 0 (retry_count retry) (retry_base baseDelay) wait g EOF s)"

section \<open>The delays\<close>

lemma sint_pos_uint: "0 < sint (w :: duration) \<Longrightarrow> uint w = sint w \<and> uint w < 2 ^ 63"
proof -
  assume pos: "0 < sint w"
  have "sint w < 2 ^ 63" using sint_lt [of w] by simp
  with pos show ?thesis by (simp add: uint_sint take_bit_eq_mod)
qed

lemma sint_push_bit_ge3:
  assumes b: "3 \<le> sint (b :: duration)" and pos: "0 < sint (push_bit i b)"
  shows "3 \<le> sint (push_bit i b)"
proof -
  define u where "u = uint b"
  have u: "3 \<le> u" "u < 2 ^ 63" using sint_pos_uint [of b] b by (auto simp: u_def)
  have v: "sint (push_bit i b) = (u * 2 ^ i) mod 2 ^ 64"
  proof -
    have "uint (push_bit i b) = take_bit 64 (push_bit i (uint b))"
      by (simp only: unsigned_push_bit_eq) simp
    with sint_pos_uint [OF pos] show ?thesis
      by (simp add: u_def take_bit_eq_mod push_bit_eq_mult)
  qed
  consider "i = 0" | "i = 1" | "2 \<le> i" by linarith
  then show ?thesis
  proof cases
    case 1
    then show ?thesis using u v by simp
  next
    case 2
    then show ?thesis using u v by simp
  next
    case 3
    then have "(4 :: int) dvd 2 ^ i" using le_imp_power_dvd [of 2 i "2 :: int"] by simp
    then have "(4 :: int) dvd (u * 2 ^ i) mod 2 ^ 64" by (simp add: dvd_mod)
    then obtain k where "sint (push_bit i b) = 4 * k" using v by (auto elim: dvdE)
    with pos show ?thesis by simp
  qed
qed

lemma retry_delay_ge3: "3 \<le> sint base \<Longrightarrow> 3 \<le> sint (retry_delay base i)"
  using sint_push_bit_ge3 by (auto simp: retry_delay_def Let_def not_le)

lemma jitter_ok_ge3: "3 \<le> sint d \<Longrightarrow> jitter_ok d"
proof -
  assume "3 \<le> sint d"
  then have "3 div 3 \<le> sint d div 3" by (rule zdiv_mono1) simp
  then show ?thesis by (simp add: jitter_ok_def)
qed

lemma retry_base_ge3: "sint d \<le> 0 \<or> 3 \<le> sint d \<Longrightarrow> 3 \<le> sint (retry_base d)"
  by (auto simp: retry_base_def defaultBaseDelay_def)

section \<open>The attempts\<close>

text \<open>\<open>after f k s\<close>: the state after \<open>k\<close> attempts.\<close>

fun after :: "('s \<Rightarrow> 's \<times> 'a res) \<Rightarrow> nat \<Rightarrow> 's \<Rightarrow> 's" where
  "after f 0 s = s"
| "after f (Suc k) s = after f k (fst (f s))"

definition attempt :: "('s \<Rightarrow> 's \<times> 'a res) \<Rightarrow> nat \<Rightarrow> 's \<Rightarrow> 'a res" where
  "attempt f k s = snd (f (after f k s))"

lemma attempt_0: "attempt f 0 s = snd (f s)"
  by (simp add: attempt_def)

lemma attempt_Suc: "attempt f (Suc k) s = attempt f k (fst (f s))"
  by (simp add: attempt_def)

lemma retry_loop_until_ok:
  assumes "\<And>j. jitter_ok (retry_delay base j)" and "i + n = retry" and "k < n"
    and "\<And>j. j < k \<Longrightarrow> (\<exists>e. attempt f j s = Fail e) \<and> wait (i + j) = None"
    and "\<And>e. attempt f k s \<noteq> Fail e"
  shows "retry_loop n i retry base wait f err s = (after f (Suc k) s, attempt f k s)"
  using assms(2-5)
proof (induction n arbitrary: i k err s)
  case (Suc n)
  obtain s' r where fs: "f s = (s', r)" by (cases "f s")
  show ?case
  proof (cases k)
    case 0
    with Suc.prems(4) fs show ?thesis by (cases r) (auto simp: attempt_0)
  next
    case (Suc k')
    from Suc.prems(3)[of 0] Suc fs obtain e where r: "r = Fail e" and w: "wait i = None"
      by (auto simp: attempt_0)
    have "retry_loop n (Suc i) retry base wait f e s' = (after f (Suc k') s', attempt f k' s')"
    proof (rule Suc.IH)
      fix j assume "j < k'"
      then show "(\<exists>e. attempt f j s' = Fail e) \<and> wait (Suc i + j) = None"
        using Suc.prems(3)[of "Suc j"] Suc fs by (simp add: attempt_Suc)
    qed (use Suc.prems Suc fs in \<open>auto simp: attempt_Suc\<close>)
    then show ?thesis using Suc Suc.prems(1) fs r w assms(1) by (auto simp: attempt_Suc)
  qed
qed simp

lemma retry_loop_all_fail:
  assumes "\<And>j. jitter_ok (retry_delay base j)" and "i + n = retry" and "0 < n"
    and "\<And>j. j < n \<Longrightarrow> (\<exists>e. attempt f j s = Fail e) \<and> wait (i + j) = None"
  shows "retry_loop n i retry base wait f err s = (after f n s, attempt f (n - 1) s)"
  using assms(2-4)
proof (induction n arbitrary: i err s)
  case (Suc n)
  obtain s' r where fs: "f s = (s', r)" by (cases "f s")
  from Suc.prems(3)[of 0] fs obtain e where r: "r = Fail e" and w: "wait i = None"
    by (auto simp: attempt_0)
  show ?case
  proof (cases "n = 0")
    case True
    then show ?thesis using fs r w assms(1) Suc.prems(1) by (simp add: attempt_0)
  next
    case False
    have "retry_loop n (Suc i) retry base wait f e s' = (after f n s', attempt f (n - 1) s')"
    proof (rule Suc.IH)
      fix j assume "j < n"
      then show "(\<exists>e. attempt f j s' = Fail e) \<and> wait (Suc i + j) = None"
        using Suc.prems(3)[of "Suc j"] fs by (simp add: attempt_Suc)
    qed (use Suc.prems False in auto)
    then show ?thesis using False fs r w assms(1) Suc.prems(1)
      by (cases n) (auto simp: attempt_Suc)
  qed
qed simp

lemma retry_loop_no_panic:
  assumes "\<And>j. jitter_ok (retry_delay base j)" and "\<And>s. snd (f s) \<noteq> Panic"
  shows "snd (retry_loop n i retry base wait f err s) \<noteq> Panic"
proof (induction n arbitrary: i err s)
  case (Suc n)
  obtain s' r where fs: "f s = (s', r)" by (cases "f s")
  then have "r \<noteq> Panic" using assms(2)[of s] by simp
  with Suc fs assms(1) show ?case by (cases r) (auto split: option.split)
qed simp

lemma sint_small_cases: "\<not> (sint (d :: duration) \<le> 0 \<or> 3 \<le> sint d) \<Longrightarrow> d = 1 \<or> d = 2"
proof -
  assume "\<not> (sint d \<le> 0 \<or> 3 \<le> sint d)"
  then have "sint d = 1 \<or> sint d = 2" by arith
  then have "uint d = 1 \<or> uint d = 2" using sint_pos_uint [of d] by auto
  then show ?thesis using word_uint_eqI [of d 1] word_uint_eqI [of d 2] by auto
qed

section \<open>Properties\<close>

text \<open>
  The exponential backoff never hands \<^verbatim>\<open>rand.Int63n\<close> a non-positive bound, for any number
  of attempts and despite the overflow of the shift, exactly when the base delay is not one or
  two nanoseconds; a zero or negative base delay is replaced by the default.
\<close>

lemma retry_jitter_never_panics:
  "(\<forall>i. jitter_ok (retry_delay (retry_base d) i)) \<longleftrightarrow> d \<notin> {1, 2}"
proof
  assume all: "\<forall>i. jitter_ok (retry_delay (retry_base d) i)"
  have "\<not> jitter_ok (retry_delay (retry_base 1) 0)" "\<not> jitter_ok (retry_delay (retry_base 2) 0)"
    by (simp_all add: retry_base_def retry_delay_def jitter_ok_def)
  with all show "d \<notin> {1, 2}" by blast
next
  assume "d \<notin> {1, 2}"
  then have "sint d \<le> 0 \<or> 3 \<le> sint d" using sint_small_cases by blast
  then show "\<forall>i. jitter_ok (retry_delay (retry_base d) i)"
    by (simp add: retry_base_ge3 retry_delay_ge3 jitter_ok_ge3)
qed

text \<open>
  C35. Without cancellation a retried call ends with the first attempt that does not fail, and
  no further attempt is made; if every one of the \<open>retry\<close> attempts fails, the error of the last
  one is returned after exactly that many attempts.
\<close>

theorem WithRetryValue_outcome:
  assumes "d \<notin> {1, 2}" and "\<And>i. wait i = None"
  shows "(\<forall>k<retry_count r. (\<forall>j<k. \<exists>e. attempt f j s = Fail e) \<and> (\<forall>e. attempt f k s \<noteq> Fail e) \<longrightarrow>
            WithRetryValue wait r d (Some f) s = (after f (Suc k) s, attempt f k s)) \<and>
         ((\<forall>j<retry_count r. \<exists>e. attempt f j s = Fail e) \<longrightarrow>
            WithRetryValue wait r d (Some f) s =
              (after f (retry_count r) s, attempt f (retry_count r - 1) s))"
proof -
  have "sint d \<le> 0 \<or> 3 \<le> sint d" using assms(1) sint_small_cases by blast
  then have jit: "jitter_ok (retry_delay (retry_base d) j)" for j
    by (simp add: retry_base_ge3 retry_delay_ge3 jitter_ok_ge3)
  have pos: "0 < retry_count r" by (simp add: retry_count_def)
  show ?thesis
  proof (intro conjI allI impI)
    fix k assume "k < retry_count r"
      and "(\<forall>j<k. \<exists>e. attempt f j s = Fail e) \<and> (\<forall>e. attempt f k s \<noteq> Fail e)"
    then show "WithRetryValue wait r d (Some f) s = (after f (Suc k) s, attempt f k s)"
      unfolding WithRetryValue_def option.case
      by (intro retry_loop_until_ok jit) (use assms(2) in auto)
  next
    assume "\<forall>j<retry_count r. \<exists>e. attempt f j s = Fail e"
    then show "WithRetryValue wait r d (Some f) s =
        (after f (retry_count r) s, attempt f (retry_count r - 1) s)"
      unfolding WithRetryValue_def option.case
      by (intro retry_loop_all_fail jit pos) (use assms(2) in auto)
  qed
qed

text \<open>A function that fails on its first call and succeeds on the second.\<close>

definition flaky :: "nat \<Rightarrow> nat \<times> nat res" where
  "flaky n = (Suc n, if n = 0 then Fail EOF else Ok n)"

theorem WithRetryValue_outcome_witness:
  "WithRetryValue (\<lambda>_. None) 3 200000000 (Some flaky) 0 = (2, Ok 1)"
proof -
  have "\<forall>j<Suc 0. \<exists>e. attempt flaky j 0 = Fail e" "\<forall>e. attempt flaky (Suc 0) 0 \<noteq> Fail e"
    by (simp_all add: attempt_def flaky_def)
  moreover have "(200000000 :: duration) \<notin> {1, 2}" by simp
  ultimately have "WithRetryValue (\<lambda>_. None) 3 200000000 (Some flaky) 0 =
      (after flaky (Suc (Suc 0)) 0, attempt flaky (Suc 0) 0)"
    using WithRetryValue_outcome [of 200000000 "\<lambda>_. None" 3 flaky 0, THEN conjunct1,
        rule_format, of "Suc 0"] by (simp add: retry_count_def)
  then show ?thesis by (simp add: attempt_def flaky_def)
qed

end
