(* ===== verification/Wal.thy ===== *)
theory Wal
  imports Logs Retry
begin

text \<open>
  \<^verbatim>\<open>internal/database/wal/wal.go\<close>: the write-ahead log. A client call of \<^verbatim>\<open>Write\<close> numbers its row,
  sends it into the channel \<open>queryCh\<close> and registers a future; the worker goroutine collects rows
  from the channel and flushes them through the writer, then resolves every registered future.
  A future is a number into the table of their channels.

  The operations are first defined as functions on the state, each up to the point where it
  waits for another goroutine. The relation \<open>wstep\<close> then interleaves the steps of any number of
  client calls with those of the worker. It carries the history of the rows sent, which no step
  reads. The writer is a parameter \<open>wr\<close> with a state; the interface \<open>log_target\<close> says what it
  promises.
\<close>

section \<open>The log object\<close>

record config_wal =
  c_Enable :: bool
  c_FlushInterval :: int
  c_FlushBatchSize :: int
  c_MaxSegmentSize :: int
  c_Directory :: string

record wal =
  wal_enable :: bool
  wal_queryCh :: "row chan"
  wal_queryBuf :: "row list"
  wal_futureResp :: "nat list"
  wal_lsnGen :: generator
  wal_flushInterval :: int
  wal_flushBatchSize :: int
  wal_maxSegmentSize :: int
  wal_directory :: string

definition defaultFlushInterval :: int where "defaultFlushInterval = 10000000"
definition defaultFlushBatchSize :: int where "defaultFlushBatchSize = 100"
definition defaultMaxSegmentSize :: int where "defaultMaxSegmentSize = 1000000"
definition defaultDirectory :: string where "defaultDirectory = ''/data/laguna/wal''"

definition or_default :: "'a \<Rightarrow> 'a \<Rightarrow> 'a \<Rightarrow> 'a" where
  "or_default zero d v = (if v = zero then d else v)"

text \<open>The fields of a disabled log are the zero values; a negative channel size panics.\<close>

definition NewWAL :: "config_wal \<Rightarrow> wal res" where
  "NewWAL c =
     (if \<not> c_Enable c then
        Ok \<lparr>wal_enable = False, wal_queryCh = make_chan 0, wal_queryBuf = [], wal_futureResp = [],
            wal_lsnGen = NewIDGenerator, wal_flushInterval = 0, wal_flushBatchSize = 0,
            wal_maxSegmentSize = 0, wal_directory = []\<rparr>
      else
        (let batchSize = or_default 0 defaultFlushBatchSize (c_FlushBatchSize c) in
         if batchSize < 0 then Panic
         else Ok \<lparr>wal_enable = True, wal_queryCh = make_chan (nat batchSize), wal_queryBuf = [],
                  wal_futureResp = [], wal_lsnGen = NewIDGenerator,
                  wal_flushInterval = or_default 0 defaultFlushInterval (c_FlushInterval c),
                  wal_flushBatchSize = batchSize,
                  wal_maxSegmentSize = or_default 0 defaultMaxSegmentSize (c_MaxSegmentSize c),
                  wal_directory = or_default [] defaultDirectory (c_Directory c)\<rparr>))"

definition IsEnable :: "wal \<Rightarrow> bool" where
  "IsEnable w = wal_enable w"

type_synonym futs = "goerr option future list"

text \<open>
  \<^verbatim>\<open>Write\<close> up to the send: the new row and its future, or the early return. The future of a
  disabled log is the zero value, whose channel is nil.
\<close>

definition Write_begin :: "context_t \<Rightarrow> query \<Rightarrow> wal \<Rightarrow> futs \<Rightarrow> wal \<times> futs \<times> (row \<times> nat) option res" where
  "Write_begin ctx q w futs =
     (if \<not> wal_enable w then (w, futs, Ok None)
      else
        (let fr = length futs; futs' = futs @ [NewFutureResp] in
         case ctx_err ctx of
           Some e \<Rightarrow> (w, futs', Fail e)
         | None \<Rightarrow>
             (let (g, i) = NextID (wal_lsnGen w) in
              (w\<lparr>wal_lsnGen := g\<rparr>, futs', Ok (Some (NewRow i (q_methodID q) (q_args q), fr))))))"

definition Write_send :: "row \<Rightarrow> wal \<Rightarrow> wal \<times> unit res" where
  "Write_send r w = (case chan_send r (wal_queryCh w) of (c, x) \<Rightarrow> (w\<lparr>wal_queryCh := c\<rparr>, x))"

definition Write_register :: "nat \<Rightarrow> wal \<Rightarrow> wal" where
  "Write_register fr w = w\<lparr>wal_futureResp := wal_futureResp w @ [fr]\<rparr>"

text \<open>The whole call, when no other goroutine runs in between.\<close>

definition WAL_Write :: "context_t \<Rightarrow> query \<Rightarrow> wal \<Rightarrow> futs \<Rightarrow> wal \<times> futs \<times> nat option res" where
  "WAL_Write ctx q w futs =
     (case Write_begin ctx q w futs of
        (w1, futs1, Ok (Some (r, fr))) \<Rightarrow>
          (case Write_send r w1 of
             (w2, Ok _) \<Rightarrow> (Write_register fr w2, futs1, Ok (Some fr))
           | (w2, Fail e) \<Rightarrow> (w2, futs1, Fail e)
           | (w2, Panic) \<Rightarrow> (w2, futs1, Panic)
           | (w2, Hang) \<Rightarrow> (w2, futs1, Hang))
      | (w1, futs1, Ok None) \<Rightarrow> (w1, futs1, Ok None)
      | (w1, futs1, Fail e) \<Rightarrow> (w1, futs1, Fail e)
      | (w1, futs1, Panic) \<Rightarrow> (w1, futs1, Panic)
      | (w1, futs1, Hang) \<Rightarrow> (w1, futs1, Hang))"

section \<open>Flushing\<close>

text \<open>The first half of \<^verbatim>\<open>flush\<close>: two attempts to write the buffer; on success it is emptied.\<close>

definition flush_write :: "'s target \<Rightarrow> wal \<Rightarrow> 's \<Rightarrow> wal \<times> 's \<times> goerr option res" where
  "flush_write wr w s =
     (case WithRetry (\<lambda>_. None) 2 100000000 (Some (wr (wal_queryBuf w))) s of
        (s', Ok _) \<Rightarrow> (w\<lparr>wal_queryBuf := []\<rparr>, s', Ok None)
      | (s', Fail e) \<Rightarrow> (w, s', Ok (Some e))
      | (s', Panic) \<Rightarrow> (w, s', Panic)
      | (s', Hang) \<Rightarrow> (w, s', Hang))"

text \<open>\<^verbatim>\<open>r.Put(err); r.Done()\<close> for every future.\<close>

fun resolve_futs :: "goerr option \<Rightarrow> nat list \<Rightarrow> futs \<Rightarrow> futs res" where
  "resolve_futs err [] futs = Ok futs"
| "resolve_futs err (i # is) futs =
     (if i < length futs then
        (case FutureResp_Put err (futs ! i) of
           (f1, Ok _) \<Rightarrow>
             (case FutureResp_Done f1 of
                (f2, Ok _) \<Rightarrow> resolve_futs err is (futs[i := f2])
              | (f2, _) \<Rightarrow> Panic)
         | (f1, Hang) \<Rightarrow> Hang
         | (f1, _) \<Rightarrow> Panic)
      else Panic)"

definition flush_resolve :: "goerr option \<Rightarrow> wal \<Rightarrow> futs \<Rightarrow> wal \<times> futs res" where
  "flush_resolve err w futs =
     (let resp = wal_futureResp w in (w\<lparr>wal_futureResp := []\<rparr>, resolve_futs err resp futs))"

definition flush :: "'s target \<Rightarrow> wal \<Rightarrow> futs \<Rightarrow> 's \<Rightarrow> wal \<times> futs res \<times> 's" where
  "flush wr w futs s =
     (case flush_write wr w s of
        (w1, s1, Ok err) \<Rightarrow> (case flush_resolve err w1 futs of (w2, r) \<Rightarrow> (w2, r, s1))
      | (w1, s1, Fail e) \<Rightarrow> (w1, Fail e, s1)
      | (w1, s1, Panic) \<Rightarrow> (w1, Panic, s1)
      | (w1, s1, Hang) \<Rightarrow> (w1, Hang, s1))"

section \<open>Restoring\<close>

definition query_of :: "row \<Rightarrow> query" where
  "query_of r = NewQuery (r_methodID r) (r_args r)"

definition max_lsn :: "row list \<Rightarrow> u64 \<Rightarrow> u64" where
  "max_lsn rows l = fold (\<lambda>r l. if l < r_lsnID r then r_lsnID r else l) rows l"

text \<open>
  The goroutine of \<^verbatim>\<open>RestoreStream\<close>: what it puts into its own stream, and the generator it sets
  when it reaches the end of the stream of rows. \<open>early\<close> is the schedule of that stream.
\<close>

definition RestoreStream ::
  "bool \<Rightarrow> wal \<Rightarrow> manager \<Rightarrow> world \<Rightarrow> wal \<times> manager \<times> world \<times> query list list \<times> goerr option" where
  "RestoreStream early w m wd =
     (case RestoreSystemStream (wal_directory w) m wd of
        (m', wd', vs, e) \<Rightarrow>
          (case drain early vs e of
             (rows, Some x) \<Rightarrow> (w, m', wd', map (map query_of) rows, Some x)
           | (rows, None) \<Rightarrow>
               (w\<lparr>wal_lsnGen := NewIDGeneratorWithStart (max_lsn (concat rows) 0)\<rparr>, m', wd',
                map (map query_of) rows, None)))"

section \<open>Clients and the worker\<close>

text \<open>
  A call of \<^verbatim>\<open>Write\<close> with the wait for its future: sending, registering, waiting, and at the end
  the answer it got or the deadline.
\<close>

datatype client = Sending row nat | Registering row nat | Waiting row nat
  | Acked row "goerr option" | TimedOut row

text \<open>
  The worker: in its select, draining the channel after the cancellation, writing, or about to
  resolve the futures; the flag says that it returns after this flush. \<open>Stuck\<close> is a write that
  never returns or a panic.
\<close>

datatype phase = Selecting | Draining | Flushing bool | Resolving bool "goerr option" | Stopped | Stuck

record 's walsys =
  ws_wal :: wal
  ws_futs :: futs
  ws_out :: 's
  ws_clients :: "client list"
  ws_phase :: phase
  ws_sent :: "row list"

definition batch_full :: "wal \<Rightarrow> bool" where
  "batch_full w \<longleftrightarrow> wal_flushBatchSize w \<le> int (length (wal_queryBuf w))"

inductive wstep :: "(query \<Rightarrow> bool) \<Rightarrow> 's target \<Rightarrow> 's walsys \<Rightarrow> 's walsys \<Rightarrow> bool"
  for ok :: "query \<Rightarrow> bool" and wr :: "'s target" where
  begin_write: "ok q \<Longrightarrow> ctx_err ctx = None \<Longrightarrow>
     Write_begin ctx q (ws_wal st) (ws_futs st) = (w', futs', Ok (Some (r, fr))) \<Longrightarrow>
     wstep ok wr st
       (st\<lparr>ws_wal := w', ws_futs := futs', ws_clients := ws_clients st @ [Sending r fr]\<rparr>)"
| send: "i < length (ws_clients st) \<Longrightarrow> ws_clients st ! i = Sending r fr \<Longrightarrow>
     Write_send r (ws_wal st) = (w', Ok ()) \<Longrightarrow>
     wstep ok wr st
       (st\<lparr>ws_wal := w', ws_clients := (ws_clients st)[i := Registering r fr], ws_sent := ws_sent st @ [r]\<rparr>)"
| register: "i < length (ws_clients st) \<Longrightarrow> ws_clients st ! i = Registering r fr \<Longrightarrow>
     wstep ok wr st
       (st\<lparr>ws_wal := Write_register fr (ws_wal st), ws_clients := (ws_clients st)[i := Waiting r fr]\<rparr>)"
| answer: "i < length (ws_clients st) \<Longrightarrow> ws_clients st ! i = Waiting r fr \<Longrightarrow> fr < length (ws_futs st) \<Longrightarrow>
     FutureResp_GetResponse None (ws_futs st ! fr) = (f', Ok v) \<Longrightarrow>
     wstep ok wr st
       (st\<lparr>ws_futs := (ws_futs st)[fr := f'], ws_clients := (ws_clients st)[i := Acked r v]\<rparr>)"
| deadline: "i < length (ws_clients st) \<Longrightarrow> ws_clients st ! i = Waiting r fr \<Longrightarrow>
     wstep ok wr st (st\<lparr>ws_clients := (ws_clients st)[i := TimedOut r]\<rparr>)"
| receive: "ws_phase st = Selecting \<Longrightarrow> chan_recv (wal_queryCh (ws_wal st)) = (c, Ok (Some r)) \<Longrightarrow>
     w' = (ws_wal st)\<lparr>wal_queryCh := c, wal_queryBuf := wal_queryBuf (ws_wal st) @ [r]\<rparr> \<Longrightarrow>
     wstep ok wr st
       (st\<lparr>ws_wal := w', ws_phase := (if batch_full w' then Flushing False else Selecting)\<rparr>)"
| tick: "ws_phase st = Selecting \<Longrightarrow> wal_queryBuf (ws_wal st) \<noteq> [] \<Longrightarrow>
     wstep ok wr st (st\<lparr>ws_phase := Flushing False\<rparr>)"
| cancel: "ws_phase st = Selecting \<Longrightarrow> wstep ok wr st (st\<lparr>ws_phase := Draining\<rparr>)"
| drain_one: "ws_phase st = Draining \<Longrightarrow> chan_recv (wal_queryCh (ws_wal st)) = (c, Ok (Some r)) \<Longrightarrow>
     wstep ok wr st
       (st\<lparr>ws_wal := (ws_wal st)\<lparr>wal_queryCh := c, wal_queryBuf := wal_queryBuf (ws_wal st) @ [r]\<rparr>\<rparr>)"
| drain_end: "ws_phase st = Draining \<Longrightarrow> buf (wal_queryCh (ws_wal st)) = [] \<Longrightarrow>
     wstep ok wr st (st\<lparr>ws_phase := Flushing True\<rparr>)"
| written: "ws_phase st = Flushing l \<Longrightarrow> flush_write wr (ws_wal st) (ws_out st) = (w', s', Ok err) \<Longrightarrow>
     wstep ok wr st (st\<lparr>ws_wal := w', ws_out := s', ws_phase := Resolving l err\<rparr>)"
| write_hangs: "ws_phase st = Flushing l \<Longrightarrow> flush_write wr (ws_wal st) (ws_out st) = (w', s', Hang) \<Longrightarrow>
     wstep ok wr st (st\<lparr>ws_wal := w', ws_out := s', ws_phase := Stuck\<rparr>)"
| resolved: "ws_phase st = Resolving l err \<Longrightarrow> flush_resolve err (ws_wal st) (ws_futs st) = (w', Ok futs') \<Longrightarrow>
     wstep ok wr st
       (st\<lparr>ws_wal := w', ws_futs := futs', ws_phase := (if l then Stopped else Selecting)\<rparr>)"

text \<open>The system with the worker at the head of its loop, or without one when the log is disabled.\<close>

definition wal_start :: "wal \<Rightarrow> 's \<Rightarrow> 's walsys" where
  "wal_start w s = \<lparr>ws_wal = w, ws_futs = [], ws_out = s, ws_clients = [],
     ws_phase = (if wal_enable w then Selecting else Stopped), ws_sent = []\<rparr>"

text \<open>
  \<^verbatim>\<open>Start\<close>: the goroutine of the worker begins with \<^verbatim>\<open>time.NewTicker\<close>, which panics unless the interval
  is positive; nothing recovers that panic.
\<close>

definition NewTicker :: "int \<Rightarrow> unit res" where
  "NewTicker d = (if d \<le> 0 then Panic else Ok ())"

definition WAL_Start :: "wal \<Rightarrow> 's \<Rightarrow> 's walsys res" where
  "WAL_Start w s =
     (if \<not> wal_enable w then Ok (wal_start w s)
      else then_res (NewTicker (wal_flushInterval w)) (\<lambda>_. Ok (wal_start w s)))"

text \<open>The constructor accepts a negative interval, which ends the process when the worker starts.\<close>

lemma WAL_Start_outcome:
  assumes "NewWAL c = Ok w"
  shows "WAL_Start w s = (if c_Enable c \<and> c_FlushInterval c < 0 then Panic else Ok (wal_start w s))"
  using assms by (auto simp: NewWAL_def WAL_Start_def NewTicker_def Let_def or_default_def defaultFlushInterval_def split: if_splits)

section \<open>The rows\<close>

definition query_ok :: "query \<Rightarrow> bool" where
  "query_ok q \<longleftrightarrow> length (q_args q) < 65536 \<and> list_all (\<lambda>a. length a \<le> 65535) (q_args q)"

lemma row_of_query_ok: "query_ok q \<Longrightarrow> row_ok (NewRow i (q_methodID q) (q_args q))"
  by (simp add: query_ok_def row_ok_def NewRow_def)

lemma WithRetry_first_ok: "f s = (s', Ok v) \<Longrightarrow> WithRetry wait 2 d (Some f) s = (s', Ok v)"
  by (simp add: WithRetry_def retry_count_def numeral_2_eq_2)

fun client_row_ok :: "client \<Rightarrow> bool" where
  "client_row_ok (Sending r f) = row_ok r"
| "client_row_ok _ = True"

text \<open>
  The rows sent so far are, in the order of the sends, those in the log, then those in the
  buffer, then those in the channel; \<open>N\<close> bounds the number of sends.
\<close>

definition rows_inv :: "(nat \<Rightarrow> 's \<Rightarrow> row list \<Rightarrow> bool) \<Rightarrow> nat \<Rightarrow> row list \<Rightarrow> 's walsys \<Rightarrow> bool" where
  "rows_inv has N xs0 st \<longleftrightarrow> (length (ws_sent st) \<le> N \<longrightarrow>
     (let qb = wal_queryBuf (ws_wal st); ch = buf (wal_queryCh (ws_wal st)) in
      (\<exists>xs. has (N - length (ws_sent st) + length ch + length qb) (ws_out st) xs \<and> xs @ qb @ ch = xs0 @ ws_sent st) \<and>
      list_all row_ok (qb @ ch) \<and> list_all client_row_ok (ws_clients st) \<and> ws_phase st \<noteq> Stuck \<and>
      (\<forall>l e. ws_phase st = Resolving l e \<longrightarrow> e = None \<and> qb = []) \<and> (ws_phase st = Stopped \<longrightarrow> qb = [])))"

lemma list_all_update: "list_all P xs \<Longrightarrow> P y \<Longrightarrow> list_all P (xs[i := y])"
  by (auto simp: list_all_iff dest: set_update_subset_insert [THEN subsetD])

context log_target
begin

lemma flush_write_ok:
  assumes "thas (k + length (wal_queryBuf w)) s xs" and "list_all row_ok (wal_queryBuf w)"
  shows "\<exists>s'. flush_write twrite w s = (w\<lparr>wal_queryBuf := []\<rparr>, s', Ok None) \<and> thas k s' (xs @ wal_queryBuf w)"
proof -
  obtain s' where "twrite (wal_queryBuf w) s = (s', Ok ())" "thas k s' (xs @ wal_queryBuf w)"
    using twrite_ok [OF assms] by blast
  then show ?thesis by (simp add: flush_write_def WithRetry_first_ok)
qed

text \<open>A flush succeeds and leaves the buffer empty.\<close>

lemma rows_inv_flush:
  assumes "rows_inv thas N xs0 st" and "length (ws_sent st) \<le> N"
  obtains s' xs where "flush_write twrite (ws_wal st) (ws_out st) = ((ws_wal st)\<lparr>wal_queryBuf := []\<rparr>, s', Ok None)"
    "thas (N - length (ws_sent st) + length (buf (wal_queryCh (ws_wal st)))) s' xs"
    "xs @ buf (wal_queryCh (ws_wal st)) = xs0 @ ws_sent st"
proof -
  obtain xs where xs: "thas (N - length (ws_sent st) + length (buf (wal_queryCh (ws_wal st))) + length (wal_queryBuf (ws_wal st))) (ws_out st) xs"
    "list_all row_ok (wal_queryBuf (ws_wal st))" "xs @ wal_queryBuf (ws_wal st) @ buf (wal_queryCh (ws_wal st)) = xs0 @ ws_sent st"
    using assms by (auto simp: rows_inv_def Let_def)
  with flush_write_ok [OF xs(1,2)] that [of _ "xs @ wal_queryBuf (ws_wal st)"] show thesis by auto
qed

lemma rows_inv_step:
  assumes "wstep query_ok twrite st st'" and "rows_inv thas N xs0 st"
  shows "rows_inv thas N xs0 st'"
  using assms(1)
proof cases
  case (begin_write q ctx w' futs' r fr)
  then have "wal_queryBuf w' = wal_queryBuf (ws_wal st)" "wal_queryCh w' = wal_queryCh (ws_wal st)" "row_ok r"
    by (auto simp: Write_begin_def NextID_def Let_def row_of_query_ok split: if_splits)
  with begin_write(1) assms(2) show ?thesis by (auto simp: rows_inv_def Let_def)
next
  case (send i r fr w')
  then have w': "buf (wal_queryCh w') = buf (wal_queryCh (ws_wal st)) @ [r]" "wal_queryBuf w' = wal_queryBuf (ws_wal st)"
    by (auto simp: Write_send_def chan_send_def split: if_splits)
  have "row_ok r" if "list_all client_row_ok (ws_clients st)"
    using that send(2,3) by (fastforce simp: list_all_length)
  then show ?thesis
    using assms(2) send(1) w'
    by (auto simp: rows_inv_def Let_def Suc_diff_Suc list_all_update)
next
  case (written l w' s' err)
  show ?thesis
  proof (cases "length (ws_sent st) \<le> N")
    case True
    show ?thesis by (rule rows_inv_flush [OF assms(2) True]) (use written assms(2) in \<open>auto simp: rows_inv_def Let_def\<close>)
  qed (simp add: rows_inv_def written(1))
next
  case (write_hangs l w' s')
  show ?thesis
  proof (cases "length (ws_sent st) \<le> N")
    case True
    show ?thesis by (rule rows_inv_flush [OF assms(2) True]) (use write_hangs in auto)
  qed (simp add: rows_inv_def write_hangs(1))
qed (use assms(2) in \<open>auto simp: rows_inv_def Let_def Write_register_def flush_resolve_def list_all_update chan_recv_def
    split: list.splits if_splits\<close>)

lemma rows_inv_reachable:
  assumes "(wstep query_ok twrite)\<^sup>*\<^sup>* (wal_start w s) st"
    and "thas N s xs0" and "wal_queryBuf w = []" and "buf (wal_queryCh w) = []"
  shows "rows_inv thas N xs0 st"
  using assms(1)
proof (induction rule: rtranclp_induct)
  case base
  show ?case using assms(2-4) by (simp add: rows_inv_def Let_def wal_start_def)
next
  case (step y z)
  then show ?case using rows_inv_step by blast
qed

end

text \<open>The writer of the program: a log writer on the segment manager.\<close>

abbreviation wal_writer :: "(manager \<times> world) target" where
  "wal_writer \<equiv> LogWriter_Write (NewLogWriter (Some manager_target))"

interpretation lws: log_target wal_writer "log_has d" for d
  by unfold_locales (rule seg.LogWriter_ok, assumption+, rule seg.thas_less)

section \<open>The futures\<close>

fun open_ids :: "client \<Rightarrow> nat list" where
  "open_ids (Sending r f) = [f]"
| "open_ids (Registering r f) = [f]"
| "open_ids _ = []"

text \<open>
  A future that is registered, or will be, is unresolved; no future is registered twice.
\<close>

definition all_ids :: "'s walsys \<Rightarrow> nat list" where
  "all_ids st = wal_futureResp (ws_wal st) @ concat (map open_ids (ws_clients st))"

definition futs_inv :: "'s walsys \<Rightarrow> bool" where
  "futs_inv st \<longleftrightarrow> distinct (all_ids st) \<and>
     list_all (\<lambda>f. f < length (ws_futs st) \<and> ws_futs st ! f = NewFutureResp) (all_ids st)"

lemma client_split:
  assumes "i < length xs" and "xs ! i = c"
  obtains pre post where "xs = pre @ c # post" "\<And>d. xs[i := d] = pre @ d # post"
proof
  show "xs = take i xs @ c # drop (Suc i) xs" using assms id_take_nth_drop by metis
  show "xs[i := d] = take i xs @ d # drop (Suc i) xs" for d using assms by (simp add: upd_conv_take_nth_drop)
qed

text \<open>A resolved future holds its answer and is closed.\<close>

definition fut_with :: "goerr option \<Rightarrow> goerr option future" where
  "fut_with err = NewFutureResp\<lparr>buf := [err], closed := True\<rparr>"

lemma fut_with_answer: "\<exists>f'. FutureResp_GetResponse None (fut_with err) = (f', Ok err)"
  by (simp add: fut_with_def future_defs chan_defs)

lemma resolve_futs_ok:
  assumes "distinct is" and "\<forall>f\<in>set is. f < length futs \<and> futs ! f = NewFutureResp"
  shows "\<exists>futs'. resolve_futs err is futs = Ok futs' \<and> length futs' = length futs \<and>
    (\<forall>f\<in>set is. futs' ! f = fut_with err) \<and> (\<forall>j<length futs. j \<notin> set is \<longrightarrow> futs' ! j = futs ! j)"
  using assms
proof (induction "is" arbitrary: futs)
  case (Cons i "is")
  have "\<forall>f\<in>set is. f < length (futs[i := fut_with err]) \<and> futs[i := fut_with err] ! f = NewFutureResp"
    using Cons.prems by (auto simp: nth_list_update)
  then obtain futs' where "resolve_futs err is (futs[i := fut_with err]) = Ok futs'" "length futs' = length futs"
    "\<forall>f\<in>set is. futs' ! f = fut_with err" "\<forall>j<length futs. j \<notin> set is \<longrightarrow> futs' ! j = futs[i := fut_with err] ! j"
    using Cons.IH [of "futs[i := fut_with err]"] Cons.prems by auto
  moreover have "FutureResp_Put err NewFutureResp = (NewFutureResp\<lparr>buf := [err]\<rparr>, Ok ())"
    "FutureResp_Done (NewFutureResp\<lparr>buf := [err]\<rparr>) = (fut_with err, Ok ())"
    by (simp_all add: future_defs chan_defs fut_with_def)
  ultimately show ?case using Cons.prems by (auto simp: nth_list_update)
qed simp

lemma open_ids_update:
  "open_ids c = open_ids (cs ! i) \<Longrightarrow> concat (map open_ids (cs[i := c])) = concat (map open_ids cs)"
  by (metis list_update_beyond list_update_id map_update not_le)

lemma futs_inv_resolved:
  assumes "futs_inv st" and "flush_resolve err (ws_wal st) (ws_futs st) = (w', Ok futs')"
  shows "futs_inv (st\<lparr>ws_wal := w', ws_futs := futs', ws_phase := ph\<rparr>)"
proof -
  let ?st = "st\<lparr>ws_wal := w', ws_futs := futs', ws_phase := ph\<rparr>"
  have "\<forall>f\<in>set (wal_futureResp (ws_wal st)). f < length (ws_futs st) \<and> ws_futs st ! f = NewFutureResp"
    "distinct (wal_futureResp (ws_wal st))"
    using assms(1) by (auto simp: futs_inv_def all_ids_def list_all_iff)
  from resolve_futs_ok [OF this(2,1), of err] assms(2)
  have f: "w' = (ws_wal st)\<lparr>wal_futureResp := []\<rparr>" "length futs' = length (ws_futs st)"
    "\<forall>j<length (ws_futs st). j \<notin> set (wal_futureResp (ws_wal st)) \<longrightarrow> futs' ! j = ws_futs st ! j"
    by (auto simp: flush_resolve_def)
  have "f \<notin> set (wal_futureResp (ws_wal st)) \<and> f < length (ws_futs st) \<and> ws_futs st ! f = NewFutureResp"
    if "f \<in> set (all_ids ?st)" for f
    using that assms(1) unfolding futs_inv_def list_all_iff by (auto simp: all_ids_def f(1))
  moreover have "distinct (all_ids ?st)" using assms(1) by (simp add: futs_inv_def all_ids_def f(1))
  ultimately show ?thesis using f(2,3) by (simp add: futs_inv_def list_all_iff)
qed

lemma futs_inv_step:
  assumes "wstep ok wr st st'" and "futs_inv st"
  shows "futs_inv st'"
  using assms(1)
proof cases
  case (begin_write q ctx w' futs' r fr)
  then have "wal_futureResp w' = wal_futureResp (ws_wal st)" "futs' = ws_futs st @ [NewFutureResp]"
    "fr = length (ws_futs st)"
    by (auto simp: Write_begin_def NextID_def Let_def split: if_splits)
  with begin_write(1) assms(2) show ?thesis
    by (auto simp: futs_inv_def all_ids_def list_all_iff nth_append intro: less_SucI)
next
  case (send i r fr w')
  have "wal_futureResp w' = wal_futureResp (ws_wal st)" using send(4) by (auto simp: Write_send_def split: prod.splits)
  with send(1,3) assms(2) show ?thesis by (simp add: futs_inv_def all_ids_def open_ids_update)
next
  case (register i r fr)
  obtain pre post where "ws_clients st = pre @ Registering r fr # post"
    "\<And>d. (ws_clients st)[i := d] = pre @ d # post"
    using client_split [OF register(2,3)] by blast
  then show ?thesis using register(1) assms(2) by (auto simp: futs_inv_def all_ids_def Write_register_def)
next
  case (answer i r fr f' v)
  have "ws_futs st ! fr \<noteq> NewFutureResp" using answer(5) by (auto simp: future_defs chan_defs)
  then have "list_all (\<lambda>f. f < length (ws_futs st) \<and> (ws_futs st)[fr := f'] ! f = NewFutureResp) (all_ids st)"
    using assms(2) unfolding futs_inv_def list_all_iff by (metis nth_list_update_neq)
  then show ?thesis using answer(1,3) assms(2) by (simp add: futs_inv_def all_ids_def open_ids_update)
next
  case (deadline i r fr)
  then show ?thesis using assms(2) by (simp add: futs_inv_def all_ids_def open_ids_update)
next
  case (resolved l err w' futs')
  then show ?thesis using futs_inv_resolved [OF assms(2) resolved(3)] by simp
qed (use assms(2) in \<open>auto simp: futs_inv_def all_ids_def flush_write_def split: prod.splits res.splits\<close>)

lemma futs_inv_reachable:
  assumes "(wstep ok wr)\<^sup>*\<^sup>* (wal_start w s) st" and "wal_futureResp w = []"
  shows "futs_inv st"
  using assms(1)
proof (induction rule: rtranclp_induct)
  case base
  show ?case using assms(2) by (simp add: futs_inv_def all_ids_def wal_start_def)
next
  case (step y z)
  then show ?case using futs_inv_step by blast
qed

section \<open>Runs step by step\<close>

text \<open>
  A log whose channel has room for \<open>n\<close> rows and whose batch size is \<open>n\<close>, with the parts that the
  steps change: the buffer, the registered futures, the last number drawn and the channel; then the
  futures, the output, the clients, the phase and the rows sent.
\<close>

definition wal_at :: "wal \<Rightarrow> nat \<Rightarrow> row list \<Rightarrow> nat list \<Rightarrow> u64 \<Rightarrow> row list \<Rightarrow> wal" where
  "wal_at w n b fr g c = \<lparr>wal_enable = True, wal_queryCh = (make_chan n)\<lparr>buf := c\<rparr>, wal_queryBuf = b, wal_futureResp = fr,
     wal_lsnGen = \<lparr>gen_id = g\<rparr>, wal_flushInterval = wal_flushInterval w, wal_flushBatchSize = int n,
     wal_maxSegmentSize = wal_maxSegmentSize w, wal_directory = wal_directory w\<rparr>"

definition sys_at :: "wal \<Rightarrow> nat \<Rightarrow> row list \<Rightarrow> nat list \<Rightarrow> u64 \<Rightarrow> row list \<Rightarrow> futs \<Rightarrow> 's \<Rightarrow> client list \<Rightarrow> phase \<Rightarrow> row list \<Rightarrow>
    's walsys" where
  "sys_at w n b fr g c F s cl ph se =
     \<lparr>ws_wal = wal_at w n b fr g c, ws_futs = F, ws_out = s, ws_clients = cl, ws_phase = ph, ws_sent = se\<rparr>"

lemmas at_defs = sys_at_def wal_at_def

lemma wal_at_start:
  assumes "wal_enable w" "wal_queryBuf w = []" "wal_futureResp w = []" "wal_queryCh w = make_chan n"
    "wal_lsnGen w = NewIDGenerator" "wal_flushBatchSize w = int n"
  shows "wal_start w s = sys_at w n [] [] 0 [] [] s [] Selecting []"
  using assms by (cases w) (simp add: wal_start_def at_defs make_chan_def NewIDGenerator_def)

lemma wal_at_begin:
  "Write_begin Background q (wal_at w n b fr g c) F =
   (wal_at w n b fr (g + 1) c, F @ [NewFutureResp], Ok (Some (NewRow (g + 1) (q_methodID q) (q_args q), length F)))"
  by (simp add: Background_def Write_begin_def NextID_def Let_def wal_at_def)

lemma at_begin:
  assumes "ok q" "r = NewRow g' (q_methodID q) (q_args q)" "g' = g + 1" "F' = F @ [NewFutureResp]" "cl' = cl @ [Sending r (length F)]"
  shows "wstep ok wr (sys_at w n b fr g c F s cl ph se) (sys_at w n b fr g' c F' s cl' ph se)"
  using begin_write [of ok q Background "sys_at w n b fr g c F s cl ph se" "wal_at w n b fr g' c" F' r "length F" wr] assms
  by (simp add: wal_at_begin sys_at_def) (simp add: Background_def)

lemma at_send:
  assumes "i < length cl" "cl ! i = Sending r f" "length c < n" "c' = c @ [r]" "cl' = cl[i := Registering r f]" "se' = se @ [r]"
  shows "wstep ok wr (sys_at w n b fr g c F s cl ph se) (sys_at w n b fr g c' F s cl' ph se')"
  using send [of i "sys_at w n b fr g c F s cl ph se" r f "wal_at w n b fr g c'" ok wr] assms
  by (simp add: Write_send_def chan_defs at_defs)

lemma at_register:
  assumes "i < length cl" "cl ! i = Registering r f" "fr' = fr @ [f]" "cl' = cl[i := Waiting r f]"
  shows "wstep ok wr (sys_at w n b fr g c F s cl ph se) (sys_at w n b fr' g c F s cl' ph se)"
  using register [of i "sys_at w n b fr g c F s cl ph se" r f ok wr] assms by (simp add: Write_register_def at_defs)

lemma at_receive:
  assumes "b' = b @ [r]" "ph = (if n \<le> length b' then Flushing False else Selecting)"
  shows "wstep ok wr (sys_at w n b fr g (r # c) F s cl Selecting se) (sys_at w n b' fr g c F s cl ph se)"
  using receive [of "sys_at w n b fr g (r # c) F s cl Selecting se" "(make_chan n)\<lparr>buf := c\<rparr>" r "wal_at w n b' fr g c" ok wr] assms
  by (auto simp: chan_defs batch_full_def at_defs)

lemma at_tick:
  assumes "b \<noteq> []"
  shows "wstep ok wr (sys_at w n b fr g c F s cl Selecting se) (sys_at w n b fr g c F s cl (Flushing False) se)"
  using tick [of "sys_at w n b fr g c F s cl Selecting se" ok wr] assms by (simp add: at_defs)

lemma at_written:
  assumes "wr b s = (s', Ok ())"
  shows "wstep ok wr (sys_at w n b fr g c F s cl (Flushing l) se) (sys_at w n [] fr g c F s' cl (Resolving l None) se)"
  using written [of "sys_at w n b fr g c F s cl (Flushing l) se" l wr "wal_at w n [] fr g c" s' None ok] assms
  by (simp add: flush_write_def WithRetry_first_ok at_defs)

text \<open>A future with its answer, and one whose answer has been taken.\<close>

definition resolved_fut :: "goerr option future" where
  "resolved_fut = NewFutureResp\<lparr>buf := [None], closed := True\<rparr>"

definition taken_fut :: "goerr option future" where
  "taken_fut = resolved_fut\<lparr>buf := []\<rparr>"

lemma at_resolved:
  assumes "F' = [resolved_fut, resolved_fut]"
  shows "wstep ok wr (sys_at w n b [0, 1] g c [NewFutureResp, NewFutureResp] s cl (Resolving False None) se)
    (sys_at w n b [] g c F' s cl Selecting se)"
  using resolved [of "sys_at w n b [0, 1] g c [NewFutureResp, NewFutureResp] s cl (Resolving False None) se" False None
      "wal_at w n b [] g c" F' ok wr] assms
  by (simp add: flush_resolve_def future_defs chan_defs resolved_fut_def at_defs)

lemma at_answer:
  assumes "i < length cl" "cl ! i = Waiting r f" "f < length F" "F ! f = resolved_fut" "F' = F[f := taken_fut]" "cl' = cl[i := Acked r None]"
  shows "wstep ok wr (sys_at w n b fr g c F s cl ph se) (sys_at w n b fr g c F' s cl' ph se)"
  using answer [of i "sys_at w n b fr g c F s cl ph se" r f taken_fut None ok wr] assms
  by (simp add: future_defs chan_defs resolved_fut_def taken_fut_def at_defs)

section \<open>Acknowledged before written\<close>

text \<open>
  Two calls in a row whose rows are in the channel with their futures registered; the worker
  takes the first row, flushes it and resolves both futures.
\<close>

context log_target
begin

lemma early_ack_run:
  assumes has: "thas 1 s xs" and q1: "query_ok q1" and q2: "query_ok q2"
    and w: "wal_enable w" "wal_queryBuf w = []" "wal_futureResp w = []" "wal_queryCh w = make_chan n"
      "wal_lsnGen w = NewIDGenerator" "2 \<le> n" "wal_flushBatchSize w = int n"
  defines "r1 \<equiv> NewRow 1 (q_methodID q1) (q_args q1)" and "r2 \<equiv> NewRow 2 (q_methodID q2) (q_args q2)"
  shows "\<exists>st. (wstep query_ok twrite)\<^sup>*\<^sup>* (wal_start w s) st \<and> Acked r2 None \<in> set (ws_clients st) \<and>
    thas 0 (ws_out st) (xs @ [r1]) \<and> buf (wal_queryCh (ws_wal st)) = [r2] \<and> ws_sent st = [r1, r2]"
proof -
  let ?F = "NewFutureResp :: goerr option future" and ?R = "wstep query_ok twrite" and ?S = "sys_at w n"
  obtain s' where s': "twrite [r1] s = (s', Ok ())" "thas 0 s' (xs @ [r1])"
    using twrite_ok [of 0 "[r1]" s xs] has row_of_query_ok [OF q1] by (auto simp: r1_def)
  have "?R\<^sup>*\<^sup>* (wal_start w s) (?S [] [] 0 [] [] s [] Selecting [])" by (simp add: wal_at_start [OF w(1-5,7)])
  also have "?R \<dots> (?S [] [] 1 [] [?F] s [Sending r1 0] Selecting [])"
    by (rule at_begin [of query_ok q1]) (simp_all add: q1 r1_def)
  also have "?R \<dots> (?S [] [] 1 [r1] [?F] s [Registering r1 0] Selecting [r1])"
    by (rule at_send [of 0 _ r1 0]) (use w in simp_all)
  also have "?R \<dots> (?S [] [0] 1 [r1] [?F] s [Waiting r1 0] Selecting [r1])"
    by (rule at_register [of 0 _ r1 0]) simp_all
  also have "?R \<dots> (?S [] [0] 2 [r1] [?F, ?F] s [Waiting r1 0, Sending r2 1] Selecting [r1])"
    by (rule at_begin [of query_ok q2]) (simp_all add: q2 r2_def)
  also have "?R \<dots> (?S [] [0] 2 [r1, r2] [?F, ?F] s [Waiting r1 0, Registering r2 1] Selecting [r1, r2])"
    by (rule at_send [of 1 _ r2 1]) (use w in simp_all)
  also have "?R \<dots> (?S [] [0, 1] 2 [r1, r2] [?F, ?F] s [Waiting r1 0, Waiting r2 1] Selecting [r1, r2])"
    by (rule at_register [of 1 _ r2 1]) simp_all
  also have "?R \<dots> (?S [r1] [0, 1] 2 [r2] [?F, ?F] s [Waiting r1 0, Waiting r2 1] Selecting [r1, r2])"
    by (rule at_receive) (use w in simp_all)
  also have "?R \<dots> (?S [r1] [0, 1] 2 [r2] [?F, ?F] s [Waiting r1 0, Waiting r2 1] (Flushing False) [r1, r2])"
    by (rule at_tick) simp
  also have "?R \<dots> (?S [] [0, 1] 2 [r2] [?F, ?F] s' [Waiting r1 0, Waiting r2 1] (Resolving False None) [r1, r2])"
    by (rule at_written [of twrite, OF s'(1)])
  also have "?R \<dots> (?S [] [] 2 [r2] [resolved_fut, resolved_fut] s' [Waiting r1 0, Waiting r2 1] Selecting [r1, r2])"
    by (rule at_resolved) simp
  also have "?R \<dots> (?S [] [] 2 [r2] [resolved_fut, taken_fut] s' [Waiting r1 0, Acked r2 None] Selecting [r1, r2])"
    by (rule at_answer [of 1 _ r2 1]) simp_all
  finally show ?thesis using s'(2) by (intro exI conjI) (assumption, simp_all add: at_defs)
qed

end

section \<open>Numbers out of order\<close>

text \<open>
  The number of a row is drawn before the send, so two concurrent calls can be logged in the order
  opposite to their numbers: a run that ends with the rows 2, 1 in the files.
\<close>

context log_target
begin

lemma out_of_order_run:
  assumes has: "thas 2 s xs" and q1: "query_ok q1" and q2: "query_ok q2"
    and w: "wal_enable w" "wal_queryBuf w = []" "wal_futureResp w = []" "wal_queryCh w = make_chan n"
      "wal_lsnGen w = NewIDGenerator" "3 \<le> n" "wal_flushBatchSize w = int n"
  defines "r1 \<equiv> NewRow 1 (q_methodID q1) (q_args q1)" and "r2 \<equiv> NewRow 2 (q_methodID q2) (q_args q2)"
  shows "\<exists>st. (wstep query_ok twrite)\<^sup>*\<^sup>* (wal_start w s) st \<and> thas 0 (ws_out st) (xs @ [r2, r1])"
proof -
  let ?F = "NewFutureResp :: goerr option future" and ?R = "wstep query_ok twrite" and ?S = "sys_at w n"
  obtain s' where s': "twrite [r2, r1] s = (s', Ok ())" "thas 0 s' (xs @ [r2, r1])"
    using twrite_ok [of 0 "[r2, r1]" s xs] has row_of_query_ok [OF q1] row_of_query_ok [OF q2]
    by (auto simp: r1_def r2_def numeral_2_eq_2)
  have "?R\<^sup>*\<^sup>* (wal_start w s) (?S [] [] 0 [] [] s [] Selecting [])" by (simp add: wal_at_start [OF w(1-5,7)])
  also have "?R \<dots> (?S [] [] 1 [] [?F] s [Sending r1 0] Selecting [])"
    by (rule at_begin [of query_ok q1]) (simp_all add: q1 r1_def)
  also have "?R \<dots> (?S [] [] 2 [] [?F, ?F] s [Sending r1 0, Sending r2 1] Selecting [])"
    by (rule at_begin [of query_ok q2]) (simp_all add: q2 r2_def)
  also have "?R \<dots> (?S [] [] 2 [r2] [?F, ?F] s [Sending r1 0, Registering r2 1] Selecting [r2])"
    by (rule at_send [of 1 _ r2 1]) (use w in simp_all)
  also have "?R \<dots> (?S [] [] 2 [r2, r1] [?F, ?F] s [Registering r1 0, Registering r2 1] Selecting [r2, r1])"
    by (rule at_send [of 0 _ r1 0]) (use w in simp_all)
  also have "?R \<dots> (?S [r2] [] 2 [r1] [?F, ?F] s [Registering r1 0, Registering r2 1] Selecting [r2, r1])"
    by (rule at_receive) (use w in simp_all)
  also have "?R \<dots> (?S [r2, r1] [] 2 [] [?F, ?F] s [Registering r1 0, Registering r2 1] Selecting [r2, r1])"
    by (rule at_receive) (use w in simp_all)
  also have "?R \<dots> (?S [r2, r1] [] 2 [] [?F, ?F] s [Registering r1 0, Registering r2 1] (Flushing False) [r2, r1])"
    by (rule at_tick) simp
  also have "?R \<dots> (?S [] [] 2 [] [?F, ?F] s' [Registering r1 0, Registering r2 1] (Resolving False None) [r2, r1])"
    by (rule at_written [of twrite, OF s'(1)])
  finally show ?thesis using s'(2) by (intro exI conjI) (assumption, simp_all add: at_defs)
qed

end

section \<open>Writes that fail\<close>

lemma flush_retry_jitter: "jitter_ok (retry_delay (retry_base 100000000) i)"
  by (simp add: retry_base_ge3 retry_delay_ge3 jitter_ok_ge3)

lemma WithRetry_fail_twice:
  assumes "f s = (s1, Fail e1)"
  shows "WithRetry (\<lambda>_. None) 2 100000000 (Some f) s =
    (case f s1 of (s2, Fail e2) \<Rightarrow> (s2, Fail e2) | r \<Rightarrow> r)"
  using assms flush_retry_jitter
  by (auto simp: WithRetry_def retry_count_def numeral_2_eq_2 split: prod.split res.split)

definition too_large :: "row \<Rightarrow> bool" where
  "too_large r \<longleftrightarrow> list_ex (\<lambda>a. 65535 < length a) (r_args r)"

lemma createBatch_too_large: "list_ex too_large rows \<Longrightarrow> createBatch rows = Fail ErrArgTooLarge"
proof (induction rows)
  case (Cons r rows)
  consider "Marshal r = Fail ErrArgTooLarge" | b where "Marshal r = Ok b" "\<not> too_large r"
    using marshal_args_result [of "r_args r"] marshal_args_Ok_iff [of "r_args r"]
    by (fastforce simp: Marshal_def too_large_def list_ex_iff list_all_iff not_le)
  then show ?case
  proof cases
    case 2
    with Cons show ?thesis by simp
  qed simp
qed simp

lemma wal_writer_too_large: "list_ex too_large rows \<Longrightarrow> wal_writer rows s = (s, Fail ErrArgTooLarge)"
  by (auto simp: LogWriter_Write_def NewLogWriter_def LogWriter_write_def manager_target_def Manager_Write_def
      createBatch_too_large)

lemma flush_write_too_large:
  assumes "list_ex too_large (wal_queryBuf w)"
  shows "flush_write wal_writer w s = (w, s, Ok (Some ErrArgTooLarge))"
  by (simp add: flush_write_def WithRetry_fail_twice [OF wal_writer_too_large [OF assms]] wal_writer_too_large [OF assms])

text \<open>With such a row in the buffer nothing is written any more.\<close>

definition poisoned :: "(manager \<times> world) \<Rightarrow> row \<Rightarrow> (manager \<times> world) walsys \<Rightarrow> bool" where
  "poisoned s r st \<longleftrightarrow> r \<in> set (wal_queryBuf (ws_wal st)) \<and> ws_out st = s \<and> ws_phase st \<noteq> Stuck \<and>
     (\<forall>l e. ws_phase st = Resolving l e \<longrightarrow> e = Some ErrArgTooLarge)"

lemma poisoned_step:
  assumes "wstep ok wal_writer st st'" and "poisoned s r st" and "too_large r"
  shows "poisoned s r st'"
proof -
  have "list_ex too_large (wal_queryBuf (ws_wal st))"
    using assms(2,3) by (auto simp: poisoned_def list_ex_iff)
  note fw = flush_write_too_large [OF this]
  from assms(1) show ?thesis
  proof cases
    case (begin_write q ctx w' futs' r' fr)
    then have "wal_queryBuf w' = wal_queryBuf (ws_wal st)"
      by (auto simp: Write_begin_def NextID_def Let_def split: if_splits)
    with begin_write(1) assms(2) show ?thesis by (auto simp: poisoned_def)
  next
    case (send i r' fr w')
    then have "wal_queryBuf w' = wal_queryBuf (ws_wal st)" by (auto simp: Write_send_def split: prod.splits)
    with send(1) assms(2) show ?thesis by (auto simp: poisoned_def)
  next
    case (written l w' s' err)
    then show ?thesis using fw assms(2) by (auto simp: poisoned_def)
  next
    case (write_hangs l w' s')
    then show ?thesis using fw by simp
  next
    case (resolved l err w' futs')
    then show ?thesis using assms(2) by (auto simp: poisoned_def flush_resolve_def)
  qed (use assms(2) in \<open>auto simp: poisoned_def Write_register_def\<close>)
qed

lemma poisoned_reach:
  assumes "(wstep ok wal_writer)\<^sup>*\<^sup>* st st'" and "poisoned s r st" and "too_large r"
  shows "poisoned s r st'"
  using assms(1) by (induction rule: rtranclp_induct) (auto intro: assms(2) poisoned_step [OF _ _ assms(3)])

text \<open>An error of the operating system on the first attempt: the second one never returns.\<close>

lemma flush_write_io_error:
  assumes "wal_writer (wal_queryBuf w) s = (s1, Fail e)" and "list_all row_ok (wal_queryBuf w)"
    and "wal_queryBuf w \<noteq> []"
  shows "\<exists>m2. flush_write wal_writer w s = (w, (m2, snd s1), Hang)"
proof -
  have ww: "wal_writer rows t = (case Manager_Write rows (fst t) (snd t) of (m', w', r) \<Rightarrow> ((m', w'), r))"
    if "rows \<noteq> []" for rows t
    using that by (simp add: LogWriter_Write_def NewLogWriter_def LogWriter_write_def manager_target_def)
  obtain m' w' where M: "Manager_Write (wal_queryBuf w) (fst s) (snd s) = (m', w', Fail e)" "s1 = (m', w')"
    using assms(1) unfolding ww [OF assms(3)] by (auto split: prod.splits)
  obtain m2 where "Manager_Write (wal_queryBuf w) m' w' = (m2, w', Hang)"
    using Manager_Write_locked [OF Manager_Write_fail [OF assms(2) M(1)] assms(2,3)] by blast
  then have "wal_writer (wal_queryBuf w) s1 = ((m2, w'), Hang)" by (simp add: ww [OF assms(3)] M(2))
  then show ?thesis
    by (simp add: flush_write_def WithRetry_fail_twice [of "wal_writer (wal_queryBuf w)" s s1 e, OF assms(1)] M(2))
qed

text \<open>The worker waits in a write that does not return.\<close>

definition blocked :: "row list \<Rightarrow> 's \<Rightarrow> bool \<Rightarrow> 's walsys \<Rightarrow> bool" where
  "blocked b s l st \<longleftrightarrow>
     ws_phase st = Stuck \<or> ws_phase st = Flushing l \<and> wal_queryBuf (ws_wal st) = b \<and> ws_out st = s"

lemma blocked_step:
  assumes "wstep ok wr st st'" and "blocked b s l st" and "set F \<subseteq> set (wal_futureResp (ws_wal st))"
    and hang: "\<And>w. wal_queryBuf w = b \<Longrightarrow> \<exists>s2. flush_write wr w s = (w, s2, Hang)"
  shows "blocked b s l st' \<and> set F \<subseteq> set (wal_futureResp (ws_wal st'))"
  using assms(1)
proof cases
  case (begin_write q ctx w' futs' r' fr)
  then have "wal_queryBuf w' = wal_queryBuf (ws_wal st)" "wal_futureResp w' = wal_futureResp (ws_wal st)"
    by (auto simp: Write_begin_def NextID_def Let_def split: if_splits)
  with begin_write(1) assms(2,3) show ?thesis by (auto simp: blocked_def)
next
  case (send i r' fr w')
  then have "wal_queryBuf w' = wal_queryBuf (ws_wal st)" "wal_futureResp w' = wal_futureResp (ws_wal st)"
    by (auto simp: Write_send_def split: prod.splits)
  with send(1) assms(2,3) show ?thesis by (auto simp: blocked_def)
next
  case (written l' w' s' err)
  then show ?thesis using hang [of "ws_wal st"] assms(2) by (auto simp: blocked_def)
next
  case (write_hangs l' w' s')
  then show ?thesis using hang [of "ws_wal st"] assms(2,3) by (auto simp: blocked_def)
qed (use assms(2,3) in \<open>auto simp: blocked_def Write_register_def\<close>)

lemma blocked_reach:
  assumes "(wstep ok wr)\<^sup>*\<^sup>* st st'" and "blocked b s l st" and "set F \<subseteq> set (wal_futureResp (ws_wal st))"
    and hang: "\<And>w. wal_queryBuf w = b \<Longrightarrow> \<exists>s2. flush_write wr w s = (w, s2, Hang)"
  shows "blocked b s l st' \<and> set F \<subseteq> set (wal_futureResp (ws_wal st'))"
  using assms(1) by (induction rule: rtranclp_induct) (use assms(2,3) blocked_step [OF _ _ _ hang] in blast)+

text \<open>One call whose row the worker is about to write.\<close>

lemma one_row_run:
  assumes q: "ok q"
    and w: "wal_enable w" "wal_queryBuf w = []" "wal_futureResp w = []" "wal_queryCh w = make_chan n"
      "wal_lsnGen w = NewIDGenerator" "1 \<le> n" "wal_flushBatchSize w = int n"
  defines "r \<equiv> NewRow 1 (q_methodID q) (q_args q)"
  shows "\<exists>st. (wstep ok wr)\<^sup>*\<^sup>* (wal_start w s) st \<and> ws_phase st = Flushing False \<and>
    wal_queryBuf (ws_wal st) = [r] \<and> wal_futureResp (ws_wal st) = [0] \<and> ws_out st = s"
proof -
  let ?F = "NewFutureResp :: goerr option future" and ?R = "wstep ok wr" and ?S = "sys_at w n"
  have "?R\<^sup>*\<^sup>* (wal_start w s) (?S [] [] 0 [] [] s [] Selecting [])" by (simp add: wal_at_start [OF w(1-5,7)])
  also have "?R \<dots> (?S [] [] 1 [] [?F] s [Sending r 0] Selecting [])"
    by (rule at_begin [of ok q]) (simp_all add: q r_def)
  also have "?R \<dots> (?S [] [] 1 [r] [?F] s [Registering r 0] Selecting [r])"
    by (rule at_send [of 0 _ r 0]) (use w in simp_all)
  also have "?R \<dots> (?S [] [0] 1 [r] [?F] s [Waiting r 0] Selecting [r])"
    by (rule at_register [of 0 _ r 0]) simp_all
  also have "?R \<dots> (?S [r] [0] 1 [] [?F] s [Waiting r 0] (if n \<le> 1 then Flushing False else Selecting) [r])"
    by (rule at_receive) simp_all
  also have "?R\<^sup>*\<^sup>* \<dots> (?S [r] [0] 1 [] [?F] s [Waiting r 0] (Flushing False) [r])"
    by (cases "n \<le> 1") (auto intro: r_into_rtranclp at_tick)
  finally show ?thesis by (intro exI conjI) (assumption, simp_all add: at_defs)
qed

section \<open>The start\<close>

definition demo_config :: config_wal where
  "demo_config = \<lparr>c_Enable = True, c_FlushInterval = 0, c_FlushBatchSize = 0, c_MaxSegmentSize = 1000, c_Directory = ''wal''\<rparr>"

lemma NewWAL_fields:
  assumes "NewWAL c = Ok w" and "c_Enable c"
  shows "wal_enable w" "wal_queryBuf w = []" "wal_futureResp w = []" "wal_lsnGen w = NewIDGenerator"
    "wal_queryCh w = make_chan (nat (wal_flushBatchSize w))" "0 \<le> wal_flushBatchSize w"
    "buf (wal_queryCh w) = []"
  using assms by (auto simp: NewWAL_def Let_def make_chan_def split: if_splits)

definition demo_wal :: wal where
  "demo_wal = \<lparr>wal_enable = True, wal_queryCh = make_chan 100, wal_queryBuf = [], wal_futureResp = [],
     wal_lsnGen = NewIDGenerator, wal_flushInterval = 10000000, wal_flushBatchSize = 100,
     wal_maxSegmentSize = 1000, wal_directory = ''wal''\<rparr>"

lemma demo_wal: "NewWAL demo_config = Ok demo_wal"
  by (simp add: NewWAL_def demo_config_def demo_wal_def or_default_def Let_def defaultFlushBatchSize_def
      defaultFlushInterval_def)

lemma log_has_le: "log_has d n s xs \<Longrightarrow> k \<le> n \<Longrightarrow> log_has d k s xs"
  using seg.thas_less [of d k "n - k" s xs] by simp

lemma demo_log: "\<exists>s. log_has ''wal'' 3 s []"
proof -
  obtain seg w n where "mgr_ok 3 ''wal'' (NewSegmentManager NewIndexManagerMutex seg) w [(n, [])]"
    using demo_manager by blast
  then have "log_has ''wal'' 3 (NewSegmentManager NewIndexManagerMutex seg, w) []"
    unfolding log_has_def by (intro exI [of _ "[(n, [])]"]) simp
  then show ?thesis by blast
qed

section \<open>Properties\<close>

text \<open>
  C13. No row is lost, duplicated or reordered on its way into the log: for any number of
  concurrent calls of \<^verbatim>\<open>Write\<close> and any interleaving with the worker, on a disk that works, the rows
  in the log followed by those in the buffer and those in the channel are exactly the rows that
  were there at the start followed by the rows sent, in the order of the sends; the worker never
  gets stuck; and when it has stopped after a cancellation, only rows that were sent after it
  drained the channel are missing.
\<close>

theorem wal_rows_in_order:
  assumes "NewWAL c = Ok w" and "c_Enable c" and "log_has d N s xs0"
    and "WAL_Start w s = Ok st0" and "(wstep query_ok wal_writer)\<^sup>*\<^sup>* st0 st" and "length (ws_sent st) \<le> N"
  shows "\<exists>xs. log_has d 0 (ws_out st) xs \<and>
      xs @ wal_queryBuf (ws_wal st) @ buf (wal_queryCh (ws_wal st)) = xs0 @ ws_sent st \<and>
      ws_phase st \<noteq> Stuck \<and> (ws_phase st = Stopped \<longrightarrow> wal_queryBuf (ws_wal st) = [])"
proof -
  have "st0 = wal_start w s" using WAL_Start_outcome [OF assms(1), of s] assms(4) by (simp split: if_splits)
  with assms(5) have run: "(wstep query_ok wal_writer)\<^sup>*\<^sup>* (wal_start w s) st" by simp
  have "rows_inv (log_has d) N xs0 st"
    by (rule lws.rows_inv_reachable [OF run assms(3)]) (rule NewWAL_fields [OF assms(1,2)])+
  then obtain xs k where "log_has d (0 + k) (ws_out st) xs"
    "xs @ wal_queryBuf (ws_wal st) @ buf (wal_queryCh (ws_wal st)) = xs0 @ ws_sent st"
    "ws_phase st \<noteq> Stuck" "ws_phase st = Stopped \<longrightarrow> wal_queryBuf (ws_wal st) = []"
    using assms(6) by (auto simp: rows_inv_def Let_def)
  then show ?thesis using lws.thas_less by blast
qed

theorem wal_rows_in_order_witness:
  "\<exists>s st xs. (wstep query_ok wal_writer)\<^sup>*\<^sup>* (wal_start demo_wal s) st \<and> ws_sent st =
       [NewRow 1 SetMethodID [''a'', ''1''], NewRow 2 SetMethodID [''b'', ''2'']] \<and>
     log_has ''wal'' 0 (ws_out st) xs \<and> xs @ wal_queryBuf (ws_wal st) @ buf (wal_queryCh (ws_wal st)) = ws_sent st"
proof -
  obtain s where s: "log_has ''wal'' 3 s []" using demo_log by blast
  have s1: "log_has ''wal'' 1 s []" "log_has ''wal'' 2 s []" by (rule log_has_le [OF s], simp)+
  have q: "query_ok (NewQuery SetMethodID [''a'', ''1''])" "query_ok (NewQuery SetMethodID [''b'', ''2''])"
    by (simp_all add: query_ok_def NewQuery_def)
  obtain st where st: "(wstep query_ok wal_writer)\<^sup>*\<^sup>* (wal_start demo_wal s) st"
    "ws_sent st = [NewRow 1 SetMethodID [''a'', ''1''], NewRow 2 SetMethodID [''b'', ''2'']]"
    using lws.early_ack_run [OF s1(1) q, of demo_wal 100]
    by (auto simp: demo_wal_def NewQuery_def)
  have "length (ws_sent st) \<le> 2" by (simp add: st(2))
  moreover have "c_Enable demo_config" by (simp add: demo_config_def)
  moreover have "WAL_Start demo_wal s = Ok (wal_start demo_wal s)" by (simp add: WAL_Start_outcome [OF demo_wal] demo_config_def)
  ultimately obtain xs where "log_has ''wal'' 0 (ws_out st) xs"
    "xs @ wal_queryBuf (ws_wal st) @ buf (wal_queryCh (ws_wal st)) = ws_sent st"
    using wal_rows_in_order [OF demo_wal _ s1(2) _ st(1)] by auto
  with st show ?thesis by blast
qed

text \<open>
  C21. Resolving futures cannot go wrong: in every reachable state of every interleaving, with any
  writer, the worker that is about to resolve the registered futures neither blocks nor panics on
  a closed channel, and afterwards each of these futures gives its waiting call the result of the
  flush.
\<close>

theorem wal_futures_resolvable:
  assumes "NewWAL c = Ok w" and "c_Enable c" and "(wstep ok wr)\<^sup>*\<^sup>* (wal_start w s) st"
  shows "\<exists>futs. snd (flush_resolve err (ws_wal st) (ws_futs st)) = Ok futs \<and>
    list_all (\<lambda>f. f < length futs \<and> (\<exists>f'. FutureResp_GetResponse None (futs ! f) = (f', Ok err))) (wal_futureResp (ws_wal st))"
proof -
  have inv: "futs_inv st" by (rule futs_inv_reachable [OF assms(3) NewWAL_fields(3) [OF assms(1,2)]])
  then have "distinct (wal_futureResp (ws_wal st))"
    "\<forall>f\<in>set (wal_futureResp (ws_wal st)). f < length (ws_futs st) \<and> ws_futs st ! f = NewFutureResp"
    by (auto simp: futs_inv_def all_ids_def list_all_iff)
  from resolve_futs_ok [OF this, of err] this(2) show ?thesis
    using fut_with_answer [of err] by (auto simp: flush_resolve_def list_all_iff)
qed

text \<open>A call whose row has been written by the segment manager; its future is registered and unresolved.\<close>

theorem wal_futures_resolvable_witness:
  "\<exists>s st futs f'. (wstep query_ok wal_writer)\<^sup>*\<^sup>* (wal_start demo_wal s) st \<and> ws_phase st = Resolving False None \<and>
     wal_futureResp (ws_wal st) = [0] \<and> snd (flush_resolve None (ws_wal st) (ws_futs st)) = Ok futs \<and>
     FutureResp_GetResponse None (futs ! 0) = (f', Ok None)"
proof -
  let ?q = "NewQuery SetMethodID [''a'', ''1'']"
  obtain s where s: "log_has ''wal'' 3 s []" using demo_log by blast
  have q: "query_ok ?q" by (simp add: query_ok_def NewQuery_def)
  obtain st where st: "(wstep query_ok wal_writer)\<^sup>*\<^sup>* (wal_start demo_wal s) st" "ws_phase st = Flushing False"
    "wal_queryBuf (ws_wal st) = [NewRow 1 (q_methodID ?q) (q_args ?q)]" "wal_futureResp (ws_wal st) = [0]" "ws_out st = s"
    using one_row_run [of query_ok ?q demo_wal 100 wal_writer s] q by (auto simp: demo_wal_def)
  have "log_has ''wal'' (0 + length (wal_queryBuf (ws_wal st))) (ws_out st) []" using log_has_le [OF s] st(3,5) by simp
  moreover have "list_all row_ok (wal_queryBuf (ws_wal st))" using row_of_query_ok [OF q] st(3) by simp
  ultimately obtain s' where fw: "flush_write wal_writer (ws_wal st) (ws_out st) = ((ws_wal st)\<lparr>wal_queryBuf := []\<rparr>, s', Ok None)"
    using lws.flush_write_ok by blast
  define st2 where "st2 = st\<lparr>ws_wal := (ws_wal st)\<lparr>wal_queryBuf := []\<rparr>, ws_out := s', ws_phase := Resolving False None\<rparr>"
  have "wstep query_ok wal_writer st st2" unfolding st2_def by (rule written [OF st(2) fw])
  with st(1) have run: "(wstep query_ok wal_writer)\<^sup>*\<^sup>* (wal_start demo_wal s) st2" by (rule rtranclp.rtrancl_into_rtrancl)
  have st2: "ws_phase st2 = Resolving False None" "wal_futureResp (ws_wal st2) = [0]" using st(4) by (simp_all add: st2_def)
  have "c_Enable demo_config" by (simp add: demo_config_def)
  from wal_futures_resolvable [OF demo_wal this run, of None] st2 obtain futs f' where
    "snd (flush_resolve None (ws_wal st2) (ws_futs st2)) = Ok futs" "FutureResp_GetResponse None (futs ! 0) = (f', Ok None)"
    by auto
  with run st2 show ?thesis by blast
qed

text \<open>
  C27. A write can be acknowledged before it is in the log: from every consistent log there is a
  run of two concurrent calls in which the second one gets the answer \<^verbatim>\<open>nil\<close> while its row is
  still in the channel and the files hold only the first row; a crash at this point loses an
  acknowledged write.
\<close>

theorem wal_acknowledges_unwritten:
  assumes "log_has d 1 s xs" and "query_ok q1" and "query_ok q2"
    and "NewWAL c = Ok w" and "c_Enable c" and "2 \<le> wal_flushBatchSize w"
  shows "\<exists>st. (wstep query_ok wal_writer)\<^sup>*\<^sup>* (wal_start w s) st \<and>
    Acked (NewRow 2 (q_methodID q2) (q_args q2)) None \<in> set (ws_clients st) \<and>
    log_has d 0 (ws_out st) (xs @ [NewRow 1 (q_methodID q1) (q_args q1)]) \<and>
    buf (wal_queryCh (ws_wal st)) = [NewRow 2 (q_methodID q2) (q_args q2)]"
proof -
  note f = NewWAL_fields [OF assms(4,5)]
  show ?thesis
    using lws.early_ack_run [OF assms(1-3) f(1-3,5,4)] assms(6) by auto
qed

theorem wal_acknowledges_unwritten_witness:
  "\<exists>s st. (wstep query_ok wal_writer)\<^sup>*\<^sup>* (wal_start demo_wal s) st \<and>
     Acked (NewRow 2 DelMethodID [''k'']) None \<in> set (ws_clients st) \<and>
     log_has ''wal'' 0 (ws_out st) [NewRow 1 SetMethodID [''k'', ''v'']]"
proof -
  obtain s where s: "log_has ''wal'' 3 s []" using demo_log by blast
  have "log_has ''wal'' 1 s []" by (rule log_has_le [OF s]) simp
  from wal_acknowledges_unwritten [OF this, of "NewQuery SetMethodID [''k'', ''v'']" "NewQuery DelMethodID [''k'']",
      OF _ _ demo_wal]
  obtain st where "(wstep query_ok wal_writer)\<^sup>*\<^sup>* (wal_start demo_wal s) st"
    "Acked (NewRow 2 DelMethodID [''k'']) None \<in> set (ws_clients st)"
    "log_has ''wal'' 0 (ws_out st) [NewRow 1 SetMethodID [''k'', ''v'']]"
    by (auto simp: demo_config_def query_ok_def NewQuery_def demo_wal_def)
  then show ?thesis by blast
qed

text \<open>
  C33. One oversized argument stops the log for good: a row with an argument of more than 65535
  bytes that has reached the buffer stays there in every continuation, nothing is written to the
  files any more, and every flush answers all registered calls with the error of that row.
\<close>

theorem oversized_row_wedges_wal:
  assumes "(wstep ok wal_writer)\<^sup>*\<^sup>* st st'" and "ws_phase st = Selecting"
    and "r \<in> set (wal_queryBuf (ws_wal st))" and "a \<in> set (r_args r)" and "65535 < length a"
  shows "r \<in> set (wal_queryBuf (ws_wal st')) \<and> ws_out st' = ws_out st \<and>
    (\<forall>l e. ws_phase st' = Resolving l e \<longrightarrow> e = Some ErrArgTooLarge)"
proof -
  have "too_large r" using assms(4,5) by (auto simp: too_large_def list_ex_iff)
  moreover have "poisoned (ws_out st) r st" using assms(2,3) by (simp add: poisoned_def)
  ultimately show ?thesis using poisoned_reach [OF assms(1), of "ws_out st" r] by (auto simp: poisoned_def)
qed

theorem oversized_row_wedges_wal_witness:
  "\<exists>(st :: (manager \<times> world) walsys) st' r. (wstep (\<lambda>_. True) wal_writer)\<^sup>*\<^sup>* st st' \<and>
     ws_phase st' = Resolving False (Some ErrArgTooLarge) \<and>
     r \<in> set (wal_queryBuf (ws_wal st')) \<and> ws_out st' = ws_out st"
proof -
  define r where "r = NewRow 1 SetMethodID [''k'', replicate 65536 (CHR ''x'')]"
  define w where "w = demo_wal\<lparr>wal_queryBuf := [r]\<rparr>"
  have large: "replicate 65536 (CHR ''x'') \<in> set (r_args r)" "65535 < length (replicate 65536 (CHR ''x''))"
    by (simp_all add: r_def NewRow_def)
  have "too_large r" unfolding too_large_def list_ex_iff by (rule bexI [OF _ large(1)]) simp
  then have "list_ex too_large (wal_queryBuf w)" by (simp add: w_def)
  note fw = flush_write_too_large [OF this]
  obtain s where s: "log_has ''wal'' 3 s []" using demo_log by blast
  let ?st = "wal_start w s"
  have sel: "ws_phase ?st = Selecting" "wal_queryBuf (ws_wal ?st) = [r]"
    by (simp_all add: wal_start_def w_def demo_wal_def)
  let ?st1 = "?st\<lparr>ws_phase := Flushing False\<rparr>"
  let ?st2 = "?st1\<lparr>ws_wal := w, ws_out := s, ws_phase := Resolving False (Some ErrArgTooLarge)\<rparr>"
  have "wstep (\<lambda>_. True) wal_writer ?st ?st1" by (rule tick) (simp_all add: sel)
  moreover have "wstep (\<lambda>_. True) wal_writer ?st1 ?st2"
    by (rule written) (simp_all add: wal_start_def fw)
  ultimately have run: "(wstep (\<lambda>_. True) wal_writer)\<^sup>*\<^sup>* ?st ?st2" by simp
  have "r \<in> set (wal_queryBuf (ws_wal ?st))" by (simp add: sel)
  from oversized_row_wedges_wal [OF run sel(1) this large] run show ?thesis
    by (metis select_convs(5) surjective update_convs(5))
qed

text \<open>
  C34. One failed disk write stops the log for good: when the operating system fails the write of
  a flush, the retry blocks on the mutex that the failed attempt left locked; the worker never
  leaves this flush, and the futures registered so far are never resolved, in any continuation.
\<close>

theorem failed_flush_stops_worker:
  assumes "NewWAL c = Ok w" and "c_Enable c" and "(wstep ok wal_writer)\<^sup>*\<^sup>* (wal_start w s) st"
    and "ws_phase st = Flushing l" and "wal_queryBuf (ws_wal st) \<noteq> []" and "list_all row_ok (wal_queryBuf (ws_wal st))"
    and "wal_writer (wal_queryBuf (ws_wal st)) (ws_out st) = (s1, Fail e)"
    and "(wstep ok wal_writer)\<^sup>*\<^sup>* st st'"
  shows "(ws_phase st' = Flushing l \<or> ws_phase st' = Stuck) \<and>
    list_all (\<lambda>f. ws_futs st' ! f = NewFutureResp) (wal_futureResp (ws_wal st))"
proof -
  have hang: "\<exists>s2. flush_write wal_writer v (ws_out st) = (v, s2, Hang)"
    if "wal_queryBuf v = wal_queryBuf (ws_wal st)" for v
    using flush_write_io_error [of v "ws_out st" s1 e] that assms(5-7) by auto
  have "blocked (wal_queryBuf (ws_wal st)) (ws_out st) l st" using assms(4) by (simp add: blocked_def)
  from blocked_reach [OF assms(8) this subset_refl hang]
  have "blocked (wal_queryBuf (ws_wal st)) (ws_out st) l st'"
    "set (wal_futureResp (ws_wal st)) \<subseteq> set (wal_futureResp (ws_wal st'))" by blast+
  moreover have "futs_inv st'"
    by (rule futs_inv_reachable [OF rtranclp_trans [OF assms(3,8)] NewWAL_fields(3) [OF assms(1,2)]])
  ultimately show ?thesis by (auto simp: blocked_def futs_inv_def all_ids_def list_all_iff)
qed

theorem failed_flush_stops_worker_witness:
  "\<exists>s (st :: (manager \<times> world) walsys). (wstep (\<lambda>_. True) wal_writer)\<^sup>*\<^sup>* (wal_start demo_wal s) st \<and>
     (\<exists>s1. wal_writer (wal_queryBuf (ws_wal st)) (ws_out st) = (s1, Fail (IOErr ''no space left''))) \<and>
     wal_futureResp (ws_wal st) = [0] \<and> ws_futs st ! 0 = NewFutureResp \<and>
     (ws_phase st = Flushing False \<or> ws_phase st = Stuck)"
proof -
  let ?r = "NewRow 1 SetMethodID [''k'', ''v'']" and ?q = "NewQuery SetMethodID [''k'', ''v'']"
  obtain seg w n where m: "fs_maxSize seg = 1000"
    "mgr_rel 3 ''wal'' (NewSegmentManager NewIndexManagerMutex seg) w [(n, [])]"
    using demo_manager [of 1000] by (auto simp: mgr_ok_def)
  let ?m = "NewSegmentManager NewIndexManagerMutex seg"
  have r: "row_ok ?r" "length (enc ?r) = 17" by (simp_all add: row_ok_def NewRow_def enc_def Marshal_def)
  then obtain m' w' where W: "Manager_Write [?r] ?m (w\<lparr>w_faults := [Fault 0 (IOErr ''no space left'')]\<rparr>) =
      (m', w', Fail (IOErr ''no space left''))"
    using Manager_Write_disk_full [OF m(2), of ?r "''no space left''"] m
    by (auto simp: NewSegmentManager_def mgr_rel_def)
  define s where "s = (?m, w\<lparr>w_faults := [Fault 0 (IOErr ''no space left'')]\<rparr>)"
  have io: "wal_writer [?r] s = ((m', w'), Fail (IOErr ''no space left''))"
    using W by (simp add: s_def LogWriter_Write_def NewLogWriter_def LogWriter_write_def manager_target_def)
  obtain st where st: "(wstep (\<lambda>_. True) wal_writer)\<^sup>*\<^sup>* (wal_start demo_wal s) st" "ws_phase st = Flushing False"
    "wal_queryBuf (ws_wal st) = [?r]" "wal_futureResp (ws_wal st) = [0]" "ws_out st = s"
    using one_row_run [of "\<lambda>_. True" ?q demo_wal 100 wal_writer s] by (auto simp: demo_wal_def NewQuery_def)
  have "(ws_phase st = Flushing False \<or> ws_phase st = Stuck) \<and>
      list_all (\<lambda>f. ws_futs st ! f = NewFutureResp) (wal_futureResp (ws_wal st))"
    by (rule failed_flush_stops_worker [OF demo_wal _ st(1,2) _ _ _ rtranclp.rtrancl_refl,
          where ?s1.0 = "(m', w')" and e = "IOErr ''no space left''"])
      (use r io st in \<open>simp_all add: demo_config_def\<close>)
  then have "ws_futs st ! 0 = NewFutureResp" "ws_phase st = Flushing False \<or> ws_phase st = Stuck"
    by (simp_all add: st(4))
  moreover have "wal_writer (wal_queryBuf (ws_wal st)) (ws_out st) = ((m', w'), Fail (IOErr ''no space left''))"
    using io st(3,5) by simp
  ultimately show ?thesis using st(1,4) by blast
qed

end
