(* ===== verification/Database.thy ===== *)
theory Database
  imports Storage Wal
begin

text \<open>
  \<^verbatim>\<open>internal/database/database.go\<close>: executing queries, logging the writes first, and restoring the
  storage from the log at the start. Between the registration of a write and the answer of its
  future the worker and other calls run; what they do is the parameter \<open>env\<close>, a function on the
  state they share. \<open>early\<close> and \<open>late\<close> are the errors of the one-second deadline context before
  and during the wait.
\<close>

section \<open>The database\<close>

record 's database =
  db_st :: storage
  db_wal :: wal
  db_futs :: futs
  db_out :: 's
  db_isMaster :: bool

text \<open>What the goroutines besides the call share: the log object, the futures and the files.\<close>

type_synonym 's env = "wal \<times> futs \<times> 's \<Rightarrow> wal \<times> futs \<times> 's"

record waiting =
  wt_early :: "goerr option"
  wt_late :: "goerr option"
  wt_pick :: bool

text \<open>
  The values \<^verbatim>\<open>errV\<close> and \<^verbatim>\<open>err\<close> of \<^verbatim>\<open>GetResponseWithDeadline\<close>: the first is the error the
  worker put, the second the one of the context.
\<close>

definition setInWal :: "context_t \<Rightarrow> waiting \<Rightarrow> 's env \<Rightarrow> query \<Rightarrow> 's database \<Rightarrow> 's database \<times> unit res" where
  "setInWal ctx wt env q db =
     (if q_methodID q = GetMethodID then (db, Ok ())
      else
        (case WAL_Write ctx q (db_wal db) (db_futs db) of
           (w1, futs1, Ok (Some fr)) \<Rightarrow>
             (case env (w1, futs1, db_out db) of
                (w2, futs2, s2) \<Rightarrow>
                  (case FutureResp_GetResponseWithDeadline (wt_early wt) (wt_late wt) (wt_pick wt) None (futs2 ! fr) of
                     (f', r) \<Rightarrow>
                       (db\<lparr>db_wal := w2, db_futs := futs2[fr := f'], db_out := s2\<rparr>,
                        case r of
                          Ok (Some errV) \<Rightarrow> Fail errV
                        | Ok None \<Rightarrow> Ok ()
                        | Fail e \<Rightarrow> Fail e
                        | Panic \<Rightarrow> Panic
                        | Hang \<Rightarrow> Hang)))
         | (w1, futs1, Ok None) \<Rightarrow> (db\<lparr>db_wal := w1, db_futs := futs1\<rparr>, Hang)
         | (w1, futs1, Fail e) \<Rightarrow> (db\<lparr>db_wal := w1, db_futs := futs1\<rparr>, Fail e)
         | (w1, futs1, Panic) \<Rightarrow> (db\<lparr>db_wal := w1, db_futs := futs1\<rparr>, Panic)
         | (w1, futs1, Hang) \<Rightarrow> (db\<lparr>db_wal := w1, db_futs := futs1\<rparr>, Hang)))"

text \<open>Positional arguments outside the slice panic.\<close>

definition exec :: "context_t \<Rightarrow> query \<Rightarrow> storage \<Rightarrow> storage \<times> string res" where
  "exec ctx q st =
     (let args = q_args q; method = q_methodID q in
      if method = GetMethodID then
        (case go_index args GetKeyIdx of
           Ok k \<Rightarrow> Storage_Get ctx k st
         | _ \<Rightarrow> (st, Panic))
      else if method = SetMethodID then
        (case (go_index args SetKeyIdx, go_index args SetValueIdx) of
           (Ok k, Ok v) \<Rightarrow> (case Storage_Set ctx k v st of (st', r) \<Rightarrow> (st', then_res r (\<lambda>_. Ok ''OK'')))
         | _ \<Rightarrow> (st, Panic))
      else if method = DelMethodID then
        (case go_index args DelKeyIdx of
           Ok k \<Rightarrow> (case Storage_Delete ctx k st of (st', r) \<Rightarrow> (st', then_res r (\<lambda>_. Ok ''OK'')))
         | _ \<Rightarrow> (st, Panic))
      else (st, Fail (ErrUnknownCommand method)))"

definition Execute :: "context_t \<Rightarrow> waiting \<Rightarrow> 's env \<Rightarrow> query \<Rightarrow> 's database \<Rightarrow> 's database \<times> string res" where
  "Execute ctx wt env q db =
     (case (if IsEnable (db_wal db) then setInWal ctx wt env q db else (db, Ok ())) of
        (db1, Ok _) \<Rightarrow>
          if \<not> db_isMaster db1 \<and> q_methodID q \<noteq> GetMethodID then (db1, Fail ErrNonReadOpSlave)
          else (case exec ctx q (db_st db1) of (st', r) \<Rightarrow> (db1\<lparr>db_st := st'\<rparr>, r))
      | (db1, Fail e) \<Rightarrow> (db1, Fail e)
      | (db1, Panic) \<Rightarrow> (db1, Panic)
      | (db1, Hang) \<Rightarrow> (db1, Hang))"

section \<open>Restoring\<close>

fun exec_all :: "query list \<Rightarrow> storage \<Rightarrow> storage \<times> unit res" where
  "exec_all [] st = (st, Ok ())"
| "exec_all (q # qs) st =
     (case exec Background q st of
        (st', Ok _) \<Rightarrow> exec_all qs st'
      | (st', Fail e) \<Rightarrow> (st', Fail (Wrap ''execute query: '' e))
      | (st', Panic) \<Rightarrow> (st', Panic)
      | (st', Hang) \<Rightarrow> (st', Hang))"

text \<open>
  \<open>early1\<close> and \<open>early2\<close> are the schedules of the two streams. The queries that arrive before an
  error are executed before it is seen.
\<close>

definition restoreFromWal ::
  "bool \<Rightarrow> bool \<Rightarrow> (manager \<times> world) database \<Rightarrow> (manager \<times> world) database \<times> unit res" where
  "restoreFromWal early1 early2 db =
     (if \<not> IsEnable (db_wal db) then (db, Ok ())
      else
        (case RestoreStream early1 (db_wal db) (fst (db_out db)) (snd (db_out db)) of
           (w', m', wd', qs, e) \<Rightarrow>
             (let db1 = db\<lparr>db_wal := w', db_out := (m', wd')\<rparr> in
              case drain early2 qs e of
                (batches, err) \<Rightarrow>
                  (case exec_all (concat batches) (db_st db1) of
                     (st', Ok _) \<Rightarrow>
                       (db1\<lparr>db_st := st'\<rparr>,
                        case err of Some x \<Rightarrow> Fail (Wrap ''read wal: '' x) | None \<Rightarrow> Ok ())
                   | (st', r) \<Rightarrow> (db1\<lparr>db_st := st'\<rparr>, r)))))"

definition NewDatabase ::
  "bool \<Rightarrow> bool \<Rightarrow> storage \<Rightarrow> bool \<Rightarrow> wal \<Rightarrow> manager \<times> world \<Rightarrow> (manager \<times> world) database \<times> unit res" where
  "NewDatabase early1 early2 st isMaster w out =
     restoreFromWal early1 early2
       \<lparr>db_st = st, db_wal = w, db_futs = [], db_out = out, db_isMaster = isMaster\<rparr>"

section \<open>Initialisation\<close>

definition initSegmentManager :: "config_wal \<Rightarrow> world \<Rightarrow> world \<times> manager res" where
  "initSegmentManager c w =
     (case NewFileSegment (c_Directory c) (c_MaxSegmentSize c) w of
        (w', r) \<Rightarrow> (w', then_res r (\<lambda>seg. Ok (NewSegmentManager NewIndexManagerMutex seg))))"

text \<open>The log object of the program writes and reads through the segment manager.\<close>

definition initWal :: "config_wal \<Rightarrow> wal res" where
  "initWal c = NewWAL c"

text \<open>
  \<^verbatim>\<open>InitDB\<close> up to the database; the replication that it also starts is modelled with the
  replication.
\<close>

definition InitDB_core ::
  "bool \<Rightarrow> bool \<Rightarrow> string \<Rightarrow> int \<Rightarrow> config_wal \<Rightarrow> bool \<Rightarrow> world \<Rightarrow> world \<times> (manager \<times> world) database res" where
  "InitDB_core early1 early2 engType nshards c isMaster w =
     (case initSegmentManager c w of
        (w1, Ok sm) \<Rightarrow>
          (case then_res (NewEngine engType nshards) (\<lambda>eng. then_res (initWal c) (\<lambda>walObj. Ok (Storage_New eng, walObj))) of
             Ok (st, walObj) \<Rightarrow>
               (case NewDatabase early1 early2 st isMaster walObj (sm, w1) of
                  (db, r) \<Rightarrow> (snd (db_out db), then_res r (\<lambda>_. Ok db)))
           | Fail e \<Rightarrow> (w1, Fail e)
           | Panic \<Rightarrow> (w1, Panic)
           | Hang \<Rightarrow> (w1, Hang))
      | (w1, Fail e) \<Rightarrow> (w1, Fail e)
      | (w1, Panic) \<Rightarrow> (w1, Panic)
      | (w1, Hang) \<Rightarrow> (w1, Hang))"

section \<open>The worker between two calls\<close>

text \<open>The worker takes everything from the channel and flushes once.\<close>

definition worker_turn :: "'s target \<Rightarrow> 's env" where
  "worker_turn wr x =
     (case x of (w, futs, s) \<Rightarrow>
        (let w1 = w\<lparr>wal_queryCh := (wal_queryCh w)\<lparr>buf := []\<rparr>,
                     wal_queryBuf := wal_queryBuf w @ buf (wal_queryCh w)\<rparr> in
         case flush wr w1 futs s of
           (w2, Ok futs2, s2) \<Rightarrow> (w2, futs2, s2)
         | (w2, _, s2) \<Rightarrow> (w2, futs, s2)))"

section \<open>Queries as operations on a map\<close>

definition write_query :: "query \<Rightarrow> bool" where
  "write_query q \<longleftrightarrow> q_methodID q = SetMethodID \<and> 2 \<le> length (q_args q) \<or>
     q_methodID q = DelMethodID \<and> q_args q \<noteq> []"

definition qop :: "query \<Rightarrow> kvop" where
  "qop q = (if q_methodID q = SetMethodID then KSet (q_args q ! 0) (q_args q ! 1) else KDel (q_args q ! 0))"

lemma method_ids: "SetMethodID \<noteq> GetMethodID" "DelMethodID \<noteq> GetMethodID" "DelMethodID \<noteq> SetMethodID"
  by (simp_all add: SetMethodID_def GetMethodID_def DelMethodID_def)

lemmas arg_idx = SetKeyIdx_def SetValueIdx_def GetKeyIdx_def DelKeyIdx_def

lemma exec_write:
  assumes "write_query q" and "storage_inv st" and "ctx_err ctx = None"
  shows "\<exists>st'. exec ctx q st = (st', Ok ''OK'') \<and> storage_inv st' \<and> storage_abs st' = kv_apply (qop q) (storage_abs st)"
  using assms(1) st.sset_live [OF assms(2,3), of "q_args q ! 0" "q_args q ! 1"]
    st.sdel_live [OF assms(2,3), of "q_args q ! 0"]
  by (auto simp: write_query_def exec_def qop_def method_ids method_ids [symmetric] go_index_def arg_idx Let_def)

lemma exec_get:
  assumes "q_methodID q = GetMethodID" and "q_args q \<noteq> []" and "storage_inv st" and "ctx_err ctx = None"
  shows "\<exists>st'. exec ctx q st = (st', Ok (case storage_abs st (q_args q ! 0) of None \<Rightarrow> [] | Some v \<Rightarrow> v)) \<and>
    storage_inv st' \<and> storage_abs st' = storage_abs st"
  using st.sget_live [OF assms(3,4), of "q_args q ! 0"] assms(1,2)
  by (auto simp: exec_def go_index_def arg_idx Let_def)

lemma exec_all_replay:
  "list_all write_query qs \<Longrightarrow> storage_inv st \<Longrightarrow>
   \<exists>st'. exec_all qs st = (st', Ok ()) \<and> storage_inv st' \<and> storage_abs st' = kv_replay (map qop qs) (storage_abs st)"
proof (induction qs arbitrary: st)
  case (Cons q qs)
  obtain st1 where "exec Background q st = (st1, Ok ''OK'')" "storage_inv st1"
    "storage_abs st1 = kv_apply (qop q) (storage_abs st)"
    using exec_write [of q st Background] Cons.prems by (auto simp: Background_def)
  with Cons.IH [of st1] Cons.prems show ?case by auto
qed simp

lemma exec_dead: "ctx_err ctx = Some e \<Longrightarrow> write_query q \<Longrightarrow> exec ctx q st = (st, Fail e)"
  using st.sset_dead [of ctx e] st.sdel_dead [of ctx e]
  by (auto simp: write_query_def exec_def method_ids method_ids [symmetric] go_index_def arg_idx Let_def)

section \<open>Restoring\<close>

lemma drain_no_error [simp]: "drain early vs None = (vs, None)"
  by (simp add: drain_def)

lemma max_lsn_max:
  "max_lsn rows l = (if rows = [] then l else max l (Max (r_lsnID ` set rows)))"
proof (induction rows arbitrary: l)
  case (Cons r rows)
  have "max_lsn (r # rows) l = max_lsn rows (max l (r_lsnID r))"
    by (auto simp: max_lsn_def max_def)
  then show ?case using Cons by (cases "rows = []") (simp_all add: max.assoc)
qed (simp add: max_lsn_def)

lemma restoreFromWal_ok:
  assumes rd: "readable d wd fs" and m: "m_im m = NewIndexManagerMutex" "m_pending m = []"
    and w: "wal_enable w" "wal_directory w = d"
    and st: "storage_inv st" and rows: "list_all (write_query \<circ> query_of) (all_rows fs)"
  shows "\<exists>db m'. NewDatabase early1 early2 st isMaster w (m, wd) = (db, Ok ()) \<and> db_out db = (m', wd) \<and>
    idx_rel m' fs \<and> m_curSeg m' = m_curSeg m \<and> m_locked m' = m_locked m \<and> m_pending m' = [] \<and>
    storage_inv (db_st db) \<and> storage_abs (db_st db) = kv_replay (map (qop \<circ> query_of) (all_rows fs)) (storage_abs st) \<and>
    db_wal db = w\<lparr>wal_lsnGen := NewIDGeneratorWithStart (max_lsn (all_rows fs) 0)\<rparr> \<and> db_isMaster db = isMaster"
proof -
  obtain m' where m': "RestoreSystemStream d m wd = (m', wd, map snd fs, None)" "idx_rel m' fs"
    "m_curSeg m' = m_curSeg m" "m_locked m' = m_locked m" "m_pending m' = []"
    using RestoreSystemStream_ok [OF rd m] by blast
  have cc: "concat (map (map query_of) (map snd fs)) = map query_of (all_rows fs)"
    by (simp only: map_concat [symmetric] all_rows_def)
  obtain st' where "exec_all (map query_of (all_rows fs)) st = (st', Ok ())" "storage_inv st'"
    "storage_abs st' = kv_replay (map qop (map query_of (all_rows fs))) (storage_abs st)"
    using exec_all_replay [of "map query_of (all_rows fs)" st] rows st by (auto simp: list_all_iff)
  then show ?thesis
    using m' w cc by (simp add: NewDatabase_def restoreFromWal_def RestoreStream_def IsEnable_def Let_def all_rows_def)
qed

section \<open>One call and the worker\<close>

text \<open>A log object at rest: no row under way, no future registered.\<close>

definition wal_idle :: "wal \<Rightarrow> bool" where
  "wal_idle w \<longleftrightarrow> wal_enable w \<and> wal_queryBuf w = [] \<and> wal_futureResp w = [] \<and> buf (wal_queryCh w) = [] \<and>
     \<not> closed (wal_queryCh w) \<and> 0 < chan_cap (wal_queryCh w)"

definition next_row :: "query \<Rightarrow> wal \<Rightarrow> row" where
  "next_row q w = NewRow (snd (NextID (wal_lsnGen w))) (q_methodID q) (q_args q)"

definition live_wait :: waiting where
  "live_wait = \<lparr>wt_early = None, wt_late = None, wt_pick = True\<rparr>"

lemma WAL_Write_idle:
  assumes "wal_idle w" and "ctx_err ctx = None"
  shows "WAL_Write ctx q w futs =
    (w\<lparr>wal_lsnGen := fst (NextID (wal_lsnGen w)), wal_queryCh := (wal_queryCh w)\<lparr>buf := [next_row q w]\<rparr>,
       wal_futureResp := [length futs]\<rparr>, futs @ [NewFutureResp], Ok (Some (length futs)))"
  using assms by (simp add: WAL_Write_def Write_begin_def Write_send_def Write_register_def chan_send_def wal_idle_def
      next_row_def NextID_def Let_def)

lemma worker_turn_ok:
  assumes "wr [r] s = (s', Ok ())" and "wal_queryBuf w = []" and "buf (wal_queryCh w) = [r]"
    and "wal_futureResp w = [length futs]"
  shows "worker_turn wr (w, futs @ [NewFutureResp], s) =
    (w\<lparr>wal_queryCh := (wal_queryCh w)\<lparr>buf := []\<rparr>, wal_queryBuf := [], wal_futureResp := []\<rparr>,
     futs @ [NewFutureResp\<lparr>buf := [None], closed := True\<rparr>], s')"
  using assms
  by (simp add: worker_turn_def flush_def flush_write_def WithRetry_first_ok flush_resolve_def future_defs chan_defs Let_def)

lemma setInWal_ok:
  assumes idle: "wal_idle (db_wal db)" and ctx: "ctx_err ctx = None" and q: "q_methodID q \<noteq> GetMethodID"
    and wr: "wr [next_row q (db_wal db)] (db_out db) = (s', Ok ())"
  shows "\<exists>db'. setInWal ctx live_wait (worker_turn wr) q db = (db', Ok ()) \<and> db_st db' = db_st db \<and>
    db_out db' = s' \<and> wal_idle (db_wal db') \<and> db_isMaster db' = db_isMaster db \<and>
    wal_lsnGen (db_wal db') = fst (NextID (wal_lsnGen (db_wal db))) \<and> wal_directory (db_wal db') = wal_directory (db_wal db)"
proof -
  let ?r = "next_row q (db_wal db)" and ?w = "db_wal db"
  let ?w1 = "?w\<lparr>wal_lsnGen := fst (NextID (wal_lsnGen ?w)), wal_queryCh := (wal_queryCh ?w)\<lparr>buf := [?r]\<rparr>,
       wal_futureResp := [length (db_futs db)]\<rparr>"
  have "worker_turn wr (?w1, db_futs db @ [NewFutureResp], db_out db) =
    (?w1\<lparr>wal_queryCh := (wal_queryCh ?w1)\<lparr>buf := []\<rparr>, wal_queryBuf := [], wal_futureResp := []\<rparr>,
     db_futs db @ [NewFutureResp\<lparr>buf := [None], closed := True\<rparr>], s')"
    by (rule worker_turn_ok) (use wr idle in \<open>simp_all add: wal_idle_def\<close>)
  then show ?thesis
    using idle ctx q WAL_Write_idle [OF idle ctx, of q "db_futs db"]
    by (simp add: setInWal_def live_wait_def future_defs chan_defs wal_idle_def)
qed

section \<open>Storage and log agree\<close>

definition ops_of :: "row list \<Rightarrow> kvop list" where
  "ops_of rows = map (qop \<circ> query_of) rows"

text \<open>The storage is what the rows in the log replay to.\<close>

definition db_ok :: "nat \<Rightarrow> string \<Rightarrow> (manager \<times> world) database \<Rightarrow> bool" where
  "db_ok k d db \<longleftrightarrow> wal_idle (db_wal db) \<and> storage_inv (db_st db) \<and>
     (\<exists>xs. log_has d k (db_out db) xs \<and> list_all (write_query \<circ> query_of) xs \<and>
        storage_abs (db_st db) = kv_replay (ops_of xs) Map.empty)"

lemma query_of_next_row: "query_of (next_row q w) = NewQuery (q_methodID q) (q_args q)"
  by (simp add: query_of_def next_row_def NewRow_def)

lemma qop_NewQuery [simp]:
  "qop (NewQuery (q_methodID q) (q_args q)) = qop q" "write_query (NewQuery (q_methodID q) (q_args q)) = write_query q"
  by (simp_all add: qop_def NewQuery_def write_query_def)

lemma next_row_ok: "query_ok q \<Longrightarrow> row_ok (next_row q w)"
  by (simp add: next_row_def row_of_query_ok)

lemma write_not_get: "write_query q \<Longrightarrow> q_methodID q \<noteq> GetMethodID"
  using method_ids by (auto simp: write_query_def)

lemma setInWal_logs:
  assumes "wal_idle (db_wal db)" and "log_has d (Suc k) (db_out db) xs" and "query_ok q" and "write_query q"
    and "ctx_err ctx = None"
  shows "\<exists>db'. setInWal ctx live_wait (worker_turn wal_writer) q db = (db', Ok ()) \<and> db_st db' = db_st db \<and>
    wal_idle (db_wal db') \<and> db_isMaster db' = db_isMaster db \<and> log_has d k (db_out db') (xs @ [next_row q (db_wal db)]) \<and>
    wal_lsnGen (db_wal db') = fst (NextID (wal_lsnGen (db_wal db)))"
proof -
  obtain s' where "wal_writer [next_row q (db_wal db)] (db_out db) = (s', Ok ())"
    "log_has d k s' (xs @ [next_row q (db_wal db)])"
    using lws.twrite_ok [of d k "[next_row q (db_wal db)]" "db_out db" xs] assms(2) next_row_ok [OF assms(3)] by auto
  then show ?thesis using setInWal_ok [OF assms(1,5) write_not_get [OF assms(4)]] by blast
qed

lemma Execute_write_rows:
  assumes db: "wal_idle (db_wal db)" "storage_inv (db_st db)" "log_has d (Suc k) (db_out db) xs" "db_isMaster db"
    and q: "query_ok q" "write_query q" and ctx: "ctx_err ctx = None"
  shows "\<exists>db'. Execute ctx live_wait (worker_turn wal_writer) q db = (db', Ok ''OK'') \<and> wal_idle (db_wal db') \<and>
    storage_inv (db_st db') \<and> storage_abs (db_st db') = kv_apply (qop q) (storage_abs (db_st db)) \<and> db_isMaster db' \<and>
    log_has d k (db_out db') (xs @ [next_row q (db_wal db)]) \<and> wal_lsnGen (db_wal db') = fst (NextID (wal_lsnGen (db_wal db)))"
proof -
  obtain db1 where db1: "setInWal ctx live_wait (worker_turn wal_writer) q db = (db1, Ok ())" "db_st db1 = db_st db"
    "wal_idle (db_wal db1)" "db_isMaster db1 = db_isMaster db" "log_has d k (db_out db1) (xs @ [next_row q (db_wal db)])"
    "wal_lsnGen (db_wal db1) = fst (NextID (wal_lsnGen (db_wal db)))"
    using setInWal_logs [OF db(1,3) q ctx] by blast
  obtain st' where st': "exec ctx q (db_st db) = (st', Ok ''OK'')" "storage_inv st'"
    "storage_abs st' = kv_apply (qop q) (storage_abs (db_st db))"
    using exec_write [OF q(2) db(2) ctx] by blast
  have "Execute ctx live_wait (worker_turn wal_writer) q db = (db1\<lparr>db_st := st'\<rparr>, Ok ''OK'')"
    using db1 st' db(1,4) by (simp add: Execute_def IsEnable_def wal_idle_def)
  then show ?thesis using db1 st' db(4) by (intro exI [of _ "db1\<lparr>db_st := st'\<rparr>"]) simp
qed

lemma Execute_write_ok:
  assumes ok: "db_ok (Suc k) d db" and master: "db_isMaster db" and q: "query_ok q" "write_query q"
    and ctx: "ctx_err ctx = None"
  shows "\<exists>db'. Execute ctx live_wait (worker_turn wal_writer) q db = (db', Ok ''OK'') \<and> db_ok k d db' \<and>
    storage_abs (db_st db') = kv_apply (qop q) (storage_abs (db_st db)) \<and> db_isMaster db'"
proof -
  obtain xs where xs: "log_has d (Suc k) (db_out db) xs" "list_all (write_query \<circ> query_of) xs"
    "storage_abs (db_st db) = kv_replay (ops_of xs) Map.empty" "wal_idle (db_wal db)" "storage_inv (db_st db)"
    using ok by (auto simp: db_ok_def)
  obtain db' where db': "Execute ctx live_wait (worker_turn wal_writer) q db = (db', Ok ''OK'')" "wal_idle (db_wal db')"
    "storage_inv (db_st db')" "storage_abs (db_st db') = kv_apply (qop q) (storage_abs (db_st db))" "db_isMaster db'"
    "log_has d k (db_out db') (xs @ [next_row q (db_wal db)])"
    using Execute_write_rows [OF xs(4,5,1) master q ctx] by blast
  have "db_ok k d db'"
    unfolding db_ok_def using db' xs q
    by (intro conjI exI [of _ "xs @ [next_row q (db_wal db)]"]) (simp_all add: ops_of_def query_of_next_row)
  with db' show ?thesis by blast
qed

lemma Execute_get_only:
  assumes "storage_inv (db_st db)" and "q_methodID q = GetMethodID" and "q_args q \<noteq> []" and "ctx_err ctx = None"
  shows "\<exists>st'. Execute ctx wt env q db =
      (db\<lparr>db_st := st'\<rparr>, Ok (case storage_abs (db_st db) (q_args q ! 0) of None \<Rightarrow> [] | Some v \<Rightarrow> v)) \<and>
    storage_inv st' \<and> storage_abs st' = storage_abs (db_st db)"
  using exec_get [OF assms(2,3,1,4)] assms(2) by (auto simp: Execute_def setInWal_def)

lemma Execute_get_ok:
  assumes "db_ok k d db" and "q_methodID q = GetMethodID" and "q_args q \<noteq> []" and "ctx_err ctx = None"
  shows "\<exists>db'. Execute ctx wt env q db =
      (db', Ok (case storage_abs (db_st db) (q_args q ! 0) of None \<Rightarrow> [] | Some v \<Rightarrow> v)) \<and> db_ok k d db' \<and>
    storage_abs (db_st db') = storage_abs (db_st db) \<and> db_out db' = db_out db \<and> db_isMaster db' = db_isMaster db"
proof -
  have inv: "storage_inv (db_st db)" using assms(1) by (simp add: db_ok_def)
  obtain st' where "Execute ctx wt env q db =
      (db\<lparr>db_st := st'\<rparr>, Ok (case storage_abs (db_st db) (q_args q ! 0) of None \<Rightarrow> [] | Some v \<Rightarrow> v))"
    "storage_inv st'" "storage_abs st' = storage_abs (db_st db)"
    using Execute_get_only [OF inv assms(2-4)] by blast
  then show ?thesis using assms(1) by (intro exI [of _ "db\<lparr>db_st := st'\<rparr>"]) (simp add: db_ok_def)
qed

text \<open>Starting on a directory with a log.\<close>

lemma InitDB_core_full:
  assumes w: "w_faults w = []" "world_ok w" "c_Directory c \<noteq> []" "log_rel (c_Directory c) w fs"
      "fresh_names (Suc k) (c_Directory c) w" "fs \<noteq> [] \<Longrightarrow> c_Directory c \<in> set (w_dirs w)"
    and c: "c_Enable c" "0 \<le> c_FlushBatchSize c" "seg_bounded (c_MaxSegmentSize c) fs"
    and rows: "list_all (write_query \<circ> query_of) (all_rows fs)"
  shows "\<exists>w' db. InitDB_core early1 early2 engType n c isMaster w = (w', Ok db) \<and> db_ok k (c_Directory c) db \<and>
    storage_abs (db_st db) = kv_replay (ops_of (all_rows fs)) Map.empty \<and>
    log_has (c_Directory c) k (db_out db) (all_rows fs) \<and> db_isMaster db = isMaster \<and>
    wal_lsnGen (db_wal db) = NewIDGeneratorWithStart (max_lsn (all_rows fs) 0) \<and>
    fs_maxSize (m_curSeg (fst (db_out db))) = c_MaxSegmentSize c"
proof -
  let ?d = "c_Directory c" and ?im = "NewIndexManagerMutex"
  obtain seg w' fs' where seg: "NewFileSegment ?d (c_MaxSegmentSize c) w = (w', Ok seg)" "fs_maxSize seg = c_MaxSegmentSize c"
    "mgr_rel k ?d (NewSegmentManager ?im seg) w' fs'" "fs' = fs \<or> fs = [] \<and> (\<exists>n. fs' = [(n, [])])"
    using NewFileSegment_ok [OF w, of "c_MaxSegmentSize c" ?im] by blast
  have same: "all_rows fs' = all_rows fs" "seg_bounded (c_MaxSegmentSize c) fs'"
    using seg(4) c(3) by (auto simp: seg_bounded_def)
  have "\<not> or_default 0 defaultFlushBatchSize (c_FlushBatchSize c) < 0"
    using c(2) by (simp add: or_default_def defaultFlushBatchSize_def)
  then obtain wal where wal: "NewWAL c = Ok wal" "wal_directory wal = ?d"
    using c(1) w(3) by (simp add: NewWAL_def Let_def) (simp add: or_default_def)
  note f = NewWAL_fields [OF wal(1) c(1)]
  obtain e where e: "NewEngine engType n = Ok e" "engine_inv e" "engine_abs e = Map.empty"
    using NewEngine_ok by blast
  have st: "storage_inv (Storage_New e)" "storage_abs (Storage_New e) = Map.empty" using Storage_New_inv e by auto
  have rd: "readable ?d w' fs'" using seg(3) by (simp add: mgr_rel_def readable_def)
  obtain db m' where db: "NewDatabase early1 early2 (Storage_New e) isMaster wal (NewSegmentManager ?im seg, w') = (db, Ok ())"
    "db_out db = (m', w')" "idx_rel m' fs'" "m_curSeg m' = seg" "\<not> m_locked m'" "m_pending m' = []"
    "storage_inv (db_st db)" "storage_abs (db_st db) = kv_replay (ops_of (all_rows fs')) Map.empty"
    "db_wal db = wal\<lparr>wal_lsnGen := NewIDGeneratorWithStart (max_lsn (all_rows fs') 0)\<rparr>" "db_isMaster db = isMaster"
    using restoreFromWal_ok [OF rd, of "NewSegmentManager ?im seg" wal "Storage_New e" early1 early2 isMaster]
      f(1) wal(2) st rows same(1) by (auto simp: NewSegmentManager_def ops_of_def)
  have "mgr_ok k ?d m' w' fs'"
    using seg(2,3) db(3-6) same(2) by (simp add: mgr_ok_def mgr_rel_def NewSegmentManager_def)
  then have has: "log_has ?d k (db_out db) (all_rows fs)"
    unfolding log_has_def using same(1) db(2) by auto
  have "0 < wal_flushBatchSize wal"
    using wal(1) c by (auto simp: NewWAL_def or_default_def Let_def defaultFlushBatchSize_def split: if_splits)
  then have "wal_idle (db_wal db)" using f by (simp add: db(9) wal_idle_def make_chan_def)
  then have "db_ok k ?d db" unfolding db_ok_def using db(7,8) has rows same(1) by auto
  moreover have "InitDB_core early1 early2 engType n c isMaster w = (w', Ok db)"
    using seg(1) e(1) wal(1) db(1,2) by (simp add: InitDB_core_def initSegmentManager_def initWal_def)
  ultimately show ?thesis using db has same(1) seg(2) by auto
qed

lemma InitDB_core_ok:
  assumes w: "w_faults w = []" "world_ok w" "c_Directory c \<noteq> []" "log_rel (c_Directory c) w fs"
      "fresh_names (Suc k) (c_Directory c) w" "fs \<noteq> [] \<Longrightarrow> c_Directory c \<in> set (w_dirs w)"
    and c: "c_Enable c" "0 \<le> c_FlushBatchSize c" "seg_bounded (c_MaxSegmentSize c) fs"
    and rows: "list_all (write_query \<circ> query_of) (all_rows fs)"
  shows "\<exists>w' db. InitDB_core early1 early2 engType n c isMaster w = (w', Ok db) \<and> db_ok k (c_Directory c) db \<and>
    storage_abs (db_st db) = kv_replay (ops_of (all_rows fs)) Map.empty \<and>
    log_has (c_Directory c) k (db_out db) (all_rows fs) \<and> db_isMaster db = isMaster \<and>
    wal_lsnGen (db_wal db) = NewIDGeneratorWithStart (max_lsn (all_rows fs) 0)"
  using InitDB_core_full [OF assms] by blast

section \<open>Runs of the database\<close>

text \<open>The calls of a client one after the other, and the same calls on a map.\<close>

fun db_run :: "query list \<Rightarrow> (manager \<times> world) database \<Rightarrow> (manager \<times> world) database \<times> string res list" where
  "db_run [] db = (db, [])"
| "db_run (q # qs) db =
     (case Execute Background live_wait (worker_turn wal_writer) q db of
        (db1, r) \<Rightarrow> (case db_run qs db1 of (db2, rs) \<Rightarrow> (db2, r # rs)))"

fun kv_run :: "query list \<Rightarrow> (string \<rightharpoonup> string) \<Rightarrow> (string \<rightharpoonup> string) \<times> string res list" where
  "kv_run [] m = (m, [])"
| "kv_run (q # qs) m =
     (if q_methodID q = GetMethodID
      then (case kv_run qs m of (m', rs) \<Rightarrow>
              (m', Ok (case m (q_args q ! 0) of None \<Rightarrow> [] | Some v \<Rightarrow> v) # rs))
      else (case kv_run qs (kv_apply (qop q) m) of (m', rs) \<Rightarrow> (m', Ok ''OK'' # rs)))"

lemma valid_query_cases:
  "valid_query q \<Longrightarrow> write_query q \<or> q_methodID q = GetMethodID \<and> q_args q \<noteq> []"
  by (auto simp: valid_query_def write_query_def)

lemma db_ok_less: "db_ok (Suc k) d db \<Longrightarrow> db_ok k d db"
  unfolding db_ok_def using log_has_le le_SucI by blast

lemma db_run_ok:
  "db_ok (k + length qs) d db \<Longrightarrow> db_isMaster db \<Longrightarrow> list_all (\<lambda>q. valid_query q \<and> query_ok q) qs \<Longrightarrow>
   \<exists>db'. db_run qs db = (db', snd (kv_run qs (storage_abs (db_st db)))) \<and> db_ok k d db' \<and>
     storage_abs (db_st db') = fst (kv_run qs (storage_abs (db_st db)))"
proof (induction qs arbitrary: db)
  case (Cons q qs)
  have bg: "ctx_err Background = None" by (simp add: Background_def)
  from Cons.prems have q: "valid_query q" "query_ok q" and ok: "db_ok (Suc (k + length qs)) d db" by simp_all
  show ?case
  proof (cases "write_query q")
    case True
    then obtain db1 where db1: "Execute Background live_wait (worker_turn wal_writer) q db = (db1, Ok ''OK'')"
      "db_ok (k + length qs) d db1" "storage_abs (db_st db1) = kv_apply (qop q) (storage_abs (db_st db))" "db_isMaster db1"
      using Execute_write_ok [OF ok Cons.prems(2) q(2) _ bg] by blast
    then show ?thesis using Cons.IH [OF db1(2,4)] Cons.prems(3) write_not_get [OF True] by (auto split: prod.splits)
  next
    case False
    then have g: "q_methodID q = GetMethodID" "q_args q \<noteq> []" using valid_query_cases [OF q(1)] by auto
    obtain db1 where db1: "Execute Background live_wait (worker_turn wal_writer) q db =
        (db1, Ok (case storage_abs (db_st db) (q_args q ! 0) of None \<Rightarrow> [] | Some v \<Rightarrow> v))"
      "db_ok (k + length qs) d db1" "storage_abs (db_st db1) = storage_abs (db_st db)" "db_isMaster db1 = db_isMaster db"
      using Execute_get_ok [OF db_ok_less [OF ok] g bg] by blast
    then show ?thesis using Cons.IH [OF db1(2)] Cons.prems(2,3) g by (auto split: prod.splits)
  qed
qed simp

section \<open>A restart on the files of a database\<close>

lemma seg_bounded_mono: "seg_bounded a fs \<Longrightarrow> a \<le> b \<Longrightarrow> seg_bounded b fs"
  by (fastforce simp: seg_bounded_def list_all_iff)

text \<open>The configuration of a restart: the same directory, and a segment size that is not smaller.\<close>

definition same_config :: "string \<Rightarrow> manager \<times> world \<Rightarrow> config_wal \<Rightarrow> bool" where
  "same_config d out c \<longleftrightarrow> c_Enable c \<and> c_Directory c = d \<and> 0 \<le> c_FlushBatchSize c \<and>
     fs_maxSize (m_curSeg (fst out)) \<le> c_MaxSegmentSize c"

lemma restart_on_log:
  assumes has: "log_has d (Suc k) out xs" and rows: "list_all (write_query \<circ> query_of) xs"
    and c: "same_config d out c"
  shows "\<exists>w' db. InitDB_core early1 early2 engType n c isMaster (snd out) = (w', Ok db) \<and> db_ok k d db \<and>
    storage_abs (db_st db) = kv_replay (ops_of xs) Map.empty \<and> log_has d k (db_out db) xs \<and>
    db_isMaster db = isMaster \<and> wal_lsnGen (db_wal db) = NewIDGeneratorWithStart (max_lsn xs 0)"
proof -
  obtain m w where out: "out = (m, w)" by (cases out)
  obtain fs where fs: "mgr_ok (Suc k) d m w fs" "all_rows fs = xs" using has by (auto simp: log_has_def out)
  have b: "seg_bounded (c_MaxSegmentSize c) fs"
    using fs(1) c by (auto simp: mgr_ok_def same_config_def out intro: seg_bounded_mono)
  show ?thesis
    using InitDB_core_ok [of w c fs k early1 early2 engType n isMaster] fs b c rows
    by (simp add: mgr_ok_def mgr_rel_def same_config_def out)
qed

section \<open>An example database\<close>

lemma demo_database:
  "\<exists>w' db. InitDB_core early1 early2 engType n demo_config isMaster demo_log_world = (w', Ok db) \<and>
     db_ok 3 ''wal'' db \<and> storage_abs (db_st db) = Map.empty \<and> db_isMaster db = isMaster"
proof -
  have "fresh_names (Suc 3) ''wal'' demo_log_world" using demo_fresh_names by simp
  then show ?thesis
    using InitDB_core_ok [of demo_log_world demo_config "[]" 3 early1 early2 engType n isMaster]
    by (auto simp: demo_log_world_def demo_config_def world_ok_def log_rel_def dir_entries_def seg_bounded_def ops_of_def)
qed

lemma demo_query_ok:
  "valid_query (NewQuery SetMethodID [''k'', ''v''])" "query_ok (NewQuery SetMethodID [''k'', ''v''])"
  "write_query (NewQuery SetMethodID [''k'', ''v''])" "valid_query (NewQuery GetMethodID [''k''])"
  "query_ok (NewQuery GetMethodID [''k''])"
  by (simp_all add: valid_query_def NewQuery_def query_ok_def write_query_def)

lemma restore_one_file:
  assumes "w_faults w = replicate 5 NoFault @ fl" and "d \<noteq> []" "d \<in> set (w_dirs w)" "slash \<notin> set n"
    and "map_of (w_files w) (path_join d n) = Some (enc r)" and "row_ok r" "length (enc r) \<le> bufLen"
  shows "restore_files d (n # names) m w =
    (case restore_files d names (restoreIndex [r] n m) (w\<lparr>w_faults := fl\<rparr>) of (m2, w4, vs, e) \<Rightarrow> (m2, w4, [r] # vs, e))"
proof -
  have r: "enc r \<noteq> []" "drop bufLen (enc r) = []" "take bufLen (enc r) = enc r" using enc_length [OF assms(6)] assms(7) by auto
  have "read [(enc r, None), ([], Some EOF)] = Ok ([r], None)"
    using read_loop_spec [of "[]" "[enc r]" "[]" EOF "[]" "[]"] rows_of_encs [of "[r]" "[]"] assms(6) by (simp add: read_def)
  moreover have "AList.update (path_join d n) (enc r) (w_files w) = w_files w"
    using assms(5) by (simp add: update_triv)
  ultimately show ?thesis using assms r
    by (simp add: OpenFile_def os_MkdirAll_def os_OpenFile_def file_Close_def take_fault_def dir_path_join List.insert_def
        file_reads_def content_def file_reads_from.simps numeral_eq_Suc split: prod.split)
qed

definition demo_faulty_disk :: world where
  "demo_faulty_disk = \<lparr>w_dirs = [''wal''],
     w_files = [(''wal/1.bin'', enc (NewRow 1 SetMethodID [''k'', ''v''])), (''wal/2.bin'', enc (NewRow 2 SetMethodID [''k'', ''w''])),
                (''wal/3.bin'', enc (NewRow 3 DelMethodID [''k'']))],
     w_faults = replicate 11 NoFault @ [Fault 0 (IOErr ''i/o error'')], w_clock = (\<lambda>n. 4 + n), w_ticks = 0\<rparr>"

definition demo_segment :: file_segment where
  "demo_segment = \<lparr>fs_file = \<lparr>f_path = ''wal/3.bin'', f_pos = 0, f_open = True\<rparr>, fs_path = ''wal'', fs_size = 0, fs_maxSize = 100\<rparr>"

lemma demo_faulty_disk:
  "snd (snd (RestoreSystemStream ''wal'' (NewSegmentManager NewIndexManagerMutex demo_segment) demo_faulty_disk)) =
     ([[NewRow 1 SetMethodID [''k'', ''v'']], [NewRow 2 SetMethodID [''k'', ''w'']]], Some (IOErr ''i/o error''))"
proof -
  let ?d = "''wal''" and ?r1 = "NewRow 1 SetMethodID [''k'', ''v'']" and ?r2 = "NewRow 2 SetMethodID [''k'', ''w'']"
  define w where "w fl = demo_faulty_disk\<lparr>w_faults := fl\<rparr>" for fl
  have names: "map fst (w_files demo_faulty_disk) = [''wal/1.bin'', ''wal/2.bin'', ''wal/3.bin'']"
    by (simp add: demo_faulty_disk_def)
  have "sort (map base_name (filter (\<lambda>p. dir_name p = ?d) [''wal/1.bin'', ''wal/2.bin'', ''wal/3.bin''])) =
    [''1.bin'', ''2.bin'', ''3.bin'']" by code_simp
  moreover have "w_files (w fl) = w_files demo_faulty_disk" for fl by (simp add: w_def)
  ultimately have "sort (dir_entries ?d (w fl)) = [''1.bin'', ''2.bin'', ''3.bin'']" for fl
    by (simp only: dir_entries_def names)
  note sorted = this
  have f: "w_dirs (w fl) = [?d]" "w_faults (w fl) = fl" "(w fl)\<lparr>w_faults := fl'\<rparr> = w fl'" for fl fl'
    by (simp_all add: w_def demo_faulty_disk_def)
  have start: "demo_faulty_disk = w (NoFault # (replicate 5 NoFault @ replicate 5 NoFault @ [Fault 0 (IOErr ''i/o error'')]))"
    by (simp add: w_def demo_faulty_disk_def numeral_eq_Suc)
  have rd: "ReadDir ?d demo_faulty_disk =
      (w (replicate 5 NoFault @ replicate 5 NoFault @ [Fault 0 (IOErr ''i/o error'')]), Ok [''1.bin'', ''2.bin'', ''3.bin''])"
    unfolding start by (simp add: ReadDir_def os_ReadDir_def take_fault_def f sorted)
  have cont: "map_of (w_files (w fl)) (path_join ?d ''1.bin'') = Some (enc ?r1)"
    "map_of (w_files (w fl)) (path_join ?d ''2.bin'') = Some (enc ?r2)" for fl
    by (simp_all add: w_def demo_faulty_disk_def path_join_def slash_def)
  have r: "row_ok ?r1" "row_ok ?r2" "length (enc ?r1) \<le> bufLen" "length (enc ?r2) \<le> bufLen"
    by (simp_all add: row_ok_def NewRow_def enc_def Marshal_def bufLen_def)
  have "restore_files ?d [''3.bin''] m (w [Fault 0 (IOErr ''i/o error'')]) = (m, w [], [], Some (IOErr ''i/o error''))" for m
    by (simp add: OpenFile_def os_MkdirAll_def take_fault_def f)
  then show ?thesis
    using restore_one_file [OF f(2) _ _ _ cont(1) r(1,3), of "replicate 5 NoFault @ [Fault 0 (IOErr ''i/o error'')]"]
      restore_one_file [OF f(2) _ _ _ cont(2) r(2,4), of "[Fault 0 (IOErr ''i/o error'')]"] rd
    by (simp add: RestoreSystemStream_def f slash_def)
qed

section \<open>Properties\<close>

lemma u64_less_Suc: "M < - 1 \<Longrightarrow> M < M + 1" for M :: u64
proof -
  assume "M < - 1"
  then have "1 + M \<noteq> 0" by (metis add.commute eq_neg_iff_add_eq_0 less_irrefl)
  then show ?thesis using unatSuc [of M] by (simp add: word_less_nat_alt add.commute)
qed

text \<open>
  C9. A restart restores exactly what the log holds: on a directory with a log of SET and DEL
  rows, whatever the schedules of the two restoring goroutines, the initialisation succeeds, the
  storage is the replay of all rows of all files in order, the log keeps its rows and is ready
  for further writes, and the next sequence number is larger than every number in the log.
\<close>

theorem restart_restores_log:
  assumes "w_faults w = []" "world_ok w" "c_Directory c \<noteq> []" "log_rel (c_Directory c) w fs"
    and "fresh_names (Suc k) (c_Directory c) w" "fs \<noteq> [] \<Longrightarrow> c_Directory c \<in> set (w_dirs w)"
    and "c_Enable c" "0 \<le> c_FlushBatchSize c" "seg_bounded (c_MaxSegmentSize c) fs"
    and "list_all (write_query \<circ> query_of) (all_rows fs)"
    and "\<And>r. r \<in> set (all_rows fs) \<Longrightarrow> r_lsnID r < - 1"
  shows "\<exists>w' db. InitDB_core early1 early2 engType n c isMaster w = (w', Ok db) \<and>
    storage_abs (db_st db) = kv_replay (ops_of (all_rows fs)) Map.empty \<and>
    log_has (c_Directory c) k (db_out db) (all_rows fs) \<and>
    (\<forall>r. r \<in> set (all_rows fs) \<longrightarrow> r_lsnID r < snd (NextID (wal_lsnGen (db_wal db))))"
proof -
  obtain w' db where db: "InitDB_core early1 early2 engType n c isMaster w = (w', Ok db)"
    "storage_abs (db_st db) = kv_replay (ops_of (all_rows fs)) Map.empty"
    "log_has (c_Directory c) k (db_out db) (all_rows fs)"
    "wal_lsnGen (db_wal db) = NewIDGeneratorWithStart (max_lsn (all_rows fs) 0)"
    using InitDB_core_ok [OF assms(1-10)] by blast
  have "r_lsnID r < snd (NextID (NewIDGeneratorWithStart (max_lsn (all_rows fs) 0)))"
    if r: "r \<in> set (all_rows fs)" for r
  proof -
    define M where "M = Max (r_lsnID ` set (all_rows fs))"
    have M: "M \<in> r_lsnID ` set (all_rows fs)" "r_lsnID r \<le> M" using r by (auto simp: M_def intro: Max_in)
    then have "M < - 1" using assms(11) by auto
    then have "M < M + 1" by (rule u64_less_Suc)
    then show ?thesis using M r by (auto simp: max_lsn_max M_def [symmetric] NextID_def NewIDGeneratorWithStart_def Let_def)
  qed
  with db show ?thesis by auto
qed


theorem restart_restores_log_witness:
  "\<exists>c w w' db. c_Directory c = ''wal'' \<and> InitDB_core False True ''in_memory'' 4 c True w = (w', Ok db) \<and>
     storage_abs (db_st db) = Map.empty \<and> log_has ''wal'' 0 (db_out db) demo_rows \<and>
     2 < snd (NextID (wal_lsnGen (db_wal db)))"
proof -
  obtain seg w n where s: "mgr_ok (1 + length demo_rows) ''wal'' (NewSegmentManager NewIndexManagerMutex seg) w [(n, [])]"
    using demo_manager [of 20] by (auto simp: demo_rows_def numeral_3_eq_3)
  obtain m w fs where fs: "mgr_ok 1 ''wal'' m w fs" "all_rows fs = demo_rows"
    using Manager_Write_ok [OF s demo_rows_ok] by auto
  define c where "c = demo_config\<lparr>c_MaxSegmentSize := fs_maxSize (m_curSeg m)\<rparr>"
  have c: "c_Directory c = ''wal''" "c_Enable c" "c_FlushBatchSize c = 0" "c_MaxSegmentSize c = fs_maxSize (m_curSeg m)"
    by (simp_all add: c_def demo_config_def)
  have d: "list_all (write_query \<circ> query_of) demo_rows" "kv_replay (ops_of demo_rows) Map.empty = Map.empty"
    by (simp_all add: demo_rows_def ops_of_def qop_def query_of_def NewRow_def NewQuery_def write_query_def method_ids fun_eq_iff)
  have l: "r_lsnID r < - 1" if "r \<in> set demo_rows" for r
  proof -
    have "(1 :: u64) < - 1" "(2 :: u64) < - 1" by code_simp+
    then show ?thesis using that by (auto simp: demo_rows_def NewRow_def)
  qed
  from restart_restores_log [of w c fs 0 False True "''in_memory''" 4 True] fs c d l
  obtain w' db where "InitDB_core False True ''in_memory'' 4 c True w = (w', Ok db)"
    "storage_abs (db_st db) = Map.empty" "log_has ''wal'' 0 (db_out db) demo_rows"
    "\<forall>r. r \<in> set demo_rows \<longrightarrow> r_lsnID r < snd (NextID (wal_lsnGen (db_wal db)))"
    by (auto simp: mgr_ok_def mgr_rel_def)
  moreover from this(4) have "2 < snd (NextID (wal_lsnGen (db_wal db)))"
    by (simp add: demo_rows_def NewRow_def)
  ultimately show ?thesis using c(1) by blast
qed

text \<open>
  C8. The master serves one map and does not lose it: from a consistent state every sequence of
  well-formed queries is answered as by a single map, and when the process stops at its end, a
  new one started on the files it left has the same map, whatever its engine, its number of
  shards and the schedules of its goroutines.
\<close>

theorem master_run_survives_restart:
  assumes "db_ok (Suc k + length qs) d db" and "db_isMaster db"
    and "list_all (\<lambda>q. valid_query q \<and> query_ok q) qs"
  shows "\<exists>db' rs. db_run qs db = (db', rs) \<and> kv_run qs (storage_abs (db_st db)) = (storage_abs (db_st db'), rs) \<and>
    (\<forall>c. same_config d (db_out db') c \<longrightarrow>
      (\<exists>w' db2. InitDB_core early1 early2 engType n c True (snd (db_out db')) = (w', Ok db2) \<and>
        storage_abs (db_st db2) = storage_abs (db_st db') \<and> db_ok k d db2))"
proof -
  obtain db' where db': "db_run qs db = (db', snd (kv_run qs (storage_abs (db_st db))))" "db_ok (Suc k) d db'"
    "storage_abs (db_st db') = fst (kv_run qs (storage_abs (db_st db)))"
    using db_run_ok [OF assms] by blast
  obtain xs where "log_has d (Suc k) (db_out db') xs" "list_all (write_query \<circ> query_of) xs"
    "storage_abs (db_st db') = kv_replay (ops_of xs) Map.empty"
    using db'(2) by (auto simp: db_ok_def)
  note restart = restart_on_log [OF this(1,2), of _ early1 early2 engType n True, folded this(3)]
  have "kv_run qs (storage_abs (db_st db)) = (storage_abs (db_st db'), snd (kv_run qs (storage_abs (db_st db))))"
    by (simp add: db'(3))
  with db'(1) restart show ?thesis by blast
qed

theorem master_run_survives_restart_witness:
  "\<exists>w db db' rs. InitDB_core True True ''in_memory'' 4 demo_config True demo_log_world = (w, Ok db) \<and>
     db_run [NewQuery SetMethodID [''k'', ''v''], NewQuery GetMethodID [''k'']] db = (db', rs) \<and>
     rs = [Ok ''OK'', Ok ''v''] \<and> storage_abs (db_st db') ''k'' = Some ''v''"
proof -
  obtain w db where db: "InitDB_core True True ''in_memory'' 4 demo_config True demo_log_world = (w, Ok db)"
    "db_ok (Suc 0 + length [NewQuery SetMethodID [''k'', ''v''], NewQuery GetMethodID [''k'']]) ''wal'' db"
    "storage_abs (db_st db) = Map.empty" "db_isMaster db"
    using demo_database [of True True "''in_memory''" 4 True] by (auto simp: numeral_3_eq_3)
  from master_run_survives_restart [OF db(2,4), of True True "''in_memory''" 4] db(1,3) demo_query_ok
  obtain db' where "db_run [NewQuery SetMethodID [''k'', ''v''], NewQuery GetMethodID [''k'']] db = (db', [Ok ''OK'', Ok ''v''])"
    "storage_abs (db_st db') = [''k'' \<mapsto> ''v'']"
    by (auto simp: NewQuery_def qop_def method_ids)
  then show ?thesis using db(1) by auto
qed

text \<open>
  C28. A write that a slave rejects is persisted all the same: \<^verbatim>\<open>Execute\<close> logs the query before it
  looks at the role, so the client gets \<^verbatim>\<open>errNonReadOpSlave\<close> and the storage is unchanged, but after
  a restart the rejected write is in the storage.
\<close>

theorem slave_rejected_write_persists:
  assumes "db_ok (Suc (Suc k)) d db" and "\<not> db_isMaster db" and "query_ok q" "write_query q"
    and "ctx_err ctx = None"
  shows "\<exists>db'. Execute ctx live_wait (worker_turn wal_writer) q db = (db', Fail ErrNonReadOpSlave) \<and>
    storage_abs (db_st db') = storage_abs (db_st db) \<and>
    (\<forall>c. same_config d (db_out db') c \<longrightarrow>
      (\<exists>w' db2. InitDB_core early1 early2 engType n c False (snd (db_out db')) = (w', Ok db2) \<and>
        storage_abs (db_st db2) = kv_apply (qop q) (storage_abs (db_st db))))"
proof -
  obtain xs where xs: "log_has d (Suc (Suc k)) (db_out db) xs" "list_all (write_query \<circ> query_of) xs"
    "storage_abs (db_st db) = kv_replay (ops_of xs) Map.empty" "wal_idle (db_wal db)"
    using assms(1) by (auto simp: db_ok_def)
  obtain db' where db': "setInWal ctx live_wait (worker_turn wal_writer) q db = (db', Ok ())" "db_st db' = db_st db"
    "db_isMaster db' = db_isMaster db" "log_has d (Suc k) (db_out db') (xs @ [next_row q (db_wal db)])"
    using setInWal_logs [OF xs(4,1) assms(3-5)] by blast
  have "Execute ctx live_wait (worker_turn wal_writer) q db = (db', Fail ErrNonReadOpSlave)"
    using db' assms(2) xs(4) write_not_get [OF assms(4)] by (simp add: Execute_def IsEnable_def wal_idle_def)
  moreover have "list_all (write_query \<circ> query_of) (xs @ [next_row q (db_wal db)])"
    using xs(2) assms(4) by (simp add: query_of_next_row)
  note restart_on_log [OF db'(4) this]
  ultimately show ?thesis
    using db'(2) xs(3) by (intro exI [of _ db']) (fastforce simp: ops_of_def query_of_next_row)
qed

theorem slave_rejected_write_persists_witness:
  "\<exists>w db db' c w' db2. InitDB_core True True ''in_memory'' 4 demo_config False demo_log_world = (w, Ok db) \<and>
     Execute Background live_wait (worker_turn wal_writer) (NewQuery SetMethodID [''k'', ''v'']) db =
       (db', Fail ErrNonReadOpSlave) \<and> storage_abs (db_st db') = Map.empty \<and>
     InitDB_core True True ''in_memory'' 4 c False (snd (db_out db')) = (w', Ok db2) \<and>
     storage_abs (db_st db2) ''k'' = Some ''v''"
proof -
  let ?q = "NewQuery SetMethodID [''k'', ''v'']"
  obtain w db where db: "InitDB_core True True ''in_memory'' 4 demo_config False demo_log_world = (w, Ok db)"
    "db_ok (Suc (Suc 1)) ''wal'' db" "storage_abs (db_st db) = Map.empty" "\<not> db_isMaster db"
    using demo_database [of True True "''in_memory''" 4 False] by (auto simp: numeral_3_eq_3)
  have "ctx_err Background = None" by (simp add: Background_def)
  from slave_rejected_write_persists [OF db(2,4) demo_query_ok(2,3) this, of True True "''in_memory''" 4] db(3)
  obtain db' where db': "Execute Background live_wait (worker_turn wal_writer) ?q db = (db', Fail ErrNonReadOpSlave)"
    "storage_abs (db_st db') = Map.empty"
    "\<And>c. same_config ''wal'' (db_out db') c \<Longrightarrow>
      \<exists>w' db2. InitDB_core True True ''in_memory'' 4 c False (snd (db_out db')) = (w', Ok db2) \<and>
        storage_abs (db_st db2) = kv_apply (qop ?q) Map.empty"
    by auto
  have "same_config ''wal'' (db_out db') (demo_config\<lparr>c_MaxSegmentSize := fs_maxSize (m_curSeg (fst (db_out db')))\<rparr>)"
    by (simp add: same_config_def demo_config_def)
  from db'(3) [OF this] db(1) db'(1,2) show ?thesis by (fastforce simp: qop_def NewQuery_def)
qed

text \<open>
  C29. What becomes of a read error during the restoration. The error is seen only when the
  goroutine that reads the files puts it before \<^verbatim>\<open>RestoreStream\<close> has its copy of the stream, with at
  most one file read before. Then the storage stays as it is and the numbering is not restored, and
  the start fails with the error if it is passed on before the database has its copy of the second
  stream, and otherwise reports success. In every other case the start succeeds too, on the
  rows of the files before the error only, and numbers new rows from the largest number in those.
\<close>

theorem restore_hides_read_error:
  assumes "RestoreSystemStream (wal_directory w) m wd = (m', wd', vs, Some e)" and "wal_enable w"
    and "list_all (write_query \<circ> query_of) (concat vs)" and "storage_inv st"
  shows "\<exists>db. (if early1 \<and> length vs \<le> 1
    then NewDatabase early1 early2 st isMaster w (m, wd) = (db, if early2 then Fail (Wrap ''read wal: '' e) else Ok ()) \<and>
      db_st db = st \<and> wal_lsnGen (db_wal db) = wal_lsnGen w
    else NewDatabase early1 early2 st isMaster w (m, wd) = (db, Ok ()) \<and>
      storage_abs (db_st db) = kv_replay (ops_of (concat vs)) (storage_abs st) \<and>
      wal_lsnGen (db_wal db) = NewIDGeneratorWithStart (max_lsn (concat vs) 0))"
proof (cases "early1 \<and> length vs \<le> 1")
  case True
  then show ?thesis using assms(1,2)
    by (simp add: NewDatabase_def restoreFromWal_def RestoreStream_def IsEnable_def drain_def Let_def)
next
  case False
  then have d: "drain early1 vs (Some e) = (vs, None)" by (auto simp: drain_def)
  have cc: "concat (map (map query_of) vs) = map query_of (concat vs)" by (simp add: map_concat)
  obtain st' where "exec_all (map query_of (concat vs)) st = (st', Ok ())"
    "storage_abs st' = kv_replay (map qop (map query_of (concat vs))) (storage_abs st)"
    using exec_all_replay [of "map query_of (concat vs)" st] assms(3,4) by (auto simp: list_all_iff)
  then show ?thesis
    using assms(1,2) d cc False by (auto simp: NewDatabase_def restoreFromWal_def RestoreStream_def IsEnable_def ops_of_def)
qed

lemma demo_wal_dir: "wal_directory demo_wal = ''wal''"
  by (simp add: demo_wal_def)

theorem restore_hides_read_error_witness:
  "\<exists>e db. NewEngine ''in_memory'' 4 = Ok e \<and> NewDatabase True True (Storage_New e) True demo_wal
       (NewSegmentManager NewIndexManagerMutex demo_segment, demo_faulty_disk) = (db, Ok ()) \<and>
     storage_abs (db_st db) ''k'' = Some ''w'' \<and> snd (NextID (wal_lsnGen (db_wal db))) = 3"
proof -
  let ?vs = "[[NewRow 1 SetMethodID [''k'', ''v'']], [NewRow 2 SetMethodID [''k'', ''w'']]]"
  obtain m' wd' where rs: "RestoreSystemStream (wal_directory demo_wal) (NewSegmentManager NewIndexManagerMutex demo_segment)
      demo_faulty_disk = (m', wd', ?vs, Some (IOErr ''i/o error''))"
    using demo_faulty_disk demo_wal_dir by (metis prod.collapse)
  obtain e where e: "NewEngine ''in_memory'' 4 = Ok e" "engine_inv e" "engine_abs e = Map.empty"
    using NewEngine_ok by blast
  have st: "storage_inv (Storage_New e)" "storage_abs (Storage_New e) = Map.empty" using Storage_New_inv e by auto
  have r: "list_all (write_query \<circ> query_of) (concat ?vs)" "kv_replay (ops_of (concat ?vs)) Map.empty ''k'' = Some ''w''"
    "snd (NextID (NewIDGeneratorWithStart (max_lsn (concat ?vs) 0))) = 3"
    by (simp_all add: write_query_def query_of_def NewRow_def NewQuery_def ops_of_def qop_def max_lsn_def
        NextID_def NewIDGeneratorWithStart_def Let_def)
  have "wal_enable demo_wal" by (simp add: demo_wal_def)
  from restore_hides_read_error [OF rs this r(1) st(1), of True True True] obtain db where "NewDatabase True True (Storage_New e) True demo_wal
       (NewSegmentManager NewIndexManagerMutex demo_segment, demo_faulty_disk) = (db, Ok ())"
    "storage_abs (db_st db) = kv_replay (ops_of (concat ?vs)) (storage_abs (Storage_New e))"
    "wal_lsnGen (db_wal db) = NewIDGeneratorWithStart (max_lsn (concat ?vs) 0)"
    by auto
  with r(2,3) st(2) e(1) show ?thesis by (intro exI [of _ e] exI [of _ db]) simp
qed

end
