(* ===== verification/Bufio.thy ===== *)
theory Bufio
  imports Logs
begin

text \<open>
  The buffered reader and writer of Go's \<^verbatim>\<open>bufio\<close> package, as far as the handlers, the protocol
  and the transport use them. What an \<^verbatim>\<open>io.Reader\<close> gives is the list of the results of its
  \<^verbatim>\<open>Read\<close> calls; at the end of the list a call blocks for ever. A \<^verbatim>\<open>net.Conn\<close> is written through
  scripted faults. A reader is judged by the bytes it will still deliver and the error that ends
  them; all lemmas are independent of how the bytes are cut into reads.
\<close>

section \<open>Reading\<close>

definition bufsize :: nat where "bufsize = 4096"

text \<open>\<^verbatim>\<open>Read(p)\<close> of the source with \<open>len(p) = n\<close>; a longer chunk is delivered in parts.\<close>

fun src_Read :: "nat \<Rightarrow> reads \<Rightarrow> (byte list \<times> goerr option \<times> reads) option" where
  "src_Read n [] = None"
| "src_Read n ((c, e) # r) =
     (if length c \<le> n then Some (c, e, r) else Some (take n c, None, (drop n c, e) # r))"

record bufr =
  br_buf :: "byte list"
  br_err :: "goerr option"
  br_src :: reads

definition NewReader :: "reads \<Rightarrow> bufr" where
  "NewReader src = \<lparr>br_buf = [], br_err = None, br_src = src\<rparr>"

definition ErrNoProgress :: goerr where
  "ErrNoProgress = IOErr ''multiple Read calls return no data or error''"

text \<open>\<^verbatim>\<open>fill\<close> gives up after one hundred empty reads.\<close>

fun fill_loop :: "nat \<Rightarrow> bufr \<Rightarrow> bufr option" where
  "fill_loop 0 b = Some (b\<lparr>br_err := Some ErrNoProgress\<rparr>)"
| "fill_loop (Suc k) b =
     (case src_Read (bufsize - length (br_buf b)) (br_src b) of
        None \<Rightarrow> None
      | Some (c, e, src) \<Rightarrow>
          (let b' = b\<lparr>br_buf := br_buf b @ c, br_src := src\<rparr> in
           if e \<noteq> None then Some (b'\<lparr>br_err := e\<rparr>)
           else if c \<noteq> [] then Some b'
           else fill_loop k b'))"

definition fill :: "bufr \<Rightarrow> bufr option" where
  "fill b = fill_loop 100 b"

definition weight :: "reads \<Rightarrow> nat" where
  "weight src = sum_list (map (\<lambda>(c, e). Suc (length c)) src)"

lemma src_Read_weight: "src_Read n src = Some (c, e, src') \<Longrightarrow> 0 < n \<Longrightarrow> weight src' + length c \<le> weight src \<and> weight src' < weight src"
  by (cases "(n, src)" rule: src_Read.cases) (auto simp: weight_def split: if_splits)

lemma fill_loop_weight:
  "fill_loop (Suc k) b = Some b' \<Longrightarrow> length (br_buf b) < bufsize \<Longrightarrow> weight (br_src b') < weight (br_src b)"
proof (induction k arbitrary: b)
  case 0
  then show ?case by (auto simp: Let_def split: option.splits prod.splits if_splits dest!: src_Read_weight)
next
  case (Suc k)
  then obtain c e src where r: "src_Read (bufsize - length (br_buf b)) (br_src b) = Some (c, e, src)"
    by (auto split: option.splits prod.splits)
  note less = src_Read_weight [OF r]
  show ?case
  proof (cases "e = None \<and> c = []")
    case True
    then have "fill_loop (Suc k) (b\<lparr>br_src := src\<rparr>) = Some b'" using Suc.prems(1) r by (simp add: Let_def)
    from Suc.IH [OF this] show ?thesis using Suc.prems(2) less by simp
  next
    case False
    then show ?thesis using Suc.prems r less by (auto simp: Let_def split: if_splits)
  qed
qed

lemma fill_weight: "fill b = Some b' \<Longrightarrow> length (br_buf b) < bufsize \<Longrightarrow> weight (br_src b') < weight (br_src b)"
  using fill_loop_weight [of 99 b b'] by (simp add: fill_def eval_nat_numeral)

text \<open>
  \<^verbatim>\<open>ReadBytes\<close> up to a delimiter, with \<^verbatim>\<open>collectFragments\<close> and \<^verbatim>\<open>ReadSlice\<close>: a full buffer without the
  delimiter is put aside; an error comes with the bytes before it.
\<close>

function ReadBytes_loop :: "byte \<Rightarrow> byte list \<Rightarrow> bufr \<Rightarrow> bufr \<times> (byte list \<times> goerr option) res" where
  "ReadBytes_loop delim acc b =
     (if delim \<in> set (br_buf b) then
        (let line = takeWhile (\<lambda>x. x \<noteq> delim) (br_buf b) @ [delim]
         in (b\<lparr>br_buf := drop (length line) (br_buf b)\<rparr>, Ok (acc @ line, None)))
      else if br_err b \<noteq> None then
        (b\<lparr>br_buf := [], br_err := None\<rparr>, Ok (acc @ br_buf b, br_err b))
      else if bufsize \<le> length (br_buf b) then
        ReadBytes_loop delim (acc @ br_buf b) (b\<lparr>br_buf := []\<rparr>)
      else
        (case fill b of
           None \<Rightarrow> (b, Hang)
         | Some b' \<Rightarrow> ReadBytes_loop delim acc b'))"
  by pat_completeness auto
termination
  by (relation "measures [\<lambda>(d, acc, b). weight (br_src b), \<lambda>(d, acc, b). length (br_buf b)]")
    (auto simp: bufsize_def dest: fill_weight)

declare ReadBytes_loop.simps [simp del]


definition ReadBytes :: "byte \<Rightarrow> bufr \<Rightarrow> bufr \<times> (byte list \<times> goerr option) res" where
  "ReadBytes delim b = ReadBytes_loop delim [] b"

text \<open>\<^verbatim>\<open>(*Reader).Read(p)\<close> with \<open>len(p) = n\<close>: at most one read of the source.\<close>

definition bufio_Read :: "nat \<Rightarrow> bufr \<Rightarrow> bufr \<times> (byte list \<times> goerr option) res" where
  "bufio_Read n b =
     (if n = 0 then
        (if br_buf b \<noteq> [] then (b, Ok ([], None)) else (b\<lparr>br_err := None\<rparr>, Ok ([], br_err b)))
      else if br_buf b \<noteq> [] then (b\<lparr>br_buf := drop n (br_buf b)\<rparr>, Ok (take n (br_buf b), None))
      else if br_err b \<noteq> None then (b\<lparr>br_err := None\<rparr>, Ok ([], br_err b))
      else if bufsize \<le> n then
        (case src_Read n (br_src b) of
           None \<Rightarrow> (b, Hang)
         | Some (c, e, src) \<Rightarrow> (b\<lparr>br_src := src\<rparr>, Ok (c, e)))
      else
        (case src_Read bufsize (br_src b) of
           None \<Rightarrow> (b, Hang)
         | Some (c, e, src) \<Rightarrow>
             if c = [] then (b\<lparr>br_src := src\<rparr>, Ok ([], e))
             else (b\<lparr>br_buf := drop n c, br_err := e, br_src := src\<rparr>, Ok (take n c, None))))"

lemma bufio_Read_weight:
  "bufio_Read n b = (b', Ok (c, None)) \<Longrightarrow> 0 < n \<Longrightarrow>
   weight (br_src b') + length (br_buf b') < weight (br_src b) + length (br_buf b)"
  by (auto simp: bufio_Read_def bufsize_def split: if_splits option.splits dest!: src_Read_weight)

text \<open>\<^verbatim>\<open>io.ReadFull\<close> on a buffered reader.\<close>

function ReadFull_loop :: "nat \<Rightarrow> byte list \<Rightarrow> bufr \<Rightarrow> bufr \<times> byte list res" where
  "ReadFull_loop n acc b =
     (if n \<le> length acc then (b, Ok acc)
      else
        (case bufio_Read (n - length acc) b of
           (b', Ok (c, Some e)) \<Rightarrow>
             if n \<le> length (acc @ c) then (b', Ok (acc @ c))
             else (b', Fail (if acc @ c \<noteq> [] \<and> e = EOF then UnexpectedEOF else e))
         | (b', Ok (c, None)) \<Rightarrow> ReadFull_loop n (acc @ c) b'
         | (b', Fail e) \<Rightarrow> (b', Fail e)
         | (b', Panic) \<Rightarrow> (b', Panic)
         | (b', Hang) \<Rightarrow> (b', Hang)))"
  by pat_completeness auto
termination
  by (relation "measure (\<lambda>(n, acc, b). weight (br_src b) + length (br_buf b))")
    (auto dest: bufio_Read_weight [OF sym])

declare ReadFull_loop.simps [simp del]

definition ReadFull :: "nat \<Rightarrow> bufr \<Rightarrow> bufr \<times> byte list res" where
  "ReadFull n b = ReadFull_loop n [] b"

definition ReadByte :: "bufr \<Rightarrow> bufr \<times> byte res" where
  "ReadByte b =
     (case (if br_buf b = [] \<and> br_err b = None then fill b else Some b) of
        None \<Rightarrow> (b, Hang)
      | Some b' \<Rightarrow>
          (case (br_buf b', br_err b') of
             (x # xs, _) \<Rightarrow> (b'\<lparr>br_buf := xs\<rparr>, Ok x)
           | ([], Some e) \<Rightarrow> (b'\<lparr>br_err := None\<rparr>, Fail e)
           | ([], None) \<Rightarrow> (b', Hang)))"

section \<open>Writing\<close>

record sink =
  sk_out :: "byte list"
  sk_faults :: "fault list"

definition conn_Write :: "byte list \<Rightarrow> sink \<Rightarrow> sink \<times> nat \<times> goerr option" where
  "conn_Write p s =
     (case sk_faults s of
        Fault n e # r \<Rightarrow> (s\<lparr>sk_out := sk_out s @ take n p, sk_faults := r\<rparr>, length (take n p), Some e)
      | _ \<Rightarrow> (s\<lparr>sk_out := sk_out s @ p, sk_faults := tl (sk_faults s)\<rparr>, length p, None))"

record bufw =
  bw_buf :: "byte list"
  bw_err :: "goerr option"
  bw_sink :: sink

definition NewWriter :: "sink \<Rightarrow> bufw" where
  "NewWriter s = \<lparr>bw_buf = [], bw_err = None, bw_sink = s\<rparr>"

definition Flush :: "bufw \<Rightarrow> bufw \<times> unit res" where
  "Flush b =
     (case bw_err b of
        Some e \<Rightarrow> (b, Fail e)
      | None \<Rightarrow>
          if bw_buf b = [] then (b, Ok ())
          else
            (case conn_Write (bw_buf b) (bw_sink b) of
               (s, n, Some e) \<Rightarrow> (b\<lparr>bw_buf := drop n (bw_buf b), bw_err := Some e, bw_sink := s\<rparr>, Fail e)
             | (s, n, None) \<Rightarrow> (b\<lparr>bw_buf := [], bw_sink := s\<rparr>, Ok ())))"

text \<open>\<^verbatim>\<open>(*Writer).Write\<close>: large data bypass an empty buffer; an error is kept.\<close>

function bufio_Write :: "byte list \<Rightarrow> bufw \<Rightarrow> bufw \<times> unit res" where
  "bufio_Write p b =
     (case bw_err b of
        Some e \<Rightarrow> (b, Fail e)
      | None \<Rightarrow>
          if length p \<le> bufsize - length (bw_buf b) then (b\<lparr>bw_buf := bw_buf b @ p\<rparr>, Ok ())
          else if bw_buf b = [] then
            (case conn_Write p (bw_sink b) of
               (s, n, Some e) \<Rightarrow> (b\<lparr>bw_err := Some e, bw_sink := s\<rparr>, Fail e)
             | (s, n, None) \<Rightarrow> (b\<lparr>bw_sink := s\<rparr>, Ok ()))
          else
            (let k = bufsize - length (bw_buf b) in
             case Flush (b\<lparr>bw_buf := bw_buf b @ take k p\<rparr>) of
               (b', Ok _) \<Rightarrow> bufio_Write (drop k p) b'
             | (b', r) \<Rightarrow> (b', r)))"
  by pat_completeness auto

lemma Flush_Ok_empty: "Flush b = (b', Ok ()) \<Longrightarrow> bw_buf b' = []"
  by (auto simp: Flush_def split: option.splits if_splits prod.splits)

termination bufio_Write
  by (relation "measure (\<lambda>(p, b). 2 * length p + length (bw_buf b))")
    (auto simp: bufsize_def dest: Flush_Ok_empty [OF sym])

declare bufio_Write.simps [simp del]


section \<open>The bytes of a reader\<close>

text \<open>A connection delivers bytes or an error, never both and never neither.\<close>

definition conn_like :: "reads \<Rightarrow> bool" where
  "conn_like src = list_all (\<lambda>(c, e). (c = []) = (e \<noteq> None)) src"

fun src_bytes :: "reads \<Rightarrow> byte list" where
  "src_bytes [] = []"
| "src_bytes ((c, None) # r) = c @ src_bytes r"
| "src_bytes ((c, Some e) # r) = c"

fun src_end :: "reads \<Rightarrow> (goerr \<times> reads) option" where
  "src_end [] = None"
| "src_end ((c, None) # r) = src_end r"
| "src_end ((c, Some e) # r) = Some (e, r)"

definition avail :: "bufr \<Rightarrow> byte list" where
  "avail b = br_buf b @ (if br_err b = None then src_bytes (br_src b) else [])"

definition ending :: "bufr \<Rightarrow> (goerr \<times> reads) option" where
  "ending b = (case br_err b of Some e \<Rightarrow> Some (e, br_src b) | None \<Rightarrow> src_end (br_src b))"

definition bufr_ok :: "bufr \<Rightarrow> bool" where
  "bufr_ok b \<longleftrightarrow> conn_like (br_src b) \<and> length (br_buf b) \<le> bufsize"

text \<open>\<open>b'\<close> is \<open>b\<close> after \<open>used\<close> has been taken off the front.\<close>

definition consumed :: "byte list \<Rightarrow> bufr \<Rightarrow> bufr \<Rightarrow> bool" where
  "consumed used b b' \<longleftrightarrow> avail b = used @ avail b' \<and> ending b' = ending b \<and> bufr_ok b'"

lemma conn_like_simps [simp]:
  "conn_like []" "conn_like ((c, None) # r) \<longleftrightarrow> c \<noteq> [] \<and> conn_like r"
  "conn_like ((c, Some e) # r) \<longleftrightarrow> c = [] \<and> conn_like r"
  by (auto simp: conn_like_def)

lemma ending_buf [simp]: "ending (b\<lparr>br_buf := x\<rparr>) = ending b"
  by (simp add: ending_def split: option.splits)

lemma consumed_trans: "consumed u b b' \<Longrightarrow> consumed v b' b'' \<Longrightarrow> consumed (u @ v) b b''"
  by (simp add: consumed_def)

lemma NewReader_view [simp]:
  "avail (NewReader src) = src_bytes src" "ending (NewReader src) = src_end src"
  "bufr_ok (NewReader src) = conn_like src"
  by (simp_all add: NewReader_def avail_def ending_def bufr_ok_def)

text \<open>One read of the source: bytes off the front, or the error that ends them.\<close>

lemma src_Read_view:
  assumes "conn_like src" and "0 < n"
  shows "src = [] \<and> src_Read n src = None \<or>
    (\<exists>c src'. src_Read n src = Some (c, None, src') \<and> c \<noteq> [] \<and> length c \<le> n \<and> conn_like src' \<and>
       src_bytes src = c @ src_bytes src' \<and> src_end src' = src_end src) \<or>
    (\<exists>e src'. src_Read n src = Some ([], Some e, src') \<and> conn_like src' \<and> src_bytes src = [] \<and> src_end src = Some (e, src'))"
proof (cases src)
  case (Cons x r)
  obtain c e where "x = (c, e)" by (cases x)
  with Cons assms show ?thesis by (cases e) (auto simp: min_def)
qed simp

lemma fill_unfold:
  "fill b =
     (case src_Read (bufsize - length (br_buf b)) (br_src b) of
        None \<Rightarrow> None
      | Some (c, e, src) \<Rightarrow>
          (let b' = b\<lparr>br_buf := br_buf b @ c, br_src := src\<rparr> in
           if e \<noteq> None then Some (b'\<lparr>br_err := e\<rparr>)
           else if c \<noteq> [] then Some b'
           else fill_loop 99 b'))"
proof -
  have "fill b = fill_loop (Suc 99) b" by (simp add: fill_def)
  then show ?thesis by (simp only: fill_loop.simps(2))
qed

lemma fill_view:
  assumes "bufr_ok b" and "br_err b = None" and "length (br_buf b) < bufsize"
  obtains (blocks) "br_src b = []" "fill b = None"
  | (bytes) b' where "fill b = Some b'" "consumed [] b b'" "br_err b' = None" "length (br_buf b) < length (br_buf b')"
  | (error) b' where "fill b = Some b'" "consumed [] b b'" "br_buf b' = br_buf b" "br_err b' \<noteq> None"
proof -
  have "conn_like (br_src b)" "0 < bufsize - length (br_buf b)" using assms by (auto simp: bufr_ok_def)
  from src_Read_view [OF this] show thesis
  proof (elim disjE exE conjE)
    fix c src' assume r: "src_Read (bufsize - length (br_buf b)) (br_src b) = Some (c, None, src')" "c \<noteq> []"
      "length c \<le> bufsize - length (br_buf b)" "conn_like src'" "src_bytes (br_src b) = c @ src_bytes src'"
      "src_end src' = src_end (br_src b)"
    show thesis
      by (rule bytes [of "b\<lparr>br_buf := br_buf b @ c, br_src := src'\<rparr>"])
        (use r assms in \<open>simp_all add: fill_unfold Let_def consumed_def avail_def ending_def bufr_ok_def\<close>)
  next
    fix e src' assume r: "src_Read (bufsize - length (br_buf b)) (br_src b) = Some ([], Some e, src')" "conn_like src'"
      "src_bytes (br_src b) = []" "src_end (br_src b) = Some (e, src')"
    show thesis
      by (rule error [of "b\<lparr>br_err := Some e, br_src := src'\<rparr>"])
        (use r assms in \<open>simp_all add: fill_unfold Let_def consumed_def avail_def ending_def bufr_ok_def\<close>)
  qed (rule blocks, simp_all add: fill_unfold)
qed

subsection \<open>Lines\<close>

lemma split_first_unique: "d \<notin> set a \<Longrightarrow> d \<notin> set u \<Longrightarrow> a @ d # x = u @ d # v \<Longrightarrow> a = u \<and> x = v"
  by (induction a arbitrary: u) (auto simp: Cons_eq_append_conv append_eq_Cons_conv)

lemma split_first_later: "d \<notin> set a \<Longrightarrow> a @ x = u @ d # v \<Longrightarrow> \<exists>u'. u = a @ u' \<and> x = u' @ d # v"
  by (induction a arbitrary: u) (auto simp: Cons_eq_append_conv)

lemma split_takeWhile:
  "d \<in> set xs \<Longrightarrow> takeWhile (\<lambda>x. x \<noteq> d) xs @ d # drop (Suc (length (takeWhile (\<lambda>x. x \<noteq> d) xs))) xs = xs"
  by (induction xs) auto

lemma ReadBytes_loop_here:
  assumes "bufr_ok b" and "delim \<in> set (br_buf b)" and "delim \<notin> set u" and "avail b = u @ delim # v"
  shows "\<exists>b'. ReadBytes_loop delim acc b = (b', Ok (acc @ u @ [delim], None)) \<and> consumed (u @ [delim]) b b'"
proof -
  define t where "t = takeWhile (\<lambda>x. x \<noteq> delim) (br_buf b)"
  define ys where "ys = drop (Suc (length t)) (br_buf b)"
  define rest where "rest = (if br_err b = None then src_bytes (br_src b) else [])"
  have sp: "br_buf b = t @ delim # ys" unfolding ys_def t_def by (rule split_takeWhile [OF assms(2), symmetric])
  have av: "avail b = br_buf b @ rest" by (simp add: avail_def rest_def)
  then have eq: "t @ delim # (ys @ rest) = u @ delim # v" using assms(4) sp by simp
  have "delim \<notin> set t" by (auto simp: t_def dest: set_takeWhileD)
  from split_first_unique [OF this assms(3) eq] have t: "t = u" "ys @ rest = v" by simp_all
  have "ReadBytes_loop delim acc b = (b\<lparr>br_buf := ys\<rparr>, Ok (acc @ u @ [delim], None))"
    unfolding t(1) [symmetric] using assms(2)
    by (subst ReadBytes_loop.simps) (simp add: Let_def t_def [symmetric] ys_def [symmetric])
  moreover have "length ys \<le> length (br_buf b)" unfolding ys_def by simp
  then have "consumed (u @ [delim]) b (b\<lparr>br_buf := ys\<rparr>)"
    using assms(1,4) t(2) by (auto simp: consumed_def avail_def ending_def bufr_ok_def rest_def split: option.splits)
  ultimately show ?thesis by blast
qed

lemma ReadBytes_loop_line:
  "bufr_ok b \<Longrightarrow> delim \<notin> set u \<Longrightarrow> avail b = u @ delim # v \<Longrightarrow>
   \<exists>b'. ReadBytes_loop delim acc b = (b', Ok (acc @ u @ [delim], None)) \<and> consumed (u @ [delim]) b b'"
proof (induction delim acc b arbitrary: u rule: ReadBytes_loop.induct)
  case (1 delim acc b)
  show ?case
  proof (cases "delim \<in> set (br_buf b)")
    case False
    have err: "br_err b = None" and nil: "br_src b \<noteq> []"
      using False "1.prems"(3) by (auto simp: avail_def split: if_splits)
    show ?thesis
    proof (cases "bufsize \<le> length (br_buf b)")
      case True
      let ?b = "b\<lparr>br_buf := []\<rparr>"
      obtain u' where u': "u = br_buf b @ u'" "avail ?b = u' @ delim # v"
        using split_first_later [OF False, of "src_bytes (br_src b)" u v] "1.prems"(3) err by (auto simp: avail_def)
      moreover have "bufr_ok ?b" "\<not> br_err b \<noteq> None" using "1.prems"(1) err by (auto simp: bufr_ok_def)
      ultimately obtain b' where "ReadBytes_loop delim (acc @ br_buf b) ?b = (b', Ok ((acc @ br_buf b) @ u' @ [delim], None))"
        "consumed (u' @ [delim]) ?b b'"
        using "1.IH"(1) [OF False _ True, of u'] "1.prems"(2) by auto
      then show ?thesis using False True err u'
        by (subst ReadBytes_loop.simps) (auto simp: consumed_def avail_def ending_def)
    next
      case notfull: False
      have step: ?thesis if f: "fill b = Some b1" "consumed [] b b1" for b1
      proof -
        have "bufr_ok b1" "avail b1 = u @ delim # v" "\<not> br_err b \<noteq> None"
          using f(2) "1.prems"(3) err by (simp_all add: consumed_def)
        then obtain b' where "ReadBytes_loop delim acc b1 = (b', Ok (acc @ u @ [delim], None))" "consumed (u @ [delim]) b1 b'"
          using "1.IH"(2) [OF False _ notfull f(1)] "1.prems"(2) by blast
        then show ?thesis using f False err notfull consumed_trans [OF f(2)]
          by (subst ReadBytes_loop.simps) auto
      qed
      show ?thesis
        by (rule fill_view [OF "1.prems"(1) err]) (use notfull nil step in auto)
    qed
  qed (use ReadBytes_loop_here "1.prems" in blast)
qed


text \<open>No further line: the error that ends the bytes, or a wait for ever.\<close>

lemma ReadBytes_loop_end:
  "bufr_ok b \<Longrightarrow> delim \<notin> set (avail b) \<Longrightarrow>
   (case ending b of
      None \<Rightarrow> snd (ReadBytes_loop delim acc b) = Hang
    | Some (e, r) \<Rightarrow> ReadBytes_loop delim acc b = (NewReader r, Ok (acc @ avail b, Some e)))"
proof (induction delim acc b rule: ReadBytes_loop.induct)
  case (1 delim acc b)
  have nin: "delim \<notin> set (br_buf b)" using "1.prems"(2) by (simp add: avail_def)
  show ?case
  proof (cases "br_err b")
    case (Some e)
    then show ?thesis using nin
      by (subst ReadBytes_loop.simps) (cases b, simp add: avail_def ending_def NewReader_def)
  next
    case None
    show ?thesis
    proof (cases "bufsize \<le> length (br_buf b)")
      case True
      have "bufr_ok (b\<lparr>br_buf := []\<rparr>)" "delim \<notin> set (avail (b\<lparr>br_buf := []\<rparr>))" "\<not> br_err b \<noteq> None"
        using "1.prems" None by (auto simp: bufr_ok_def avail_def)
      from "1.IH"(1) [OF nin this(3) True this(1,2)] show ?thesis using nin None True
        by (subst (1 2) ReadBytes_loop.simps) (auto simp: avail_def ending_def split: option.splits)
    next
      case notfull: False
      have step: ?thesis if f: "fill b = Some b1" "consumed [] b b1" for b1
      proof -
        have "bufr_ok b1" "avail b1 = avail b" "ending b1 = ending b" "\<not> br_err b \<noteq> None"
          using f(2) None by (simp_all add: consumed_def)
        then show ?thesis using "1.IH"(2) [OF nin _ notfull f(1)] "1.prems"(2) nin None notfull f(1)
          by (subst (1 2) ReadBytes_loop.simps) (auto split: option.splits)
      qed
      show ?thesis
      proof (rule fill_view [OF "1.prems"(1) None])
        assume "br_src b = []" "fill b = None"
        then show ?thesis using nin None notfull
          by (subst (1 2) ReadBytes_loop.simps) (simp add: ending_def)
      qed (use notfull step in auto)
    qed
  qed
qed

lemma ReadBytes_line:
  "bufr_ok b \<Longrightarrow> delim \<notin> set u \<Longrightarrow> avail b = u @ delim # v \<Longrightarrow>
   \<exists>b'. ReadBytes delim b = (b', Ok (u @ [delim], None)) \<and> avail b' = v \<and> ending b' = ending b \<and> bufr_ok b'"
  using ReadBytes_loop_line [of b delim u v "[]"] by (auto simp: ReadBytes_def consumed_def)

lemma ReadBytes_end:
  "bufr_ok b \<Longrightarrow> delim \<notin> set (avail b) \<Longrightarrow> ending b = Some (e, r) \<Longrightarrow>
   ReadBytes delim b = (NewReader r, Ok (avail b, Some e))"
  using ReadBytes_loop_end [of b delim "[]"] by (simp add: ReadBytes_def)

subsection \<open>Exact amounts\<close>

lemma bufio_Read_view:
  assumes "bufr_ok b" and "0 < n" and "avail b \<noteq> []"
  shows "\<exists>c b'. bufio_Read n b = (b', Ok (c, None)) \<and> c \<noteq> [] \<and> length c \<le> n \<and> consumed c b b'"
proof (cases "br_buf b = []")
  case False
  then show ?thesis using assms
    by (intro exI [of _ "take n (br_buf b)"] exI [of _ "b\<lparr>br_buf := drop n (br_buf b)\<rparr>"])
      (auto simp: bufio_Read_def consumed_def avail_def bufr_ok_def)
next
  case True
  then have b: "br_err b = None" "conn_like (br_src b)" "src_bytes (br_src b) \<noteq> []"
    using assms(1,3) by (auto simp: avail_def bufr_ok_def split: if_splits)
  have "0 < bufsize" by (simp add: bufsize_def)
  note big = src_Read_view [OF b(2) assms(2)] and small = src_Read_view [OF b(2) this]
  show ?thesis
  proof (cases "bufsize \<le> n")
    case True
    obtain c src' where r: "src_Read n (br_src b) = Some (c, None, src')" "c \<noteq> []" "length c \<le> n" "conn_like src'"
      "src_bytes (br_src b) = c @ src_bytes src'" "src_end src' = src_end (br_src b)"
      using big b(3) by auto
    then show ?thesis using True \<open>br_buf b = []\<close> b(1) assms(2)
      by (intro exI [of _ c] exI [of _ "b\<lparr>br_src := src'\<rparr>"])
        (simp add: bufio_Read_def consumed_def avail_def ending_def bufr_ok_def)
  next
    case False
    obtain c src' where r: "src_Read bufsize (br_src b) = Some (c, None, src')" "c \<noteq> []" "length c \<le> bufsize" "conn_like src'"
      "src_bytes (br_src b) = c @ src_bytes src'" "src_end src' = src_end (br_src b)"
      using small b(3) by auto
    then show ?thesis using False \<open>br_buf b = []\<close> b(1) assms(2)
      by (intro exI [of _ "take n c"] exI [of _ "b\<lparr>br_buf := drop n c, br_err := None, br_src := src'\<rparr>"])
        (simp add: bufio_Read_def consumed_def avail_def ending_def bufr_ok_def)
  qed
qed

lemma ReadFull_loop_ok:
  "bufr_ok b \<Longrightarrow> n \<le> length acc + length (avail b) \<Longrightarrow> length acc \<le> n \<Longrightarrow>
   \<exists>b'. ReadFull_loop n acc b = (b', Ok (acc @ take (n - length acc) (avail b))) \<and>
     consumed (take (n - length acc) (avail b)) b b'"
proof (induction n acc b rule: ReadFull_loop.induct)
  case (1 n acc b)
  show ?case
  proof (cases "n \<le> length acc")
    case True
    then show ?thesis using "1.prems" by (subst ReadFull_loop.simps) (simp add: consumed_def)
  next
    case False
    then have "0 < n - length acc" "avail b \<noteq> []" using "1.prems" by auto
    then obtain c b1 where c: "bufio_Read (n - length acc) b = (b1, Ok (c, None))" "c \<noteq> []" "length c \<le> n - length acc"
      "consumed c b b1"
      using bufio_Read_view [OF "1.prems"(1)] by blast
    have b1: "bufr_ok b1" "avail b = c @ avail b1" using c(4) by (simp_all add: consumed_def)
    obtain b' where "ReadFull_loop n (acc @ c) b1 = (b', Ok ((acc @ c) @ take (n - length (acc @ c)) (avail b1)))"
      "consumed (take (n - length (acc @ c)) (avail b1)) b1 b'"
      using "1.IH" [OF False c(1) [symmetric] refl refl refl b1(1)] "1.prems"(2,3) b1(2) c(3) False by force
    then show ?thesis using False c b1 consumed_trans [OF c(4), of "take (n - length (acc @ c)) (avail b1)" b']
      by (subst ReadFull_loop.simps) simp
  qed
qed

lemma ReadFull_ok:
  assumes "bufr_ok b" and "avail b = u @ v" and "length u = n"
  shows "\<exists>b'. ReadFull n b = (b', Ok u) \<and> avail b' = v \<and> ending b' = ending b \<and> bufr_ok b'"
  using ReadFull_loop_ok [of b n "[]"] assms by (auto simp: ReadFull_def consumed_def)

lemma ReadByte_ok:
  assumes "bufr_ok b" and "avail b = x # v"
  shows "\<exists>b'. ReadByte b = (b', Ok x) \<and> avail b' = v \<and> ending b' = ending b \<and> bufr_ok b'"
proof -
  have here: "ReadByte b = (b1\<lparr>br_buf := tl (br_buf b1)\<rparr>, Ok x) \<and> avail (b1\<lparr>br_buf := tl (br_buf b1)\<rparr>) = v \<and>
      ending (b1\<lparr>br_buf := tl (br_buf b1)\<rparr>) = ending b \<and> bufr_ok (b1\<lparr>br_buf := tl (br_buf b1)\<rparr>)"
    if b1: "(if br_buf b = [] \<and> br_err b = None then fill b else Some b) = Some b1" "br_buf b1 \<noteq> []"
      "avail b1 = avail b" "ending b1 = ending b" "bufr_ok b1" for b1
    using b1(2-) assms(2) by (cases "br_buf b1") (auto simp: ReadByte_def b1(1) avail_def bufr_ok_def)
  show ?thesis
  proof (cases "br_buf b = [] \<and> br_err b = None")
    case True
    then have sp: "length (br_buf b) < bufsize" "br_src b \<noteq> []" using assms by (auto simp: bufsize_def avail_def)
    obtain b1 where "fill b = Some b1" "consumed [] b b1" "br_buf b1 \<noteq> []"
    proof (rule fill_view [OF assms(1) conjunct2 [OF True] sp(1)])
      fix b1 assume "fill b = Some b1" "consumed [] b b1" "br_buf b1 = br_buf b" "br_err b1 \<noteq> None"
      then show thesis using True assms(2) by (auto simp: consumed_def avail_def)
    qed (use sp(2) that True in auto)
    with here [of b1] True show ?thesis by (auto simp: consumed_def)
  next
    case False
    then have "br_buf b \<noteq> []" using assms(2) by (auto simp: avail_def)
    with here [of b] False assms(1) show ?thesis by auto
  qed
qed


lemma reader_drained:
  assumes "bufr_ok b" and "avail b = []" and "ending b = None"
  shows "br_src b = []"
proof (cases "br_src b")
  case (Cons x r)
  obtain c e where "x = (c, e)" by (cases x)
  then show ?thesis using Cons assms
    by (cases e) (auto simp: avail_def ending_def bufr_ok_def split: option.splits if_splits)
qed

section \<open>Writing without faults\<close>

definition bufw_ok :: "bufw \<Rightarrow> bool" where
  "bufw_ok b \<longleftrightarrow> bw_err b = None \<and> sk_faults (bw_sink b) = []"

text \<open>What has been written, in the buffer or behind it.\<close>

definition written :: "bufw \<Rightarrow> byte list" where
  "written b = sk_out (bw_sink b) @ bw_buf b"

lemma NewWriter_view [simp]: "bufw_ok (NewWriter s) = (sk_faults s = [])" "written (NewWriter s) = sk_out s"
  by (simp_all add: bufw_ok_def written_def NewWriter_def)

lemma Flush_ok:
  "bufw_ok b \<Longrightarrow> \<exists>b'. Flush b = (b', Ok ()) \<and> bufw_ok b' \<and> bw_buf b' = [] \<and> written b' = written b"
  by (auto simp: Flush_def bufw_ok_def written_def conn_Write_def)

lemma bufio_Write_ok:
  "bufw_ok b \<Longrightarrow> \<exists>b'. bufio_Write p b = (b', Ok ()) \<and> bufw_ok b' \<and> written b' = written b @ p"
proof (induction p b rule: bufio_Write.induct)
  case (1 p b)
  then have b: "bw_err b = None" "sk_faults (bw_sink b) = []" by (simp_all add: bufw_ok_def)
  show ?case
  proof (cases "length p \<le> bufsize - length (bw_buf b) \<or> bw_buf b = []")
    case True
    then show ?thesis using b by (subst bufio_Write.simps) (auto simp: bufw_ok_def written_def conn_Write_def)
  next
    case False
    let ?k = "bufsize - length (bw_buf b)"
    obtain b1 where b1: "Flush (b\<lparr>bw_buf := bw_buf b @ take ?k p\<rparr>) = (b1, Ok ())" "bufw_ok b1"
      "written b1 = written b @ take ?k p"
      using Flush_ok [of "b\<lparr>bw_buf := bw_buf b @ take ?k p\<rparr>"] b by (auto simp: bufw_ok_def written_def)
    then obtain b' where "bufio_Write (drop ?k p) b1 = (b', Ok ())" "bufw_ok b'" "written b' = written b1 @ drop ?k p"
      using "1.IH" [OF b(1) _ _ refl b1(1) [symmetric] refl] False by auto
    then show ?thesis using False b b1 by (subst bufio_Write.simps) (simp add: Let_def)
  qed
qed

lemma writer_sticky: "bw_err b = Some e \<Longrightarrow> Flush b = (b, Fail e) \<and> bufio_Write p b = (b, Fail e)"
  by (simp add: Flush_def bufio_Write.simps)

section \<open>Texts of errors\<close>

fun error_text :: "goerr \<Rightarrow> string" where
  "error_text ErrUnknowMethod = ''unknow method''"
| "error_text ErrWrongQuery = ''wrong query''"
| "error_text ErrWrongArgsLen = ''wrong args length''"
| "error_text ErrNotFound = ''not found''"
| "error_text ErrIndexNotFound = ''index not found''"
| "error_text ErrNoNewLogs = ''no new logs''"
| "error_text ErrNonReadOpSlave = ''non read operation on slave''"
| "error_text (ErrUnknownCommand m) = ''unknown command ID: '' @ decimal (unat m)"
| "error_text ErrArgTooLarge = ''argument too large''"
| "error_text ErrNoTarget = ''no target''"
| "error_text ErrFuncNil = ''func is nil''"
| "error_text ErrLsnZero = ''lsnID is 0''"
| "error_text ErrShortRequest = ''not enough bytes to unmarshal Request''"
| "error_text ErrInvalidDataLength = ''invalid data length''"
| "error_text ErrNotExist = ''file does not exist''"
| "error_text ErrClosed = ''file already closed''"
| "error_text EOF = ''EOF''"
| "error_text UnexpectedEOF = ''unexpected EOF''"
| "error_text CtxCanceled = ''context canceled''"
| "error_text CtxDeadlineExceeded = ''context deadline exceeded''"
| "error_text (IOErr s) = s"
| "error_text (NetErr s) = s"
| "error_text (Remote s) = s"
| "error_text (Wrap m e) = m @ error_text e"

end
