(* ===== verification/Handlers.thy ===== *)
theory Handlers
  imports Database Bufio
begin

text \<open>
  \<^verbatim>\<open>internal/handlers/handlers.go\<close>: one call of \<^verbatim>\<open>Handle\<close> reads a line, parses it, executes the query
  and writes the answer or the text of the error. The parser and the database are the interfaces
  \<^verbatim>\<open>QueryBuilder\<close> and \<^verbatim>\<open>Database\<close>; the program uses \<^verbatim>\<open>query.Builder\<close> and \<^verbatim>\<open>database.Database\<close>.
\<close>

section \<open>The handler\<close>

record 'd handler =
  h_Parse :: "byte list \<Rightarrow> query res"
  h_Execute :: "context_t \<Rightarrow> query \<Rightarrow> 'd \<Rightarrow> 'd \<times> string res"

definition NewUniversalHandler ::
  "(byte list \<Rightarrow> query res) \<Rightarrow> (context_t \<Rightarrow> query \<Rightarrow> 'd \<Rightarrow> 'd \<times> string res) \<Rightarrow> 'd handler" where
  "NewUniversalHandler qb ex = \<lparr>h_Parse = qb, h_Execute = ex\<rparr>"

text \<open>A line break.\<close>

definition newline :: byte where "newline = 10"

record 'd hconn =
  hc_r :: bufr
  hc_w :: bufw
  hc_db :: 'd

definition handler_write :: "string \<Rightarrow> bufw \<Rightarrow> bufw \<times> unit res" where
  "handler_write v bw =
     (case bufio_Write (bytes_of_string v @ [newline]) bw of
        (bw1, Ok _) \<Rightarrow> Flush bw1
      | (bw1, r) \<Rightarrow> (bw1, r))"

definition handler_writeError :: "goerr \<Rightarrow> bufw \<Rightarrow> bufw \<times> unit res" where
  "handler_writeError e bw =
     (if errors_Is e EOF then (bw, Fail e)
      else
        (case bufio_Write (bytes_of_string (error_text e) @ [newline]) bw of
           (bw1, Ok _) \<Rightarrow> Flush bw1
         | (bw1, r) \<Rightarrow> (bw1, r)))"

definition report :: "goerr \<Rightarrow> 'd hconn \<Rightarrow> 'd hconn \<times> unit res" where
  "report e c = (case handler_writeError e (hc_w c) of (bw, r) \<Rightarrow> (c\<lparr>hc_w := bw\<rparr>, r))"

text \<open>
  \<^verbatim>\<open>Handle\<close> on the buffered reader and writer of a connection; \<^verbatim>\<open>bufio.NewReader\<close> and
  \<^verbatim>\<open>NewWriter\<close> return a buffered one unchanged.
\<close>

definition Handle :: "'d handler \<Rightarrow> context_t \<Rightarrow> 'd hconn \<Rightarrow> 'd hconn \<times> unit res" where
  "Handle h ctx c =
     (case ctx_err ctx of
        Some e \<Rightarrow> (c, Fail e)
      | None \<Rightarrow>
          (case ReadBytes newline (hc_r c) of
             (br, Ok (inp, Some e)) \<Rightarrow> report e (c\<lparr>hc_r := br\<rparr>)
           | (br, Ok (inp, None)) \<Rightarrow>
               (let c1 = c\<lparr>hc_r := br\<rparr> in
                case h_Parse h inp of
                  Ok q \<Rightarrow>
                    (case h_Execute h ctx q (hc_db c1) of
                       (db, Ok v) \<Rightarrow>
                         (case handler_write v (hc_w c1) of
                            (bw, Fail e) \<Rightarrow> report e (c1\<lparr>hc_db := db, hc_w := bw\<rparr>)
                          | (bw, r) \<Rightarrow> (c1\<lparr>hc_db := db, hc_w := bw\<rparr>, r))
                     | (db, Fail e) \<Rightarrow> report e (c1\<lparr>hc_db := db\<rparr>)
                     | (db, Panic) \<Rightarrow> (c1\<lparr>hc_db := db\<rparr>, Panic)
                     | (db, Hang) \<Rightarrow> (c1\<lparr>hc_db := db\<rparr>, Hang))
                | Fail e \<Rightarrow> report e c1
                | Panic \<Rightarrow> (c1, Panic)
                | Hang \<Rightarrow> (c1, Hang))
           | (br, Fail e) \<Rightarrow> report e (c\<lparr>hc_r := br\<rparr>)
           | (br, Panic) \<Rightarrow> (c\<lparr>hc_r := br\<rparr>, Panic)
           | (br, Hang) \<Rightarrow> (c\<lparr>hc_r := br\<rparr>, Hang)))"

section \<open>What a line does\<close>

text \<open>The answer to a line and the database after it.\<close>

definition answer :: "'d handler \<Rightarrow> context_t \<Rightarrow> byte list \<Rightarrow> 'd \<Rightarrow> ('d \<times> string) option" where
  "answer h ctx inp db =
     (case h_Parse h inp of
        Ok q \<Rightarrow>
          (case h_Execute h ctx q db of
             (db', Ok v) \<Rightarrow> Some (db', v)
           | (db', Fail e) \<Rightarrow> if errors_Is e EOF then None else Some (db', error_text e)
           | _ \<Rightarrow> None)
      | Fail e \<Rightarrow> if errors_Is e EOF then None else Some (db, error_text e)
      | _ \<Rightarrow> None)"

definition reply :: "string \<Rightarrow> byte list" where
  "reply v = bytes_of_string v @ [newline]"

lemma handler_write_ok:
  assumes "bufw_ok bw"
  shows "\<exists>bw'. handler_write v bw = (bw', Ok ()) \<and> bufw_ok bw' \<and> bw_buf bw' = [] \<and> written bw' = written bw @ reply v"
proof -
  obtain b1 where "bufio_Write (reply v) bw = (b1, Ok ())" "bufw_ok b1" "written b1 = written bw @ reply v"
    using bufio_Write_ok [OF assms] by blast
  then show ?thesis using Flush_ok [of b1] by (auto simp: handler_write_def reply_def)
qed

lemma report_ok:
  assumes "bufw_ok (hc_w c)" and "\<not> errors_Is e EOF"
  shows "\<exists>bw'. report e c = (c\<lparr>hc_w := bw'\<rparr>, Ok ()) \<and> bufw_ok bw' \<and> bw_buf bw' = [] \<and>
    written bw' = written (hc_w c) @ reply (error_text e)"
  using handler_write_ok [OF assms(1), of "error_text e"] assms(2)
  by (auto simp: report_def handler_writeError_def handler_write_def split: prod.splits)

text \<open>What follows the reading of a line.\<close>

lemma Handle_read:
  assumes ctx: "ctx_err ctx = None" and br: "ReadBytes newline (hc_r c) = (br, Ok (l @ [newline], None))"
    and w: "bufw_ok (hc_w c)" and a: "answer h ctx (l @ [newline]) (hc_db c) = Some (db, v)"
  shows "\<exists>bw. Handle h ctx c = (c\<lparr>hc_r := br, hc_db := db, hc_w := bw\<rparr>, Ok ()) \<and>
    bufw_ok bw \<and> bw_buf bw = [] \<and> written bw = written (hc_w c) @ reply v"
proof -
  define c1 where "c1 = c\<lparr>hc_r := br\<rparr>"
  have c1: "hc_w c1 = hc_w c" "hc_db c1 = hc_db c" "c1\<lparr>hc_db := hc_db c\<rparr> = c1" by (simp_all add: c1_def)
  show ?thesis
  proof (cases "h_Parse h (l @ [newline])")
    case (Ok q)
    obtain db' res where ex: "h_Execute h ctx q (hc_db c) = (db', res)" by (cases "h_Execute h ctx q (hc_db c)")
    with a Ok have db: "db' = db" by (auto simp: answer_def split: res.splits if_splits)
    show ?thesis
    proof (cases res)
      case (Ok v')
      with a \<open>h_Parse h _ = Ok q\<close> ex have "v' = v" by (simp add: answer_def)
      obtain bw where bw: "handler_write v (hc_w c) = (bw, Ok ())" "bufw_ok bw" "bw_buf bw = []"
        "written bw = written (hc_w c) @ reply v"
        using handler_write_ok [OF w] by blast
      then have "Handle h ctx c = (c\<lparr>hc_r := br, hc_db := db, hc_w := bw\<rparr>, Ok ())"
        using br ctx ex \<open>h_Parse h _ = Ok q\<close> Ok db \<open>v' = v\<close> by (simp add: Handle_def)
      then show ?thesis using br bw by blast
    next
      case (Fail e)
      with a \<open>h_Parse h _ = Ok q\<close> ex have e: "\<not> errors_Is e EOF" "v = error_text e"
        by (auto simp: answer_def split: if_splits)
      with report_ok [of "c1\<lparr>hc_db := db\<rparr>" e] w br ctx ex \<open>h_Parse h _ = Ok q\<close> Fail db show ?thesis
        by (auto simp: Handle_def c1_def)
    qed (use a \<open>h_Parse h _ = Ok q\<close> ex in \<open>auto simp: answer_def\<close>)
  next
    case (Fail e)
    with a have e: "\<not> errors_Is e EOF" "v = error_text e" "db = hc_db c"
      by (auto simp: answer_def split: if_splits)
    with report_ok [of c1 e] w br ctx Fail c1 show ?thesis by (auto simp: Handle_def c1_def)
  qed (use a in \<open>auto simp: answer_def\<close>)
qed

text \<open>One line: the answer is written, the reader stands behind the line.\<close>

lemma Handle_line:
  assumes ctx: "ctx_err ctx = None" and r: "bufr_ok (hc_r c)" "avail (hc_r c) = l @ newline # rest" "newline \<notin> set l"
    and w: "bufw_ok (hc_w c)" and a: "answer h ctx (l @ [newline]) (hc_db c) = Some (db, v)"
  shows "\<exists>br bw. Handle h ctx c = (c\<lparr>hc_r := br, hc_db := db, hc_w := bw\<rparr>, Ok ()) \<and>
    bufr_ok br \<and> avail br = rest \<and> ending br = ending (hc_r c) \<and>
    bufw_ok bw \<and> bw_buf bw = [] \<and> written bw = written (hc_w c) @ reply v"
proof -
  obtain br where "ReadBytes newline (hc_r c) = (br, Ok (l @ [newline], None))" "avail br = rest"
    "ending br = ending (hc_r c)" "bufr_ok br"
    using ReadBytes_line [OF r(1,3,2)] by blast
  with Handle_read [OF ctx this(1) w a] show ?thesis by blast
qed

text \<open>The end of the input: the incomplete last line is dropped and \<^verbatim>\<open>io.EOF\<close> is returned.\<close>

lemma Handle_EOF:
  assumes "ctx_err ctx = None" and "bufr_ok (hc_r c)" "newline \<notin> set (avail (hc_r c))" "ending (hc_r c) = Some (EOF, r)"
  shows "Handle h ctx c = (c\<lparr>hc_r := NewReader r\<rparr>, Fail EOF)"
  using ReadBytes_end [OF assms(2-4)] assms(1) by (simp add: Handle_def report_def handler_writeError_def)

end
