(* ===== verification/Protocol.thy ===== *)
theory Protocol
  imports Bufio
begin

text \<open>
  \<^verbatim>\<open>internal/database/replication/protocol.go\<close>: the request of a slave, a sequence number in eight
  bytes, and the response of the master, a flag, a signed 32-bit length and the data or the text
  of an error.
\<close>

section \<open>Requests\<close>

definition reqSize :: nat where "reqSize = 8"

record request =
  LsnID :: u64

definition Request_Marshal :: "request \<Rightarrow> byte list res" where
  "Request_Marshal r = Ok (le_bytes reqSize (unat (LsnID r)))"

definition Request_Unmarshal :: "byte list \<Rightarrow> request res" where
  "Request_Unmarshal data =
     (if length data < reqSize then Fail ErrShortRequest
      else Ok \<lparr>LsnID = word_of_nat (le_val (take 8 data))\<rparr>)"

section \<open>Responses\<close>

definition errFlag :: byte where "errFlag = 1"
definition okFlag :: byte where "okFlag = 0"

record response =
  rs_Data :: "byte list"
  rs_Err :: "goerr option"

text \<open>\<^verbatim>\<open>binary.Write(buf, binary.BigEndian, int32(n))\<close>; the conversion keeps the low 32 bits.\<close>

definition int32_bytes :: "nat \<Rightarrow> byte list" where
  "int32_bytes n = be_bytes 4 (unat (word_of_nat n :: 32 word))"

definition int32_value :: "byte list \<Rightarrow> int" where
  "int32_value bs = sint (word_of_nat (be_val bs) :: 32 word)"

definition writerData :: "response \<Rightarrow> byte list \<Rightarrow> byte list" where
  "writerData r out = out @ int32_bytes (length (rs_Data r)) @ rs_Data r"

definition writerError :: "goerr \<Rightarrow> byte list \<Rightarrow> byte list" where
  "writerError e out =
     (let errStr = error_text e in out @ int32_bytes (length errStr) @ bytes_of_string errStr)"

definition WriteMessage :: "response \<Rightarrow> byte list res" where
  "WriteMessage r =
     (case rs_Err r of
        Some e \<Rightarrow> Ok (writerError e [errFlag])
      | None \<Rightarrow> Ok (writerData r [okFlag]))"

text \<open>
  \<^verbatim>\<open>ReadMessage\<close> makes a buffered reader of its own; what that has read beyond the message is gone
  with it. The result is what is left of the connection and the response.
\<close>

definition ReadMessage :: "reads \<Rightarrow> reads \<times> response res" where
  "ReadMessage r =
     (case ReadByte (NewReader r) of
        (b1, Ok flag) \<Rightarrow>
          (case ReadFull 4 b1 of
             (b2, Ok l) \<Rightarrow>
               (let dataLen = int32_value l in
                if dataLen < 0 then (br_src b2, Fail ErrInvalidDataLength)
                else
                  (case ReadFull (nat dataLen) b2 of
                     (b3, r3) \<Rightarrow>
                       (br_src b3, then_res r3 (\<lambda>data.
                          if flag = 1 then Ok \<lparr>rs_Data = [], rs_Err = Some (Remote (string_of_bytes data))\<rparr>
                          else Ok \<lparr>rs_Data = data, rs_Err = None\<rparr>))))
           | (b2, r2) \<Rightarrow> (br_src b2, then_res r2 (\<lambda>_. Panic)))
      | (b1, r1) \<Rightarrow> (br_src b1, then_res r1 (\<lambda>_. Panic)))"

section \<open>Sending rows\<close>

fun flatten :: "row list \<Rightarrow> byte list res" where
  "flatten [] = Ok []"
| "flatten (r # rows) = then_res (Marshal r) (\<lambda>b. then_res (flatten rows) (\<lambda>bs. Ok (b @ bs)))"

definition ConnTarget_Write :: "bufw target" where
  "ConnTarget_Write rows conn =
     (case then_res (flatten rows) (\<lambda>data. WriteMessage \<lparr>rs_Data = data, rs_Err = None\<rparr>) of
        Ok respBytes \<Rightarrow> bufio_Write respBytes conn
      | Fail e \<Rightarrow> (conn, Fail e)
      | Panic \<Rightarrow> (conn, Panic)
      | Hang \<Rightarrow> (conn, Hang))"

section \<open>Lemmas\<close>

lemma Request_roundtrip: "Request_Marshal r = Ok bs \<Longrightarrow> Request_Unmarshal (bs @ rest) = Ok r"
  using unat_u64_lt [of "LsnID r"] by (auto simp: Request_Marshal_def Request_Unmarshal_def reqSize_def le_val_le_bytes)

lemma int32_value_bytes: "int32_value (int32_bytes n) = signed_take_bit 31 (int n)"
proof -
  have "be_val (int32_bytes n) = n mod 2 ^ 32"
    by (simp add: int32_bytes_def codec_simps unat_of_nat)
  then have "(word_of_nat (be_val (int32_bytes n)) :: 32 word) = word_of_nat n"
    by (simp add: word_unat_eq_iff unat_of_nat)
  then show ?thesis
    by (simp add: int32_value_def sint_uint uint_nat unat_of_nat signed_take_bit_eq_take_bit_shift take_bit_eq_mod
        zmod_int mod_add_left_eq)
qed

lemma int32_roundtrip: "n < 2 ^ 31 \<Longrightarrow> int32_value (int32_bytes n) = int n"
  unfolding int32_value_bytes by (rule signed_take_bit_int_eq_self) simp_all

lemma int32_bytes_mod: "int32_bytes n = int32_bytes (n mod 2 ^ 32)"
proof -
  have "(word_of_nat n :: 32 word) = word_of_nat (n mod 2 ^ 32)" by (simp add: word_unat_eq_iff unat_of_nat)
  then show ?thesis by (simp only: int32_bytes_def)
qed

lemma int32_negative:
  assumes "2 ^ 31 \<le> n mod 2 ^ 32"
  shows "int32_value (int32_bytes n) < 0"
proof -
  let ?n = "n mod 2 ^ 32"
  have "?n div 2 ^ 31 = 1" using assms mod_less_divisor [of "2 ^ 32" n] by (simp add: div_nat_eqI)
  then have "int ?n div 2 ^ 31 = 1" by (metis of_nat_1 of_nat_numeral of_nat_power zdiv_int)
  then have "bit (int ?n) 31" by (simp add: bit_iff_odd)
  then show ?thesis unfolding int32_bytes_mod [of n] int32_value_bytes by simp
qed

lemma flatten_encs: "list_all row_ok rows \<Longrightarrow> flatten rows = Ok (encs rows)"
  by (induction rows) (auto simp: row_ok_Marshal)


text \<open>A message in any pieces, with anything after it.\<close>

lemma ReadMessage_ok:
  assumes "conn_like src" and "src_bytes src = flag # int32_bytes (length data) @ data @ rest" and "length data < 2 ^ 31"
  shows "snd (ReadMessage src) =
      Ok (if flag = 1 then \<lparr>rs_Data = [], rs_Err = Some (Remote (string_of_bytes data))\<rparr>
          else \<lparr>rs_Data = data, rs_Err = None\<rparr>)"
    and "rest = [] \<Longrightarrow> src_end src = None \<Longrightarrow> fst (ReadMessage src) = []"
proof -
  obtain b1 where b1: "ReadByte (NewReader src) = (b1, Ok flag)" "bufr_ok b1" "avail b1 = int32_bytes (length data) @ data @ rest"
      "ending b1 = src_end src"
    using ReadByte_ok [of "NewReader src"] assms(1,2) by auto
  obtain b2 where b2: "ReadFull 4 b1 = (b2, Ok (int32_bytes (length data)))" "bufr_ok b2" "avail b2 = data @ rest"
      "ending b2 = src_end src"
    using ReadFull_ok [OF b1(2,3), of 4] b1(4) by (auto simp: int32_bytes_def)
  obtain b3 where b3: "ReadFull (length data) b2 = (b3, Ok data)" "bufr_ok b3" "avail b3 = rest" "ending b3 = src_end src"
    using ReadFull_ok [OF b2(2,3)] b2(4) by auto
  show "snd (ReadMessage src) =
      Ok (if flag = 1 then \<lparr>rs_Data = [], rs_Err = Some (Remote (string_of_bytes data))\<rparr>
          else \<lparr>rs_Data = data, rs_Err = None\<rparr>)"
    using b1 b2 b3 int32_roundtrip [OF assms(3)] by (simp add: ReadMessage_def)
  assume "rest = []" "src_end src = None"
  then have "br_src b3 = []" using reader_drained [OF b3(2)] b3(3,4) by simp
  then show "fst (ReadMessage src) = []" using b1 b2 b3 int32_roundtrip [OF assms(3)] by (simp add: ReadMessage_def)
qed

lemma ReadMessage_negative:
  assumes "conn_like src" and "src_bytes src = flag # int32_bytes n @ rest" and "2 ^ 31 \<le> n mod 2 ^ 32"
  shows "snd (ReadMessage src) = Fail ErrInvalidDataLength"
proof -
  obtain b1 where b1: "ReadByte (NewReader src) = (b1, Ok flag)" "bufr_ok b1" "avail b1 = int32_bytes n @ rest"
    using ReadByte_ok [of "NewReader src"] assms(1,2) by auto
  obtain b2 where "ReadFull 4 b1 = (b2, Ok (int32_bytes n))"
    using ReadFull_ok [OF b1(2,3), of 4] by (auto simp: int32_bytes_def)
  then show ?thesis using b1 int32_negative [OF assms(3)] by (simp add: ReadMessage_def Let_def)
qed

section \<open>A connection as a target of rows\<close>

text \<open>A response with the given rows.\<close>

definition message :: "row list \<Rightarrow> byte list" where
  "message rows = okFlag # int32_bytes (length (encs rows)) @ encs rows"

definition conn_has :: "byte list \<Rightarrow> nat \<Rightarrow> bufw \<Rightarrow> row list \<Rightarrow> bool" where
  "conn_has start k b xs \<longleftrightarrow>
     bufw_ok b \<and> (\<exists>batches. concat batches = xs \<and> written b = start @ concat (map message batches))"

lemma ConnTarget_Write_ok:
  assumes "list_all row_ok rows" and "bufw_ok b"
  shows "\<exists>b'. ConnTarget_Write rows b = (b', Ok ()) \<and> bufw_ok b' \<and> written b' = written b @ message rows"
  using bufio_Write_ok [OF assms(2), of "message rows"] flatten_encs [OF assms(1)]
  by (simp add: ConnTarget_Write_def WriteMessage_def writerData_def message_def)

interpretation conn: log_target ConnTarget_Write "conn_has start" for start
proof unfold_locales
  fix k rows b xs assume a: "conn_has start (k + length rows) b xs" "list_all row_ok rows"
  then obtain batches where b: "bufw_ok b" "concat batches = xs" "written b = start @ concat (map message batches)"
    by (auto simp: conn_has_def)
  obtain b' where "ConnTarget_Write rows b = (b', Ok ())" "bufw_ok b'" "written b' = written b @ message rows"
    using ConnTarget_Write_ok [OF a(2) b(1)] by blast
  then show "\<exists>b'. ConnTarget_Write rows b = (b', Ok ()) \<and> conn_has start k b' (xs @ rows)"
    using b by (auto simp: conn_has_def intro!: exI [of _ "batches @ [rows]"])
qed (simp add: conn_has_def)

section \<open>Properties\<close>

text \<open>
  C15. The replication protocol round trips over any connection, within the limits of its length
  field: a response of less than two gigabytes is read back by \<^verbatim>\<open>ReadMessage\<close> however the connection
  cuts it into pieces and whatever follows it, the data as they were and an error as an error with
  its text; and a request is read back from its eight bytes. Of larger data the length keeps only
  its low 32 bits as a signed number: when that is negative the reader refuses the message, and
  otherwise, from four gigabytes on, it takes a shorter prefix for the whole response.
\<close>

theorem message_roundtrip:
  assumes "WriteMessage r = Ok bs" and "conn_like src" and "src_bytes src = bs @ rest"
  shows "(rs_Err r = None \<and> length (rs_Data r) < 2 ^ 31 \<longrightarrow>
      snd (ReadMessage src) = Ok \<lparr>rs_Data = rs_Data r, rs_Err = None\<rparr>) \<and>
    (\<forall>e. rs_Err r = Some e \<and> length (error_text e) < 2 ^ 31 \<longrightarrow>
      snd (ReadMessage src) = Ok \<lparr>rs_Data = [], rs_Err = Some (Remote (error_text e))\<rparr>) \<and>
    (rs_Err r = None \<and> 2 ^ 31 \<le> length (rs_Data r) mod 2 ^ 32 \<longrightarrow> snd (ReadMessage src) = Fail ErrInvalidDataLength) \<and>
    (rs_Err r = None \<and> length (rs_Data r) mod 2 ^ 32 < 2 ^ 31 \<longrightarrow>
      snd (ReadMessage src) = Ok \<lparr>rs_Data = take (length (rs_Data r) mod 2 ^ 32) (rs_Data r), rs_Err = None\<rparr>) \<and>
    (\<forall>req rb more. Request_Marshal req = Ok rb \<longrightarrow> length rb = 8 \<and> Request_Unmarshal (rb @ more) = Ok req)"
proof (intro conjI impI allI; (elim conjE)?)
  assume d: "rs_Err r = None" and "length (rs_Data r) < 2 ^ 31"
  then show "snd (ReadMessage src) = Ok \<lparr>rs_Data = rs_Data r, rs_Err = None\<rparr>"
    using assms ReadMessage_ok(1) [of src okFlag "rs_Data r" rest] by (simp add: WriteMessage_def writerData_def okFlag_def)
next
  fix e assume "rs_Err r = Some e" "length (error_text e) < 2 ^ 31"
  then show "snd (ReadMessage src) = Ok \<lparr>rs_Data = [], rs_Err = Some (Remote (error_text e))\<rparr>"
    using assms ReadMessage_ok(1) [of src errFlag "bytes_of_string (error_text e)" rest]
    by (simp add: WriteMessage_def writerError_def errFlag_def Let_def)
next
  assume "rs_Err r = None" "2 ^ 31 \<le> length (rs_Data r) mod 2 ^ 32"
  then show "snd (ReadMessage src) = Fail ErrInvalidDataLength"
    using assms ReadMessage_negative [of src okFlag "length (rs_Data r)" "rs_Data r @ rest"]
    by (simp add: WriteMessage_def writerData_def)
next
  let ?n = "length (rs_Data r) mod 2 ^ 32"
  assume e: "rs_Err r = None" and n: "?n < 2 ^ 31"
  have len: "length (take ?n (rs_Data r)) = ?n" by (simp add: mod_less_eq_dividend)
  have "src_bytes src = okFlag # int32_bytes (length (rs_Data r)) @ rs_Data r @ rest"
    using assms(1,3) e by (auto simp: WriteMessage_def writerData_def)
  also have "\<dots> = okFlag # int32_bytes ?n @ take ?n (rs_Data r) @ drop ?n (rs_Data r) @ rest"
    by (subst int32_bytes_mod) simp
  finally have "src_bytes src = okFlag # int32_bytes (length (take ?n (rs_Data r))) @ take ?n (rs_Data r) @ drop ?n (rs_Data r) @ rest"
    by (simp only: len)
  from ReadMessage_ok(1) [OF assms(2) this] n len
  show "snd (ReadMessage src) = Ok \<lparr>rs_Data = take ?n (rs_Data r), rs_Err = None\<rparr>" by (simp add: okFlag_def)
next
  fix req rb more assume m: "Request_Marshal req = Ok rb"
  then show "length rb = 8" by (auto simp: Request_Marshal_def reqSize_def)
  show "Request_Unmarshal (rb @ more) = Ok req" by (rule Request_roundtrip [OF m])
qed

theorem message_roundtrip_witness:
  "snd (ReadMessage [([0], None), ([0, 0, 0], None), ([2, 7, 8, 9], None)]) = Ok \<lparr>rs_Data = [7, 8], rs_Err = None\<rparr>"
proof -
  let ?src = "[([0], None), ([0, 0, 0], None), ([2, 7, 8, 9], None)] :: reads"
  have "int32_bytes (Suc (Suc 0)) = [0, 0, 0, 2]" by code_simp
  then have "WriteMessage \<lparr>rs_Data = [7, 8], rs_Err = None\<rparr> = Ok [0, 0, 0, 0, 2, 7, 8]"
    by (simp add: WriteMessage_def writerData_def okFlag_def)
  moreover have "conn_like ?src" "src_bytes ?src = [0, 0, 0, 0, 2, 7, 8] @ [9]" by simp_all
  ultimately show ?thesis using message_roundtrip [of "\<lparr>rs_Data = [7, 8], rs_Err = None\<rparr>"] by simp
qed

end
