(* ===== verification/Replication.thy ===== *)
theory Replication
  imports Database Protocol
begin

text \<open>
  \<^verbatim>\<open>internal/database/replication\<close>: the master answers a request with the rows of its log from a
  sequence number on; the slave asks for the rows after the last one it has, writes them to its
  own log and executes them.
\<close>

section \<open>The master\<close>

text \<open>\<^verbatim>\<open>getReq\<close>: one call of \<^verbatim>\<open>Read\<close>, which may return fewer than the eight bytes.\<close>

definition getReq :: "bufr \<Rightarrow> bufr \<times> request res" where
  "getReq b =
     (case bufio_Read reqSize b of
        (b', Ok (data, Some e)) \<Rightarrow> (b', Fail e)
      | (b', Ok (data, None)) \<Rightarrow> (b', Request_Unmarshal data)
      | (b', Fail e) \<Rightarrow> (b', Fail e)
      | (b', Panic) \<Rightarrow> (b', Panic)
      | (b', Hang) \<Rightarrow> (b', Hang))"

definition Master_writeError :: "goerr \<Rightarrow> bufw \<Rightarrow> bufw \<times> unit res" where
  "Master_writeError e bw =
     (case WriteMessage \<lparr>rs_Data = [], rs_Err = Some e\<rparr> of
        Ok data \<Rightarrow>
          (case bufio_Write data bw of
             (bw1, Ok _) \<Rightarrow> Flush bw1
           | (bw1, r) \<Rightarrow> (bw1, r))
      | Fail e' \<Rightarrow> (bw, Fail e')
      | Panic \<Rightarrow> (bw, Panic)
      | Hang \<Rightarrow> (bw, Hang))"

text \<open>
  What a connection of the master is made of: the buffered reader and writer of the connection
  (\<^verbatim>\<open>bufio.NewReader\<close> and \<^verbatim>\<open>NewWriter\<close> on them return themselves), and the segment manager and files
  shared with the log. \<open>wait\<close> is the context during the pauses of the retries and \<open>env\<close> what the
  index goroutines do before each attempt.
\<close>

record mconn =
  mc_r :: bufr
  mc_w :: bufw
  mc_m :: manager
  mc_files :: world

definition fetch_index :: "(manager \<Rightarrow> manager) \<Rightarrow> u64 \<Rightarrow> manager \<Rightarrow> manager \<times> index_entry res" where
  "fetch_index env lsn m = (let m' = env m in (m', Manager_GetIndex lsn m'))"

definition answer_error :: "goerr \<Rightarrow> mconn \<Rightarrow> mconn \<times> unit res" where
  "answer_error e c = (case Master_writeError e (mc_w c) of (bw, r) \<Rightarrow> (c\<lparr>mc_w := bw\<rparr>, r))"

definition send_rows :: "row list \<Rightarrow> mconn \<Rightarrow> mconn \<times> unit res" where
  "send_rows rows c =
     (case WriteTo rows (Some ConnTarget_Write) (mc_w c) of
        (bw, Ok _) \<Rightarrow> (case Flush bw of (bw', r) \<Rightarrow> (c\<lparr>mc_w := bw'\<rparr>, r))
      | (bw, r) \<Rightarrow> (c\<lparr>mc_w := bw\<rparr>, r))"

definition Master_Handle ::
  "context_t \<Rightarrow> (nat \<Rightarrow> goerr option) \<Rightarrow> (manager \<Rightarrow> manager) \<Rightarrow> string \<Rightarrow> mconn \<Rightarrow> mconn \<times> unit res" where
  "Master_Handle ctx wait env walDir c =
     (case ctx_err ctx of
        Some e \<Rightarrow> (c, Fail e)
      | None \<Rightarrow>
          (case getReq (mc_r c) of
             (br, Ok req) \<Rightarrow>
               (let c1 = c\<lparr>mc_r := br\<rparr> in
                if LsnID req = 0 then answer_error ErrLsnZero c1
                else
                  (case WithRetryValue wait 3 200000000 (Some (fetch_index env (LsnID req))) (mc_m c1) of
                     (m, Ok index) \<Rightarrow>
                       (case ReadFrom walDir (ie_FileName index) (ie_Offset index) m (mc_files c1) of
                          (m', w', Ok rows) \<Rightarrow>
                            (let c2 = c1\<lparr>mc_m := m', mc_files := w'\<rparr> in
                             if rows = [] then answer_error ErrNoNewLogs c2 else send_rows rows c2)
                        | (m', w', Fail e) \<Rightarrow> answer_error e (c1\<lparr>mc_m := m', mc_files := w'\<rparr>)
                        | (m', w', Panic) \<Rightarrow> (c1\<lparr>mc_m := m', mc_files := w'\<rparr>, Panic)
                        | (m', w', Hang) \<Rightarrow> (c1\<lparr>mc_m := m', mc_files := w'\<rparr>, Hang))
                   | (m, Fail e) \<Rightarrow>
                       answer_error (if errors_Is e ErrIndexNotFound then ErrNoNewLogs else e) (c1\<lparr>mc_m := m\<rparr>)
                   | (m, Panic) \<Rightarrow> (c1\<lparr>mc_m := m\<rparr>, Panic)
                   | (m, Hang) \<Rightarrow> (c1\<lparr>mc_m := m\<rparr>, Hang)))
           | (br, Fail e) \<Rightarrow> answer_error e (c\<lparr>mc_r := br\<rparr>)
           | (br, Panic) \<Rightarrow> (c\<lparr>mc_r := br\<rparr>, Panic)
           | (br, Hang) \<Rightarrow> (c\<lparr>mc_r := br\<rparr>, Hang)))"

section \<open>The slave\<close>

text \<open>
  The client connection is the interface \<^verbatim>\<open>TCPClient\<close>: \<open>send\<close> returns what the connection will
  deliver, \<open>left\<close> puts back what was not read of it. The log of the slave is a target.
\<close>

record ('s, 'n) slave =
  sl_cl :: 'n
  sl_st :: storage
  sl_logWriter :: "'s log_writer option"
  sl_out :: 's
  sl_syncInterval :: int
  sl_lastLsnWritten :: u64

record 'n tcp_client =
  cl_Send :: "context_t \<Rightarrow> byte list \<Rightarrow> 'n \<Rightarrow> 'n \<times> reads res"
  cl_left :: "reads \<Rightarrow> 'n \<Rightarrow> 'n"

definition defaultSyncInterval :: int where "defaultSyncInterval = 1000000000"

definition NewSlaveWithWal :: "'n \<Rightarrow> 's log_writer \<Rightarrow> 's \<Rightarrow> storage \<Rightarrow> int \<Rightarrow> ('s, 'n) slave" where
  "NewSlaveWithWal cl lw out st syncInterval =
     \<lparr>sl_cl = cl, sl_st = st, sl_logWriter = Some lw, sl_out = out,
      sl_syncInterval = or_default 0 defaultSyncInterval syncInterval, sl_lastLsnWritten = 0\<rparr>"

definition NewSlave :: "'n \<Rightarrow> 's \<Rightarrow> storage \<Rightarrow> int \<Rightarrow> ('s, 'n) slave" where
  "NewSlave cl out st syncInterval =
     \<lparr>sl_cl = cl, sl_st = st, sl_logWriter = None, sl_out = out,
      sl_syncInterval = or_default 0 defaultSyncInterval syncInterval, sl_lastLsnWritten = 0\<rparr>"

definition walEnable :: "('s, 'n) slave \<Rightarrow> bool" where
  "walEnable s \<longleftrightarrow> sl_logWriter s \<noteq> None"

definition exec_failed :: "byte \<Rightarrow> goerr \<Rightarrow> goerr" where
  "exec_failed method e = Wrap (''failed to execute method '' @ decimal (unat method) @ '': '') e"

fun execStorage :: "context_t \<Rightarrow> row list \<Rightarrow> storage \<Rightarrow> storage \<times> unit res" where
  "execStorage ctx [] st = (st, Ok ())"
| "execStorage ctx (r # rows) st =
     (let args = r_args r; method = r_methodID r in
      case (if method = SetMethodID then
              (case (go_index args SetKeyIdx, go_index args SetValueIdx) of
                 (Ok k, Ok v) \<Rightarrow> (case Storage_Set ctx k v st of
                    (st', Fail e) \<Rightarrow> (st', Fail (exec_failed method e)) | x \<Rightarrow> x)
               | _ \<Rightarrow> (st, Panic))
            else if method = DelMethodID then
              (case go_index args DelKeyIdx of
                 Ok k \<Rightarrow> (case Storage_Delete ctx k st of
                    (st', Fail e) \<Rightarrow> (st', Fail (exec_failed method e)) | x \<Rightarrow> x)
               | _ \<Rightarrow> (st, Panic))
            else (st, Fail (ErrUnknownCommand method))) of
        (st', Ok _) \<Rightarrow> execStorage ctx rows st'
      | (st', r') \<Rightarrow> (st', r'))"

definition processRows :: "context_t \<Rightarrow> row list \<Rightarrow> ('s, 'n) slave \<Rightarrow> ('s, 'n) slave \<times> unit res" where
  "processRows ctx rows s =
     (if rows = [] then (s, Ok ())
      else
        (case ctx_err ctx of
           Some e \<Rightarrow> (s, Fail e)
         | None \<Rightarrow>
             (case (case sl_logWriter s of
                      Some lw \<Rightarrow> LogWriter_Write lw rows (sl_out s)
                    | None \<Rightarrow> (sl_out s, Ok ())) of
                (out, Ok _) \<Rightarrow>
                  (case execStorage ctx rows (sl_st s) of
                     (st, Ok _) \<Rightarrow>
                       (s\<lparr>sl_out := out, sl_st := st, sl_lastLsnWritten := r_lsnID (last rows)\<rparr>, Ok ())
                   | (st, r) \<Rightarrow> (s\<lparr>sl_out := out, sl_st := st\<rparr>, r))
              | (out, r) \<Rightarrow> (s\<lparr>sl_out := out\<rparr>, r))))"

definition sendReq :: "'n tcp_client \<Rightarrow> context_t \<Rightarrow> u64 \<Rightarrow> 'n \<Rightarrow> 'n \<times> response res" where
  "sendReq cl ctx lsnID n =
     (case ctx_err ctx of
        Some e \<Rightarrow> (n, Fail e)
      | None \<Rightarrow>
          (case Request_Marshal \<lparr>LsnID = lsnID\<rparr> of
             Ok body \<Rightarrow>
               (case cl_Send cl ctx body n of
                  (n1, Ok r) \<Rightarrow>
                    (case ReadMessage r of
                       (r', res) \<Rightarrow>
                         (cl_left cl r' n1, then_res res (\<lambda>resp.
                            case rs_Err resp of
                              Some e \<Rightarrow> if error_text e = error_text ErrNoNewLogs then Fail ErrNoNewLogs else Fail e
                            | None \<Rightarrow> Ok resp)))
                | (n1, Fail e) \<Rightarrow> (n1, Fail e)
                | (n1, Panic) \<Rightarrow> (n1, Panic)
                | (n1, Hang) \<Rightarrow> (n1, Hang))
           | Fail e \<Rightarrow> (n, Fail e)
           | Panic \<Rightarrow> (n, Panic)
           | Hang \<Rightarrow> (n, Hang)))"

fun process_batches :: "context_t \<Rightarrow> row list list \<Rightarrow> ('s, 'n) slave \<Rightarrow> ('s, 'n) slave \<times> unit res" where
  "process_batches ctx [] s = (s, Ok ())"
| "process_batches ctx (rows # bs) s =
     (case processRows ctx rows s of
        (s', Ok _) \<Rightarrow> process_batches ctx bs s'
      | (s', r) \<Rightarrow> (s', r))"

text \<open>\<open>early\<close> is the schedule of the goroutine of \<^verbatim>\<open>ReadStream\<close>.\<close>

definition getUpdates :: "'n tcp_client \<Rightarrow> bool \<Rightarrow> context_t \<Rightarrow> ('s, 'n) slave \<Rightarrow> ('s, 'n) slave \<times> unit res" where
  "getUpdates cl early ctx s =
     (case ctx_err ctx of
        Some e \<Rightarrow> (s, Fail e)
      | None \<Rightarrow>
          (case sendReq cl ctx (sl_lastLsnWritten s + 1) (sl_cl s) of
             (n, Ok resp) \<Rightarrow>
               (let s1 = s\<lparr>sl_cl := n\<rparr> in
                if rs_Data resp = [] then (s1, Ok ())
                else
                  (case ReadStream (bytes_reads (rs_Data resp)) of
                     (vs, e) \<Rightarrow>
                       (case drain early vs e of
                          (batches, err) \<Rightarrow>
                            (case process_batches ctx batches s1 of
                               (s2, Ok _) \<Rightarrow> (s2, case err of Some x \<Rightarrow> Fail x | None \<Rightarrow> Ok ())
                             | (s2, r) \<Rightarrow> (s2, r)))))
           | (n, Fail e) \<Rightarrow> (s\<lparr>sl_cl := n\<rparr>, Fail e)
           | (n, Panic) \<Rightarrow> (s\<lparr>sl_cl := n\<rparr>, Panic)
           | (n, Hang) \<Rightarrow> (s\<lparr>sl_cl := n\<rparr>, Hang)))"

text \<open>
  The loop of the replication goroutine over the contexts found at the ticks: a cancelled
  context ends it, an error of a round does not.
\<close>

fun startReplication :: "'n tcp_client \<Rightarrow> bool \<Rightarrow> context_t list \<Rightarrow> ('s, 'n) slave \<Rightarrow> ('s, 'n) slave \<times> unit res" where
  "startReplication cl early [] s = (s, Hang)"
| "startReplication cl early (ctx # ctxs) s =
     (if ctx_err ctx \<noteq> None then (s, Ok ())
      else
        (case getUpdates cl early ctx s of
           (s', Panic) \<Rightarrow> (s', Panic)
         | (s', Hang) \<Rightarrow> (s', Hang)
         | (s', _) \<Rightarrow> startReplication cl early ctxs s'))"


section \<open>Lemmas on the master\<close>

lemma Master_writeError_ok:
  assumes "bufw_ok bw"
  shows "\<exists>bw'. Master_writeError e bw = (bw', Ok ()) \<and> bufw_ok bw' \<and> bw_buf bw' = [] \<and>
    written bw' = written bw @ writerError e [errFlag]"
proof -
  obtain bw1 where "bufio_Write (writerError e [errFlag]) bw = (bw1, Ok ())" "bufw_ok bw1"
    "written bw1 = written bw @ writerError e [errFlag]"
    using bufio_Write_ok [OF assms] by blast
  then show ?thesis using Flush_ok [of bw1] by (auto simp: Master_writeError_def WriteMessage_def)
qed

lemma answer_error_ok:
  assumes "bufw_ok (mc_w c)"
  shows "\<exists>bw. answer_error e c = (c\<lparr>mc_w := bw\<rparr>, Ok ()) \<and> bufw_ok bw \<and> bw_buf bw = [] \<and>
    written bw = written (mc_w c) @ writerError e [errFlag]"
  using Master_writeError_ok [OF assms, of e] by (auto simp: answer_error_def)

lemma send_rows_ok:
  assumes "bufw_ok (mc_w c)" and "list_all row_ok rows" and "rows \<noteq> []"
  shows "\<exists>bw. send_rows rows c = (c\<lparr>mc_w := bw\<rparr>, Ok ()) \<and> bufw_ok bw \<and> bw_buf bw = [] \<and>
    written bw = written (mc_w c) @ message rows"
proof -
  obtain bw1 where b1: "ConnTarget_Write rows (mc_w c) = (bw1, Ok ())" "bufw_ok bw1" "written bw1 = written (mc_w c) @ message rows"
    using ConnTarget_Write_ok [OF assms(2,1)] by blast
  obtain bw2 where "Flush bw1 = (bw2, Ok ())" "bufw_ok bw2" "bw_buf bw2 = []" "written bw2 = written bw1"
    using Flush_ok [OF b1(2)] by blast
  with b1 assms(3) show ?thesis by (auto simp: send_rows_def WriteTo_def LogWriter_write_def)
qed

lemma getReq_whole:
  assumes "br_buf b = []" "br_err b = None" "br_src b = (bs, None) # r" and "Request_Marshal q = Ok bs"
  shows "getReq b = (b\<lparr>br_src := r\<rparr>, Ok q)"
proof -
  have "length bs = 8" using assms(4) by (auto simp: Request_Marshal_def reqSize_def)
  moreover from this have "bs \<noteq> []" by auto
  moreover from calculation have "bufio_Read reqSize b = (b\<lparr>br_src := r\<rparr>, Ok (bs, None))"
    using assms(1-3) by (cases b) (simp add: bufio_Read_def reqSize_def bufsize_def)
  ultimately show ?thesis using Request_roundtrip [OF assms(4), of "[]"] by (simp add: getReq_def)
qed

lemma idx_rel_missing:
  assumes "idx_rel m fs" and "l \<notin> r_lsnID ` set (all_rows fs)"
  shows "Manager_GetIndex l m = Fail ErrIndexNotFound"
proof (cases "mutex_abs (m_im m) l")
  case None
  then show ?thesis by (simp add: Manager_GetIndex_def mx.get_none)
next
  case (Some p)
  then have "points fs l p" using assms(1) unfolding idx_rel_def entry_of_def by blast
  then show ?thesis using assms(2) by (auto simp: points_def image_iff)
qed

lemma distinct_lsn_suffix:
  assumes "distinct (map r_lsnID xs)" and "xs = a @ u" "xs = b @ v" "u \<noteq> []" "v \<noteq> []" "r_lsnID (hd u) = r_lsnID (hd v)"
  shows "u = v"
proof -
  have "length a = length b"
    using assms by (metis (no_types, lifting) append_is_Nil_conv distinct_conv_nth hd_conv_nth length_append
        length_greater_0_conv length_map less_add_same_cancel1 nth_append_length nth_map list.exhaust_sel)
  then show ?thesis using assms(2,3) by simp
qed


lemma readable_rows_ok: "readable d w fs \<Longrightarrow> list_all row_ok (all_rows fs)"
  by (auto simp: readable_def log_rel_def all_rows_def list_all_iff)

text \<open>The master finds the number and sends everything from its row on.\<close>

lemma Master_serves:
  assumes req: "getReq (mc_r c) = (br, Ok \<lparr>LsnID = l\<rparr>)" "l \<noteq> 0" "ctx_err ctx = None"
    and log: "readable d (mc_files c) fs" "idx_rel (env (mc_m c)) fs" "m_pending (env (mc_m c)) = []"
      "distinct (map r_lsnID (all_rows fs))"
    and rows: "all_rows fs = before @ rows" "rows \<noteq> []" "r_lsnID (hd rows) = l"
    and bw: "bufw_ok (mc_w c)"
  shows "\<exists>bw. Master_Handle ctx wait env d c = (c\<lparr>mc_r := br, mc_m := env (mc_m c), mc_w := bw\<rparr>, Ok ()) \<and>
    bufw_ok bw \<and> bw_buf bw = [] \<and> written bw = written (mc_w c) @ message rows"
proof -
  have "hd rows \<in> set (all_rows fs)" using rows by simp
  then obtain e where e: "Manager_GetIndex l (env (mc_m c)) = Ok e"
    using idx_rel_lookup [OF log(2,3)] rows(3) by blast
  obtain b' rows' where R: "all_rows fs = b' @ rows'" "rows' \<noteq> []" "r_lsnID (hd rows') = l"
    "ReadFrom d (ie_FileName e) (ie_Offset e) (env (mc_m c)) (mc_files c) = (env (mc_m c), mc_files c, Ok rows')"
    using ReadFrom_from_index [OF log(1,2) e] by blast
  have same: "rows' = rows" using distinct_lsn_suffix [OF log(4) R(1) rows(1) R(2) rows(2)] R(3) rows(3) by simp
  have "list_all row_ok rows" using readable_rows_ok [OF log(1)] rows(1) by simp
  moreover have "WithRetryValue wait 3 200000000 (Some (fetch_index env l)) (mc_m c) = (env (mc_m c), Ok e)"
    using e by (simp add: WithRetryValue_def retry_count_def fetch_index_def numeral_3_eq_3)
  moreover define c2 where "c2 = c\<lparr>mc_r := br, mc_m := env (mc_m c), mc_files := mc_files c\<rparr>"
  moreover have "bufw_ok (mc_w c2)" using bw by (simp add: c2_def)
  ultimately show ?thesis
    using send_rows_ok [of c2 rows] req R(4) same rows(2) by (cases c) (auto simp: Master_Handle_def c2_def)
qed

lemma Master_no_new_logs:
  assumes req: "getReq (mc_r c) = (br, Ok \<lparr>LsnID = l\<rparr>)" "l \<noteq> 0" "ctx_err ctx = None" "\<And>i. wait i = None"
    and log: "idx_rel (mc_m c) fs" "\<And>m. idx_rel m fs \<Longrightarrow> idx_rel (env m) fs" "l \<notin> r_lsnID ` set (all_rows fs)"
    and bw: "bufw_ok (mc_w c)"
  shows "\<exists>bw m. Master_Handle ctx wait env d c = (c\<lparr>mc_r := br, mc_m := m, mc_w := bw\<rparr>, Ok ()) \<and> idx_rel m fs \<and>
    bufw_ok bw \<and> bw_buf bw = [] \<and> written bw = written (mc_w c) @ writerError ErrNoNewLogs [errFlag]"
proof -
  define f where "f = fetch_index env l"
  have step: "idx_rel m fs \<Longrightarrow> f m = (env m, Fail ErrIndexNotFound) \<and> idx_rel (env m) fs" for m
    using idx_rel_missing [OF log(2) log(3)] log(2) by (simp add: f_def fetch_index_def)
  have jit: "jitter_ok (retry_delay (retry_base 200000000) j)" for j
    by (simp add: retry_base_ge3 retry_delay_ge3 jitter_ok_ge3)
  have "WithRetryValue wait 3 200000000 (Some f) (mc_m c) = (env (env (env (mc_m c))), Fail ErrIndexNotFound)"
    using step log(1) req(4) jit by (simp add: WithRetryValue_def retry_count_def numeral_3_eq_3)
  moreover define c2 where "c2 = c\<lparr>mc_r := br, mc_m := env (env (env (mc_m c)))\<rparr>"
  moreover have "bufw_ok (mc_w c2)" "idx_rel (env (env (env (mc_m c)))) fs" using bw log(1,2) by (simp_all add: c2_def)
  ultimately show ?thesis
    using answer_error_ok [of c2 ErrNoNewLogs] req(1-3) by (auto simp: Master_Handle_def c2_def f_def)
qed

section \<open>Lemmas on the slave\<close>

lemma execStorage_replay:
  "list_all (write_query \<circ> query_of) rows \<Longrightarrow> storage_inv st \<Longrightarrow> ctx_err ctx = None \<Longrightarrow>
   \<exists>st'. execStorage ctx rows st = (st', Ok ()) \<and> storage_inv st' \<and>
     storage_abs st' = kv_replay (ops_of rows) (storage_abs st)"
proof (induction rows arbitrary: st)
  case (Cons r rows)
  let ?k = "r_args r ! 0" and ?v = "r_args r ! 1"
  from Cons.prems have q: "write_query (query_of r)" "list_all (write_query \<circ> query_of) rows" by (simp_all add: comp_def)
  consider (set) "r_methodID r = SetMethodID" "2 \<le> length (r_args r)" "qop (query_of r) = KSet ?k ?v"
    | (del) "r_methodID r = DelMethodID" "r_args r \<noteq> []" "qop (query_of r) = KDel ?k"
    using q(1) by (auto simp: write_query_def query_of_def NewQuery_def qop_def method_ids)
  then show ?case
  proof cases
    case set
    obtain st1 where "Storage_Set ctx ?k ?v st = (st1, Ok ())" "storage_inv st1" "storage_abs st1 = (storage_abs st)(?k \<mapsto> ?v)"
      using st.sset_live [OF Cons.prems(2,3)] by blast
    moreover have "0 < length (r_args r)" "1 < length (r_args r)" using set(2) by linarith+
    ultimately show ?thesis using set Cons.IH [OF q(2) _ Cons.prems(3), of st1]
      by (simp add: ops_of_def go_index_def arg_idx Let_def fun_upd_def)
  next
    case del
    obtain st1 where "Storage_Delete ctx ?k st = (st1, Ok ())" "storage_inv st1" "storage_abs st1 = (storage_abs st)(?k := None)"
      using st.sdel_live [OF Cons.prems(2,3)] by blast
    with del Cons.IH [OF q(2) _ Cons.prems(3), of st1] show ?thesis
      by (simp add: ops_of_def go_index_def arg_idx Let_def method_ids fun_upd_def)
  qed
qed (simp add: ops_of_def)


text \<open>One batch of rows on a slave with a log.\<close>

context log_target
begin

lemma processRows_logged:
  assumes "sl_logWriter s = Some (NewLogWriter (Some twrite))" and "thas (k + length rows) (sl_out s) xs"
    and rows: "list_all row_ok rows" "list_all (write_query \<circ> query_of) rows" "rows \<noteq> []"
    and "storage_inv (sl_st s)" and "ctx_err ctx = None"
  shows "\<exists>st out. processRows ctx rows s =
      (s\<lparr>sl_out := out, sl_st := st, sl_lastLsnWritten := r_lsnID (last rows)\<rparr>, Ok ()) \<and> thas k out (xs @ rows) \<and>
    storage_inv st \<and> storage_abs st = kv_replay (ops_of rows) (storage_abs (sl_st s))"
proof -
  obtain out where "LogWriter_Write (NewLogWriter (Some twrite)) rows (sl_out s) = (out, Ok ())" "thas k out (xs @ rows)"
    using LogWriter_ok [OF assms(2) rows(1)] by blast
  moreover obtain st where "execStorage ctx rows (sl_st s) = (st, Ok ())" "storage_inv st"
    "storage_abs st = kv_replay (ops_of rows) (storage_abs (sl_st s))"
    using execStorage_replay [OF rows(2) assms(6,7)] by blast
  ultimately show ?thesis using assms(1,7) rows(3)
    by (intro exI [of _ st] exI [of _ out]) (simp add: processRows_def)
qed

lemma getUpdates_logged:
  assumes "sendReq cl ctx (sl_lastLsnWritten s + 1) (sl_cl s) = (n, Ok \<lparr>rs_Data = encs rows, rs_Err = None\<rparr>)"
    and "sl_logWriter s = Some (NewLogWriter (Some twrite))" and "thas (k + length rows) (sl_out s) xs"
    and rows: "list_all row_ok rows" "list_all (write_query \<circ> query_of) rows" "rows \<noteq> []"
    and st: "storage_inv (sl_st s)" and "ctx_err ctx = None"
  shows "\<exists>st out. getUpdates cl early ctx s =
      (s\<lparr>sl_cl := n, sl_out := out, sl_st := st, sl_lastLsnWritten := r_lsnID (last rows)\<rparr>, Ok ()) \<and> thas k out (xs @ rows) \<and>
    storage_inv st \<and> storage_abs st = kv_replay (ops_of rows) (storage_abs (sl_st s))"
proof -
  have "encs rows \<noteq> []" using rows(1,3) enc_length by (cases rows) fastforce+
  moreover have "ReadStream (bytes_reads (encs rows)) = ([rows], None)"
    using rows_of_encs [OF rows(1), of "[]"] by (simp add: ReadStream_def read_bytes)
  moreover obtain st out where "processRows ctx rows (s\<lparr>sl_cl := n\<rparr>) =
      (s\<lparr>sl_cl := n, sl_out := out, sl_st := st, sl_lastLsnWritten := r_lsnID (last rows)\<rparr>, Ok ())" "thas k out (xs @ rows)"
    "storage_inv st" "storage_abs st = kv_replay (ops_of rows) (storage_abs (sl_st s))"
    using processRows_logged [of "s\<lparr>sl_cl := n\<rparr>" k rows xs ctx] assms by auto
  ultimately show ?thesis using assms(1,8) by (auto simp: getUpdates_def)
qed

end

section \<open>A slave connected to its master\<close>

text \<open>
  The connection to a master that runs \<^verbatim>\<open>Handle\<close> for each request: the request arrives in one piece,
  the answer is cut into pieces by \<open>pc\<close>.
\<close>

type_synonym link = "mconn \<times> reads"

definition clear_out :: "mconn \<Rightarrow> mconn" where
  "clear_out c = c\<lparr>mc_w := (mc_w c)\<lparr>bw_sink := (bw_sink (mc_w c))\<lparr>sk_out := []\<rparr>\<rparr>\<rparr>"

definition direct :: "(nat \<Rightarrow> goerr option) \<Rightarrow> (manager \<Rightarrow> manager) \<Rightarrow> string \<Rightarrow> (byte list \<Rightarrow> byte list list) \<Rightarrow> link tcp_client" where
  "direct wait env d pc =
     \<lparr>cl_Send = (\<lambda>ctx body (c, pend).
        (case Master_Handle Background wait env d (c\<lparr>mc_r := (mc_r c)\<lparr>br_src := br_src (mc_r c) @ [(body, None)]\<rparr>\<rparr>) of
           (c', r) \<Rightarrow> ((clear_out c', pend), Ok (pend @ map (\<lambda>x. (x, None)) (pc (sk_out (bw_sink (mc_w c')))))))),
      cl_left = (\<lambda>r (c, pend). (c, r))\<rparr>"

definition link_ok :: "link \<Rightarrow> bool" where
  "link_ok n \<longleftrightarrow> snd n = [] \<and> mc_r (fst n) = NewReader [] \<and> bufw_ok (mc_w (fst n)) \<and> written (mc_w (fst n)) = []"

definition cuts :: "(byte list \<Rightarrow> byte list list) \<Rightarrow> bool" where
  "cuts pc \<longleftrightarrow> (\<forall>x. concat (pc x) = x \<and> [] \<notin> set (pc x))"

lemma pieces_view:
  "[] \<notin> set cs \<Longrightarrow> conn_like (map (\<lambda>x. (x, None)) cs) \<and> src_bytes (map (\<lambda>x. (x, None)) cs) = concat cs \<and>
     src_end (map (\<lambda>x. (x, None)) cs) = None"
  by (induction cs) auto


lemma direct_sendReq:
  assumes n: "link_ok n" and pc: "cuts pc" and ctx: "ctx_err ctx = None"
    and M: "Master_Handle Background wait env d ((fst n)\<lparr>mc_r := NewReader [(le_bytes reqSize (unat l), None)]\<rparr>) = (c, r)"
    and c: "mc_r c = NewReader []" "bufw_ok (mc_w c)" "bw_buf (mc_w c) = []"
      "written (mc_w c) = flag # int32_bytes (length data) @ data" "length data < 2 ^ 31"
  shows "sendReq (direct wait env d pc) ctx l n = ((clear_out c, []),
      if flag = 1 then Fail (if string_of_bytes data = error_text ErrNoNewLogs then ErrNoNewLogs else Remote (string_of_bytes data))
      else Ok \<lparr>rs_Data = data, rs_Err = None\<rparr>)"
    and "link_ok (clear_out c, [])"
proof -
  obtain c0 where n0: "n = (c0, [])" "mc_r c0 = NewReader []" using n by (cases n) (auto simp: link_ok_def)
  define src where "src = map (\<lambda>x. (x, None :: goerr option)) (pc (sk_out (bw_sink (mc_w c))))"
  have out: "sk_out (bw_sink (mc_w c)) = flag # int32_bytes (length data) @ data" using c(3,4) by (simp add: written_def)
  have src: "conn_like src" "src_bytes src = flag # int32_bytes (length data) @ data @ []" "src_end src = None"
    using pc pieces_view out unfolding src_def cuts_def by auto
  have "(mc_r c0)\<lparr>br_src := [(le_bytes reqSize (unat l), None)]\<rparr> = NewReader [(le_bytes reqSize (unat l), None)]"
    by (simp add: n0(2) NewReader_def)
  then have "cl_Send (direct wait env d pc) ctx (le_bytes reqSize (unat l)) n = ((clear_out c, []), Ok src)"
    using M n0 by (simp add: direct_def src_def NewReader_def)
  moreover note ReadMessage_ok [OF src(1,2) c(5)]
  moreover have "ReadMessage src = ([], snd (ReadMessage src))" using calculation(3) src(3) by (simp add: prod_eq_iff)
  ultimately show "sendReq (direct wait env d pc) ctx l n = ((clear_out c, []),
      if flag = 1 then Fail (if string_of_bytes data = error_text ErrNoNewLogs then ErrNoNewLogs else Remote (string_of_bytes data))
      else Ok \<lparr>rs_Data = data, rs_Err = None\<rparr>)"
    using ctx by (cases "flag = 1") (simp_all add: sendReq_def Request_Marshal_def direct_def)
  show "link_ok (clear_out c, [])"
    using c(1-3) by (simp add: link_ok_def clear_out_def bufw_ok_def written_def)
qed

lemma direct_getReq:
  "getReq (NewReader [(le_bytes reqSize (unat l), None)]) = (NewReader [], Ok \<lparr>LsnID = l\<rparr>)"
  using getReq_whole [of "NewReader [(le_bytes reqSize (unat l), None)]" _ "[]" "\<lparr>LsnID = l\<rparr>"]
  by (simp add: NewReader_def Request_Marshal_def)

text \<open>The index goroutines run until none is left.\<close>

definition finish_index :: "manager \<Rightarrow> manager" where
  "finish_index m = fold run_pending (replicate (length (m_pending m)) 0) m"

lemma finish_index_ok: "idx_rel m fs \<Longrightarrow> idx_rel (finish_index m) fs \<and> m_pending (finish_index m) = []"
proof -
  have "idx_rel m fs \<Longrightarrow> idx_rel (fold run_pending sched m) fs" for sched
    by (induction sched arbitrary: m) (auto intro: idx_rel_run_pending)
  then show "idx_rel m fs \<Longrightarrow> ?thesis" unfolding finish_index_def using pending_drained by blast
qed

text \<open>
  A master with the log \<open>fs\<close> behind a quiet connection. The numbers of the rows are distinct, and
  all rows are writes.
\<close>

definition master_ok :: "string \<Rightarrow> slog \<Rightarrow> link \<Rightarrow> bool" where
  "master_ok d fs n \<longleftrightarrow> link_ok n \<and> readable d (mc_files (fst n)) fs \<and> idx_rel (mc_m (fst n)) fs \<and>
     distinct (map r_lsnID (all_rows fs)) \<and> list_all (write_query \<circ> query_of) (all_rows fs)"

abbreviation master_link :: "(nat \<Rightarrow> goerr option) \<Rightarrow> string \<Rightarrow> (byte list \<Rightarrow> byte list list) \<Rightarrow> link tcp_client" where
  "master_link wait d pc \<equiv> direct wait finish_index d pc"

lemma direct_rows:
  assumes n: "master_ok d fs n" and pc: "cuts pc" and ctx: "ctx_err ctx = None"
    and rows: "all_rows fs = before @ rows" "rows \<noteq> []" "r_lsnID (hd rows) = l" "l \<noteq> 0" "length (encs rows) < 2 ^ 31"
  shows "\<exists>n'. sendReq (master_link wait d pc) ctx l n = (n', Ok \<lparr>rs_Data = encs rows, rs_Err = None\<rparr>) \<and> master_ok d fs n'"
proof -
  let ?c = "(fst n)\<lparr>mc_r := NewReader [(le_bytes reqSize (unat l), None)]\<rparr>"
  have m: "idx_rel (finish_index (mc_m (fst n))) fs" "m_pending (finish_index (mc_m (fst n))) = []"
    using n finish_index_ok by (auto simp: master_ok_def)
  obtain bw where H: "Master_Handle Background wait finish_index d ?c =
      (?c\<lparr>mc_r := NewReader [], mc_m := finish_index (mc_m ?c), mc_w := bw\<rparr>, Ok ())"
    "bufw_ok bw" "bw_buf bw = []" "written bw = message rows"
    using Master_serves [of ?c "NewReader []" l Background d fs finish_index before rows wait] n m rows direct_getReq
    by (auto simp: master_ok_def link_ok_def Background_def)
  show ?thesis
    using direct_sendReq [OF _ pc ctx H(1), of okFlag "encs rows"] H n m rows(5)
    by (auto simp: message_def okFlag_def master_ok_def clear_out_def)
qed

lemma direct_nothing:
  assumes n: "master_ok d fs n" and pc: "cuts pc" and ctx: "ctx_err ctx = None" "\<And>i. wait i = None"
    and l: "l \<noteq> 0" "l \<notin> r_lsnID ` set (all_rows fs)"
  shows "\<exists>n'. sendReq (master_link wait d pc) ctx l n = (n', Fail ErrNoNewLogs) \<and> master_ok d fs n'"
proof -
  let ?c = "(fst n)\<lparr>mc_r := NewReader [(le_bytes reqSize (unat l), None)]\<rparr>"
  obtain bw m where H: "Master_Handle Background wait finish_index d ?c = (?c\<lparr>mc_r := NewReader [], mc_m := m, mc_w := bw\<rparr>, Ok ())"
    "idx_rel m fs" "bufw_ok bw" "bw_buf bw = []" "written bw = writerError ErrNoNewLogs [errFlag]"
    using Master_no_new_logs [of ?c "NewReader []" l Background wait fs finish_index d] n l ctx(2) direct_getReq finish_index_ok
    by (auto simp: master_ok_def link_ok_def Background_def)
  show ?thesis
    using direct_sendReq [OF _ pc ctx(1) H(1), of errFlag "bytes_of_string (error_text ErrNoNewLogs)"] H n
    by (auto simp: writerError_def errFlag_def master_ok_def clear_out_def Let_def)
qed

text \<open>One round of the slave when the master has more.\<close>

definition slave_logs :: "string \<Rightarrow> nat \<Rightarrow> (manager \<times> world, 'n) slave \<Rightarrow> row list \<Rightarrow> bool" where
  "slave_logs d k s xs \<longleftrightarrow> sl_logWriter s = Some (NewLogWriter (Some manager_target)) \<and> log_has d k (sl_out s) xs \<and>
     storage_inv (sl_st s)"

lemma round_rows:
  assumes "master_ok d fs (sl_cl s)" "cuts pc" "ctx_err ctx = None"
    and rows: "all_rows fs = before @ rows" "rows \<noteq> []" "r_lsnID (hd rows) = sl_lastLsnWritten s + 1"
      "sl_lastLsnWritten s \<noteq> - 1" "length (encs rows) < 2 ^ 31"
    and slave: "slave_logs d' (k + length rows) s xs"
  shows "\<exists>s'. getUpdates (master_link wait d pc) early ctx s = (s', Ok ()) \<and>
    storage_abs (sl_st s') = kv_replay (ops_of rows) (storage_abs (sl_st s)) \<and> slave_logs d' k s' (xs @ rows) \<and>
    sl_lastLsnWritten s' = r_lsnID (last rows) \<and> master_ok d fs (sl_cl s')"
proof -
  have l0: "sl_lastLsnWritten s + 1 \<noteq> 0" using rows(4) by (simp add: eq_neg_iff_add_eq_0)
  obtain n' where n': "sendReq (master_link wait d pc) ctx (sl_lastLsnWritten s + 1) (sl_cl s) =
      (n', Ok \<lparr>rs_Data = encs rows, rs_Err = None\<rparr>)" "master_ok d fs n'"
    using direct_rows [OF assms(1-3) rows(1-3) l0 rows(5)] by blast
  have ok: "list_all row_ok rows" "list_all (write_query \<circ> query_of) rows"
    using readable_rows_ok assms(1) rows(1) unfolding master_ok_def by fastforce+
  from slave have sl: "sl_logWriter s = Some (NewLogWriter (Some manager_target))" "log_has d' (k + length rows) (sl_out s) xs"
    "storage_inv (sl_st s)" by (simp_all add: slave_logs_def)
  from seg.getUpdates_logged [OF n'(1) sl(1,2) ok rows(2) sl(3) assms(3), of early] n'(2) sl(1)
  show ?thesis by (auto simp: slave_logs_def)
qed

section \<open>An example master\<close>

lemma demo_log_rows:
  assumes "list_all row_ok rows" and "length rows + k \<le> 3"
  shows "\<exists>s. log_has ''wal'' k s rows"
proof -
  obtain s where "log_has ''wal'' (k + length rows) s []" using demo_log log_has_le assms(2) by (metis add.commute)
  then show ?thesis using seg.twrite_ok [of "''wal''" k rows s "[]"] assms(1) by auto
qed

lemma demo_master:
  assumes "list_all row_ok rows" "length rows \<le> 3" "distinct (map r_lsnID rows)" "list_all (write_query \<circ> query_of) rows"
  shows "\<exists>fs n. master_ok ''wal'' fs n \<and> all_rows fs = rows"
proof -
  obtain m w fs where fs: "mgr_ok 0 ''wal'' m w fs" "all_rows fs = rows"
    using demo_log_rows [OF assms(1), of 0] assms(2) by (auto simp: log_has_def)
  let ?n = "(\<lparr>mc_r = NewReader [], mc_w = NewWriter \<lparr>sk_out = [], sk_faults = []\<rparr>, mc_m = m, mc_files = w\<rparr>, [])"
  have "master_ok ''wal'' fs ?n"
    using fs assms(3,4) mgr_ok_readable [OF fs(1)] by (simp add: master_ok_def link_ok_def mgr_ok_def)
  with fs(2) show ?thesis by blast
qed

text \<open>One byte at a time.\<close>

definition bytewise :: "byte list \<Rightarrow> byte list list" where
  "bytewise x = map (\<lambda>b. [b]) x"

lemma cuts_bytewise: "cuts bytewise"
  by (auto simp: cuts_def bytewise_def)

lemma demo_rows_facts:
  "list_all (write_query \<circ> query_of) demo_rows" "distinct (map r_lsnID demo_rows)" "length (encs demo_rows) < 2 ^ 31"
  by (simp_all add: demo_rows_def write_query_def query_of_def NewRow_def NewQuery_def method_ids enc_def Marshal_def)

lemma demo_storage: "\<exists>st. storage_inv st \<and> storage_abs st = Map.empty"
proof -
  obtain e where "engine_inv e" "engine_abs e = Map.empty" using NewEngine_ok [of "''in_memory''" 4] by auto
  then show ?thesis using Storage_New_inv [of e] by auto
qed

definition demo_slave :: "link \<Rightarrow> manager \<times> world \<Rightarrow> storage \<Rightarrow> (manager \<times> world, link) slave" where
  "demo_slave n out st = NewSlaveWithWal n (NewLogWriter (Some manager_target)) out st 0"

section \<open>Properties\<close>

text \<open>
  C10. The slave catches up in one round and then stays: when it holds the rows up to some number
  and the master's log holds further rows from the next number on, \<^verbatim>\<open>getUpdates\<close> against the master,
  whatever pieces the answer arrives in, brings the storage of the slave to the replay of the
  whole log of the master, appends exactly the missing rows to the log of the slave and remembers
  the last number; when there is no row with the number after that, the next round ends with
  \<^verbatim>\<open>ErrNoNewLogs\<close> and changes nothing.
\<close>

theorem replication_catches_up:
  assumes "master_ok d fs (sl_cl s)" "cuts pc" "ctx_err ctx = None" "\<And>i. wait i = None"
    and "all_rows fs = before @ rows" "rows \<noteq> []" "r_lsnID (hd rows) = sl_lastLsnWritten s + 1"
      "sl_lastLsnWritten s \<noteq> - 1" "length (encs rows) < 2 ^ 31"
    and "slave_logs d' (k + length rows) s xs" "storage_abs (sl_st s) = kv_replay (ops_of before) Map.empty"
    and "r_lsnID (last rows) \<noteq> - 1" "r_lsnID (last rows) + 1 \<notin> r_lsnID ` set (all_rows fs)"
  shows "\<exists>s' n. getUpdates (master_link wait d pc) early ctx s = (s', Ok ()) \<and>
    storage_abs (sl_st s') = kv_replay (ops_of (all_rows fs)) Map.empty \<and> slave_logs d' k s' (xs @ rows) \<and>
    sl_lastLsnWritten s' = r_lsnID (last rows) \<and>
    getUpdates (master_link wait d pc) early ctx s' = (s'\<lparr>sl_cl := n\<rparr>, Fail ErrNoNewLogs)"
proof -
  obtain s' where s': "getUpdates (master_link wait d pc) early ctx s = (s', Ok ())"
    "storage_abs (sl_st s') = kv_replay (ops_of rows) (storage_abs (sl_st s))" "slave_logs d' k s' (xs @ rows)"
    "sl_lastLsnWritten s' = r_lsnID (last rows)" "master_ok d fs (sl_cl s')"
    using round_rows [OF assms(1-3,5-10)] by blast
  have l: "sl_lastLsnWritten s' + 1 \<noteq> 0" "sl_lastLsnWritten s' + 1 \<notin> r_lsnID ` set (all_rows fs)"
    using assms(12,13) s'(4) by (auto simp: eq_neg_iff_add_eq_0)
  obtain n where "sendReq (master_link wait d pc) ctx (sl_lastLsnWritten s' + 1) (sl_cl s') = (n, Fail ErrNoNewLogs)"
    using direct_nothing [where wait = wait, OF s'(5) assms(2-4) l] by blast
  then have "getUpdates (master_link wait d pc) early ctx s' = (s'\<lparr>sl_cl := n\<rparr>, Fail ErrNoNewLogs)"
    using assms(3) by (simp add: getUpdates_def)
  moreover have "storage_abs (sl_st s') = kv_replay (ops_of (all_rows fs)) Map.empty"
    using s'(2) assms(5,11) by (simp add: ops_of_def)
  ultimately show ?thesis using s' by blast
qed


theorem replication_catches_up_witness:
  "\<exists>n out st s'. getUpdates (master_link (\<lambda>_. None) ''wal'' bytewise) True Background (demo_slave n out st) = (s', Ok ()) \<and>
     storage_abs (sl_st s') = Map.empty \<and> slave_logs ''wal'' 0 s' demo_rows \<and> sl_lastLsnWritten s' = 2"
proof -
  obtain fs n where m: "master_ok ''wal'' fs n" "all_rows fs = demo_rows"
    using demo_master [OF demo_rows_ok _ demo_rows_facts(2,1)] by (auto simp: demo_rows_def)
  obtain out where out: "log_has ''wal'' (0 + length demo_rows) out []"
    using demo_log_rows [of "[]" "0 + length demo_rows"] by (auto simp: demo_rows_def)
  obtain st where st: "storage_inv st" "storage_abs st = Map.empty" using demo_storage by blast
  have d: "kv_replay (ops_of demo_rows) Map.empty = Map.empty" "r_lsnID (hd demo_rows) = 1" "r_lsnID (last demo_rows) = 2"
    "r_lsnID ` set demo_rows = {1, 2}" "demo_rows \<noteq> []"
    by (simp_all add: demo_rows_def ops_of_def qop_def query_of_def NewRow_def NewQuery_def method_ids fun_eq_iff)
  have s: "sl_cl (demo_slave n out st) = n" "sl_lastLsnWritten (demo_slave n out st) = 0" "sl_st (demo_slave n out st) = st"
    "slave_logs ''wal'' (0 + length demo_rows) (demo_slave n out st) []" "ctx_err Background = None"
    using out st(1) by (simp_all add: demo_slave_def NewSlaveWithWal_def slave_logs_def Background_def)
  from replication_catches_up [where s = "demo_slave n out st" and d = "''wal''" and fs = fs and pc = bytewise and k = 0
      and ctx = Background and wait = "\<lambda>_. None" and before = "[]" and rows = demo_rows and d' = "''wal''" and xs = "[]"
      and early = True] s m st(2) d demo_rows_facts(3) cuts_bytewise
  obtain s' where "getUpdates (master_link (\<lambda>_. None) ''wal'' bytewise) True Background (demo_slave n out st) = (s', Ok ())"
    "storage_abs (sl_st s') = Map.empty" "slave_logs ''wal'' 0 s' demo_rows" "sl_lastLsnWritten s' = 2"
    by (auto simp: ops_of_def)
  then show ?thesis by blast
qed

text \<open>
  C32. A restarted slave doubles its log: \<^verbatim>\<open>NewSlaveWithWal\<close> starts at number zero although the log has
  been restored, so the first round of a slave that already holds all rows of the master asks for
  number one, and every row is written to its log a second time.
\<close>

theorem restarted_slave_duplicates_log:
  assumes "master_ok d fs n" "cuts pc" "ctx_err ctx = None"
    and "all_rows fs \<noteq> []" "r_lsnID (hd (all_rows fs)) = 1" "length (encs (all_rows fs)) < 2 ^ 31"
    and "log_has d' (k + length (all_rows fs)) out (all_rows fs)" "storage_inv st"
  shows "\<exists>s'. getUpdates (master_link wait d pc) early ctx
      (NewSlaveWithWal n (NewLogWriter (Some manager_target)) out st i) = (s', Ok ()) \<and>
    slave_logs d' k s' (all_rows fs @ all_rows fs)"
  using round_rows [of d fs "NewSlaveWithWal n (NewLogWriter (Some manager_target)) out st i" pc ctx "[]" "all_rows fs" d' k
      "all_rows fs" wait early] assms
  by (auto simp: NewSlaveWithWal_def slave_logs_def)

theorem restarted_slave_duplicates_log_witness:
  "\<exists>n out st s'. getUpdates (master_link (\<lambda>_. None) ''wal'' bytewise) True Background (demo_slave n out st) = (s', Ok ()) \<and>
     log_has ''wal'' 1 out [NewRow 1 SetMethodID [''k'', ''v'']] \<and>
     slave_logs ''wal'' 0 s' [NewRow 1 SetMethodID [''k'', ''v''], NewRow 1 SetMethodID [''k'', ''v'']]"
proof -
  let ?rows = "[NewRow 1 SetMethodID [''k'', ''v'']]"
  have r: "list_all row_ok ?rows" "list_all (write_query \<circ> query_of) ?rows" "length (encs ?rows) < 2 ^ 31"
    by (simp_all add: row_ok_def write_query_def query_of_def NewRow_def NewQuery_def enc_def Marshal_def)
  obtain fs n where m: "master_ok ''wal'' fs n" "all_rows fs = ?rows" using demo_master [OF r(1) _ _ r(2)] by auto
  obtain out where out: "log_has ''wal'' 1 out ?rows" using demo_log_rows [OF r(1), of 1] by auto
  obtain st where st: "storage_inv st" using demo_storage by blast
  from restarted_slave_duplicates_log [where n = n and d = "''wal''" and fs = fs and pc = bytewise and k = 0
      and ctx = Background and wait = "\<lambda>_. None" and d' = "''wal''" and out = out and st = st and early = True and i = 0]
    m out st r(3) cuts_bytewise
  obtain s' where "getUpdates (master_link (\<lambda>_. None) ''wal'' bytewise) True Background (demo_slave n out st) = (s', Ok ())"
    "slave_logs ''wal'' 0 s' [NewRow 1 SetMethodID [''k'', ''v''], NewRow 1 SetMethodID [''k'', ''v'']]"
    by (auto simp: demo_slave_def Background_def NewRow_def)
  with out show ?thesis by blast
qed

text \<open>
  Rows out of order are fetched for ever: when a row is followed in the master's log by the
  row with the number before its own (the numbers are drawn before the rows enter the channel),
  a slave that has reached the smaller number gets the same rows again in every round, writes them
  to its log each time and never moves on.
\<close>

lemma out_of_order_rows_refetched:
  assumes "cuts pc" and "all_rows fs = before @ a # mid @ [b]" and "r_lsnID a = r_lsnID b + 1" "r_lsnID b \<noteq> - 1"
    and "length (encs (a # mid @ [b])) < 2 ^ 31"
    and "master_ok d fs (sl_cl s)" "sl_lastLsnWritten s = r_lsnID b"
    and "slave_logs d' (k + t * length (a # mid @ [b])) s xs"
  shows "\<exists>s'. startReplication (master_link wait d pc) early (replicate t Background) s = (s', Hang) \<and>
    sl_lastLsnWritten s' = r_lsnID b \<and> slave_logs d' k s' (xs @ concat (replicate t (a # mid @ [b])))"
  using assms(6-8)
proof (induction t arbitrary: s xs)
  case (Suc t)
  let ?rows = "a # mid @ [b]" and ?u = "getUpdates (master_link wait d pc) early Background s"
  have bg: "ctx_err Background = None" by (simp add: Background_def)
  have "slave_logs d' ((k + t * length ?rows) + length ?rows) s xs" using Suc.prems(3) by (simp add: algebra_simps)
  then obtain s1 where s1: "?u = (s1, Ok ())" "slave_logs d' (k + t * length ?rows) s1 (xs @ ?rows)"
    "sl_lastLsnWritten s1 = r_lsnID b" "master_ok d fs (sl_cl s1)"
    using round_rows [OF Suc.prems(1) assms(1) bg assms(2), of d' "k + t * length ?rows" xs wait early] Suc.prems(2) assms(3-5)
    by auto
  with Suc.IH [OF s1(4,3,2)] show ?case using bg by simp
qed simp

text \<open>
  C38. A request that arrives in pieces is refused: \<^verbatim>\<open>getReq\<close> takes what one \<^verbatim>\<open>Read\<close> returns, so
  when the connection delivers the eight bytes of a request in two parts, both parts are answered
  with an error and no row is sent, whatever the log holds.
\<close>

theorem split_request_refused:
  assumes "Request_Marshal q = Ok (u @ v)" "u \<noteq> []" "v \<noteq> []" "mc_r c = NewReader [(u, None), (v, None)]" "bufw_ok (mc_w c)"
    and "ctx_err ctx = None"
  shows "\<exists>c1 c2. Master_Handle ctx wait env d c = (c1, Ok ()) \<and> Master_Handle ctx wait env d c1 = (c2, Ok ()) \<and>
    written (mc_w c2) = written (mc_w c) @ writerError ErrShortRequest [errFlag] @ writerError ErrShortRequest [errFlag] \<and>
    mc_r c2 = NewReader []"
proof -
  have len: "length u + length v = 8" using arg_cong [OF assms(1), of "\<lambda>r. case r of Ok b \<Rightarrow> length b | _ \<Rightarrow> 0"]
    by (simp add: Request_Marshal_def reqSize_def)
  have get: "getReq (NewReader ((x, None) # r)) = (NewReader r, Fail ErrShortRequest)" if "x \<noteq> []" "length x < 8" for x r
    using that by (simp add: getReq_def bufio_Read_def NewReader_def reqSize_def bufsize_def Request_Unmarshal_def)
  have "length u < 8" "length v < 8" using len assms(2,3) by (auto simp: neq_Nil_conv)
  note g = get [OF assms(2) this(1)] get [OF assms(3) this(2)]
  obtain bw1 where b1: "answer_error ErrShortRequest (c\<lparr>mc_r := NewReader [(v, None)]\<rparr>) =
      (c\<lparr>mc_r := NewReader [(v, None)], mc_w := bw1\<rparr>, Ok ())" "bufw_ok bw1"
    "written bw1 = written (mc_w c) @ writerError ErrShortRequest [errFlag]"
    using answer_error_ok [of "c\<lparr>mc_r := NewReader [(v, None)]\<rparr>" ErrShortRequest] assms(5) by auto
  obtain bw2 where "answer_error ErrShortRequest (c\<lparr>mc_w := bw1, mc_r := NewReader []\<rparr>) =
      (c\<lparr>mc_r := NewReader [], mc_w := bw2\<rparr>, Ok ())" "written bw2 = written bw1 @ writerError ErrShortRequest [errFlag]"
    using answer_error_ok [of "c\<lparr>mc_w := bw1, mc_r := NewReader []\<rparr>" ErrShortRequest] b1(2) by auto
  with b1 show ?thesis using g assms(4,6) by (auto simp: Master_Handle_def)
qed


theorem split_request_refused_witness:
  "\<exists>c c1 c2. mc_r c = NewReader [([1, 0, 0], None), ([0, 0, 0, 0, 0], None)] \<and>
     Master_Handle Background (\<lambda>_. None) id ''wal'' c = (c1, Ok ()) \<and>
     Master_Handle Background (\<lambda>_. None) id ''wal'' c1 = (c2, Ok ()) \<and>
     written (mc_w c2) = writerError ErrShortRequest [errFlag] @ writerError ErrShortRequest [errFlag]"
proof -
  obtain fs n where m: "master_ok ''wal'' fs n" using demo_master [of "[]"] by auto
  define c where "c = (fst n)\<lparr>mc_r := NewReader [([1, 0, 0], None), ([0, 0, 0, 0, 0], None)]\<rparr>"
  have "le_bytes 8 (Suc 0) = [1, 0, 0] @ [0, 0, 0, 0, 0]" by code_simp
  then have q: "Request_Marshal \<lparr>LsnID = 1\<rparr> = Ok ([1, 0, 0] @ [0, 0, 0, 0, 0])" by (simp add: Request_Marshal_def reqSize_def)
  have c: "mc_r c = NewReader [([1, 0, 0], None), ([0, 0, 0, 0, 0], None)]" "bufw_ok (mc_w c)" "written (mc_w c) = []"
    using m by (simp_all add: c_def master_ok_def link_ok_def)
  have "ctx_err Background = None" by (simp add: Background_def)
  from split_request_refused [OF q _ _ c(1,2) this, of "\<lambda>_. None" id "''wal''"] c(1,3) show ?thesis by auto
qed

end
