(* ===== verification/Transport.thy ===== *)
theory Transport
  imports Handlers Replication "HOL-Library.Multiset"
begin

text \<open>
  \<^verbatim>\<open>internal/transport\<close>: the TCP listener with its connections, the command line listener, and the
  TCP client of a slave. A handler is a function on the state of a connection, as in
  \<^verbatim>\<open>handlers.Handler\<close>; both the request handler and the master of the replication are used so.
\<close>

section \<open>The TCP listener\<close>

record tcp_server =
  ts_Address :: string
  ts_MaxConn :: int
  ts_MaxMessageSize :: int
  ts_IdleTimeout :: int
  ts_SemWaitTimeout :: int

record tcp_listener =
  tl_address :: string
  tl_maxConn :: int
  tl_maxMsgSize :: int
  tl_idleTimeout :: int
  tl_semWaitTimeout :: int
  tl_sem :: semaphore

definition defaultAddress :: string where "defaultAddress = ''0.0.0.0:8080''"
definition defaultMaxConn :: int where "defaultMaxConn = 100"
definition defaultMaxMsgSize :: int where "defaultMaxMsgSize = 4096"
definition defaultSemWaitTimeout :: int where "defaultSemWaitTimeout = 5000000000"
definition defaultIdleTimeout :: int where "defaultIdleTimeout = 300000000000"

definition NewListener :: "tcp_server \<Rightarrow> tcp_listener res" where
  "NewListener c =
     (let maxConn = or_default 0 defaultMaxConn (ts_MaxConn c) in
      then_res (NewSemaphore maxConn) (\<lambda>sem.
        Ok \<lparr>tl_address = or_default [] defaultAddress (ts_Address c), tl_maxConn = maxConn,
            tl_maxMsgSize = or_default 0 defaultMaxMsgSize (ts_MaxMessageSize c),
            tl_idleTimeout = or_default 0 defaultIdleTimeout (ts_IdleTimeout c),
            tl_semWaitTimeout = or_default 0 defaultSemWaitTimeout (ts_SemWaitTimeout c), tl_sem = sem\<rparr>))"

text \<open>\<^verbatim>\<open>errors.As(err, &netErr)\<close> for a \<^verbatim>\<open>*net.OpError\<close>.\<close>

fun is_OpError :: "goerr \<Rightarrow> bool" where
  "is_OpError (NetErr s) = True"
| "is_OpError (Wrap m e) = is_OpError e"
| "is_OpError _ = False"

text \<open>
  The loop of \<^verbatim>\<open>handleConnection\<close>, with fuel: it goes on as long as the handler returns neither
  \<^verbatim>\<open>io.EOF\<close> nor an error of the network. \<open>ctxs i\<close> is the context at call \<open>i\<close>. A panic of the handler
  is recovered.
\<close>

fun conn_loop ::
  "(context_t \<Rightarrow> 'c \<Rightarrow> 'c \<times> unit res) \<Rightarrow> (nat \<Rightarrow> context_t) \<Rightarrow> nat \<Rightarrow> nat \<Rightarrow> 'c \<Rightarrow> ('c \<times> unit res) option" where
  "conn_loop hdl ctxs 0 i c = None"
| "conn_loop hdl ctxs (Suc n) i c =
     (case hdl (ctxs i) c of
        (c', Ok _) \<Rightarrow> conn_loop hdl ctxs n (Suc i) c'
      | (c', Fail e) \<Rightarrow>
          if errors_Is e EOF \<or> is_OpError e then Some (c', Ok ()) else conn_loop hdl ctxs n (Suc i) c'
      | (c', Panic) \<Rightarrow> Some (c', Ok ())
      | (c', Hang) \<Rightarrow> Some (c', Hang))"

text \<open>At the end the semaphore is released and the connection closed.\<close>

record 'c served =
  sv_conn :: 'c
  sv_sem :: semaphore
  sv_closed :: bool

definition handleConnection ::
  "(context_t \<Rightarrow> 'c \<Rightarrow> 'c \<times> unit res) \<Rightarrow> (nat \<Rightarrow> context_t) \<Rightarrow> nat \<Rightarrow> 'c \<Rightarrow> semaphore \<Rightarrow> 'c served option" where
  "handleConnection hdl ctxs fuel c sem =
     (case conn_loop hdl ctxs fuel 0 c of
        Some (c', Ok _) \<Rightarrow> Some \<lparr>sv_conn = c', sv_sem = Release sem, sv_closed = True\<rparr>
      | Some (c', _) \<Rightarrow> Some \<lparr>sv_conn = c', sv_sem = sem, sv_closed = False\<rparr>
      | None \<Rightarrow> None)"

text \<open>
  What a connection without a place gets. Errors of \<^verbatim>\<open>Write\<close> and \<^verbatim>\<open>Close\<close> are only logged; the flag
  says that the connection has been closed.
\<close>

definition tooManyConnections :: string where "tooManyConnections = ''too many connections''"

definition writeToConn :: "string \<Rightarrow> sink \<Rightarrow> sink" where
  "writeToConn str conn = fst (conn_Write (bytes_of_string str) conn)"

definition closeConn :: "sink \<Rightarrow> sink \<times> bool" where
  "closeConn conn = (conn, True)"

definition refuse_conn :: "sink \<Rightarrow> sink \<times> bool" where
  "refuse_conn conn = closeConn (writeToConn tooManyConnections conn)"

text \<open>
  The accept loop with the goroutines of the connections, as steps: connections are numbered in
  the order they are accepted. A connection whose deadline cannot be set is neither served nor
  closed; one that gets no place in time is told so and closed.
\<close>

record accepting =
  ac_sem :: semaphore
  ac_next :: nat
  ac_serving :: "nat list"
  ac_refused :: "nat list"
  ac_done :: "nat list"
  ac_leaked :: "nat list"
  ac_running :: bool

inductive listen :: "accepting \<Rightarrow> accepting \<Rightarrow> bool" where
  stop: "ac_running s \<Longrightarrow> listen s (s\<lparr>ac_running := False\<rparr>)"
| accept_error: "ac_running s \<Longrightarrow> listen s s"
| no_deadline: "ac_running s \<Longrightarrow>
    listen s (s\<lparr>ac_next := Suc (ac_next s), ac_leaked := ac_next s # ac_leaked s\<rparr>)"
| refuse: "ac_running s \<Longrightarrow> AcquireWithDeadline fired (ac_sem s) = (sem, False) \<Longrightarrow>
    listen s (s\<lparr>ac_sem := sem, ac_next := Suc (ac_next s), ac_refused := ac_next s # ac_refused s\<rparr>)"
| serve: "ac_running s \<Longrightarrow> AcquireWithDeadline fired (ac_sem s) = (sem, True) \<Longrightarrow>
    listen s (s\<lparr>ac_sem := sem, ac_next := Suc (ac_next s), ac_serving := ac_next s # ac_serving s\<rparr>)"
| finish: "i \<in> set (ac_serving s) \<Longrightarrow>
    listen s (s\<lparr>ac_sem := Release (ac_sem s), ac_serving := remove1 i (ac_serving s), ac_done := i # ac_done s\<rparr>)"

inductive_cases listenE: "listen s s'"

definition listen_start :: "tcp_listener \<Rightarrow> accepting" where
  "listen_start l = \<lparr>ac_sem = tl_sem l, ac_next = 0, ac_serving = [], ac_refused = [], ac_done = [], ac_leaked = [],
     ac_running = True\<rparr>"

text \<open>\<^verbatim>\<open>listen\<close> begins with \<^verbatim>\<open>net.Listen\<close>; its error \<open>bind\<close> is fatal for the process.\<close>

definition listen_bind :: "goerr option \<Rightarrow> tcp_listener \<Rightarrow> accepting res" where
  "listen_bind bind l = (case bind of Some e \<Rightarrow> Fail e | None \<Rightarrow> Ok (listen_start l))"

section \<open>The command line listener\<close>

text \<open>
  Every call of \<^verbatim>\<open>Handle\<close> wraps the standard input in a new buffered reader; what that reader has
  buffered beyond the first line is lost with it.
\<close>

record 'd console =
  cs_in :: reads
  cs_out :: sink
  cs_db :: 'd

definition cli_Handle :: "'d handler \<Rightarrow> context_t \<Rightarrow> 'd console \<Rightarrow> 'd console \<times> unit res" where
  "cli_Handle h ctx c =
     (case Handle h ctx \<lparr>hc_r = NewReader (cs_in c), hc_w = NewWriter (cs_out c), hc_db = cs_db c\<rparr> of
        (c', r) \<Rightarrow> (\<lparr>cs_in = br_src (hc_r c'), cs_out = bw_sink (hc_w c'), cs_db = hc_db c'\<rparr>, r))"

definition prompt :: string where "prompt = ''laguna db > ''"

text \<open>The loop over the contexts it finds; errors of the handler are only logged.\<close>

fun cli_loop :: "'d handler \<Rightarrow> context_t list \<Rightarrow> 'd console \<Rightarrow> 'd console \<times> unit res" where
  "cli_loop h [] c = (c, Hang)"
| "cli_loop h (ctx # ctxs) c =
     (if ctx_err ctx \<noteq> None then (c, Ok ())
      else
        (case cli_Handle h ctx c of
           (c', Panic) \<Rightarrow> (c', Panic)
         | (c', Hang) \<Rightarrow> (c', Hang)
         | (c', _) \<Rightarrow> cli_loop h ctxs c'))"

definition cli_listen :: "'d handler \<Rightarrow> context_t list \<Rightarrow> 'd console \<Rightarrow> 'd console \<times> unit res" where
  "cli_listen h ctxs c =
     (case conn_Write (bytes_of_string prompt) (cs_out c) of (s, _, _) \<Rightarrow> cli_loop h ctxs (c\<lparr>cs_out := s\<rparr>))"

section \<open>The choice of the listener\<close>

record transport_conf =
  tc_Type :: string
  tc_Sever :: tcp_server

datatype listener = TCP tcp_listener | CLI

definition transport_NewListener :: "transport_conf \<Rightarrow> listener res" where
  "transport_NewListener c =
     (if tc_Type c = ''tcp'' then then_res (NewListener (tc_Sever c)) (\<lambda>l. Ok (TCP l))
      else if tc_Type c = ''cli'' then Ok CLI
      else Ok CLI)"


section \<open>The TCP client\<close>

text \<open>
  A connection of the client: what has been written to it, what has arrived, and the absolute
  time of its deadline. \<open>peer\<close> is the reaction of the other side to a request. Reading when
  nothing has arrived waits until the deadline.
\<close>

record conn =
  cn_out :: "byte list"
  cn_in :: "byte list list"
  cn_deadline :: int

record client =
  ct_conn :: conn
  ct_address :: string
  ct_respSizeB :: int
  ct_deadline :: int
  ct_retryCount :: int
  ct_now :: int
  ct_faults :: "fault list"
  ct_reached :: "byte list list"

record client_conf =
  cc_Address :: string
  cc_MaxRespSize :: int
  cc_Deadline :: int
  cc_RetryCount :: int

definition defaultRespSizeB :: int where "defaultRespSizeB = 4096"
definition defaultDeadline :: int where "defaultDeadline = 5000000000"
definition defaultRetryCount :: int where "defaultRetryCount = 3"

definition timeout :: goerr where "timeout = NetErr ''i/o timeout''"

text \<open>Every call of the network takes one entry of the list of faults.\<close>

definition net_fault :: "client \<Rightarrow> client \<times> goerr option" where
  "net_fault cl =
     (case ct_faults cl of
        Fault n e # r \<Rightarrow> (cl\<lparr>ct_faults := r\<rparr>, Some e)
      | _ \<Rightarrow> (cl\<lparr>ct_faults := tl (ct_faults cl)\<rparr>, None))"

text \<open>\<^verbatim>\<open>net.Dial\<close> and \<^verbatim>\<open>SetDeadline\<close>; the old connection is neither closed nor used again.\<close>

definition setConn :: "client \<Rightarrow> client \<times> unit res" where
  "setConn cl =
     (case net_fault cl of
        (cl1, Some e) \<Rightarrow> (cl1, Fail e)
      | (cl1, None) \<Rightarrow>
          (case net_fault cl1 of
             (cl2, Some e) \<Rightarrow> (cl2, Fail e)
           | (cl2, None) \<Rightarrow>
               (cl2\<lparr>ct_conn := \<lparr>cn_out = [], cn_in = [], cn_deadline = ct_now cl2 + ct_deadline cl2\<rparr>\<rparr>, Ok ())))"

definition NewClient :: "client_conf \<Rightarrow> int \<Rightarrow> fault list \<Rightarrow> client \<times> unit res" where
  "NewClient conf now faults =
     setConn \<lparr>ct_conn = \<lparr>cn_out = [], cn_in = [], cn_deadline = 0\<rparr>, ct_address = cc_Address conf,
       ct_respSizeB = or_default 0 defaultRespSizeB (cc_MaxRespSize conf),
       ct_deadline = or_default 0 defaultDeadline (cc_Deadline conf),
       ct_retryCount = or_default 0 defaultRetryCount (cc_RetryCount conf),
       ct_now = now, ct_faults = faults, ct_reached = []\<rparr>"

definition client_send :: "(byte list \<Rightarrow> byte list list) \<Rightarrow> byte list \<Rightarrow> client \<Rightarrow> client \<times> unit res" where
  "client_send peer req cl =
     (case net_fault cl of
        (cl1, Some e) \<Rightarrow> (cl1, Fail e)
      | (cl1, None) \<Rightarrow>
          (let c = ct_conn cl1 in
           if cn_deadline c \<le> ct_now cl1 then (cl1, Fail timeout)
           else (cl1\<lparr>ct_conn := c\<lparr>cn_out := cn_out c @ req, cn_in := cn_in c @ peer req\<rparr>,
                      ct_reached := ct_reached cl1 @ [req]\<rparr>, Ok ())))"

definition send_or_reconnect :: "(byte list \<Rightarrow> byte list list) \<Rightarrow> byte list \<Rightarrow> client \<Rightarrow> client \<times> unit res" where
  "send_or_reconnect peer req cl =
     (case client_send peer req cl of
        (cl1, Fail e) \<Rightarrow> setConn cl1
      | (cl1, r) \<Rightarrow> (cl1, r))"

text \<open>What a reader of the connection will see.\<close>

definition conn_reads :: "client \<Rightarrow> reads" where
  "conn_reads cl =
     (if cn_deadline (ct_conn cl) \<le> ct_now cl then [([], Some timeout)]
      else map (\<lambda>x. (x, None)) (cn_in (ct_conn cl)) @ [([], Some timeout)])"

definition Send ::
  "(byte list \<Rightarrow> byte list list) \<Rightarrow> (nat \<Rightarrow> goerr option) \<Rightarrow> context_t \<Rightarrow> byte list \<Rightarrow> client \<Rightarrow> client \<times> reads res" where
  "Send peer wait ctx req cl =
     (case ctx_err ctx of
        Some e \<Rightarrow> (cl, Fail e)
      | None \<Rightarrow>
          (case WithRetry wait (ct_retryCount cl) 200000000 (Some (send_or_reconnect peer req)) cl of
             (cl1, r) \<Rightarrow> (cl1, then_res r (\<lambda>_. Ok (conn_reads cl1)))))"

text \<open>When the reader has met the deadline, that time has come.\<close>

definition after_read :: "reads \<Rightarrow> client \<Rightarrow> client" where
  "after_read r cl =
     (if r = [] then cl\<lparr>ct_now := max (ct_now cl) (cn_deadline (ct_conn cl)), ct_conn := (ct_conn cl)\<lparr>cn_in := []\<rparr>\<rparr>
      else cl\<lparr>ct_conn := (ct_conn cl)\<lparr>cn_in := map fst (butlast r)\<rparr>\<rparr>)"

definition client_if :: "(byte list \<Rightarrow> byte list list) \<Rightarrow> (nat \<Rightarrow> goerr option) \<Rightarrow> client tcp_client" where
  "client_if peer wait = \<lparr>cl_Send = Send peer wait, cl_left = after_read\<rparr>"


section \<open>Serving requests on a connection\<close>

text \<open>
  The contract between the connection loop and a handler: with the requests \<open>xs\<close> ahead, each call
  answers the first of them, and what it does is \<open>react\<close> on the view of the connection.
\<close>

locale serving =
  fixes hdl :: "context_t \<Rightarrow> 'c \<Rightarrow> 'c \<times> unit res"
    and serves :: "'x list \<Rightarrow> 'c \<Rightarrow> bool"
    and view :: "'c \<Rightarrow> 'a"
    and react :: "'x \<Rightarrow> 'a \<Rightarrow> 'a"
    and live :: "context_t \<Rightarrow> bool"
  assumes serve_one: "serves (x # xs) c \<Longrightarrow> live ctx \<Longrightarrow>
      \<exists>c'. hdl ctx c = (c', Ok ()) \<and> serves xs c' \<and> view c' = react x (view c)"
begin

lemma loop_serves:
  "serves xs c \<Longrightarrow> (\<And>j. live (ctxs j)) \<Longrightarrow>
   \<exists>c'. serves [] c' \<and> view c' = fold react xs (view c) \<and>
     (\<forall>n. conn_loop hdl ctxs (length xs + n) i c = conn_loop hdl ctxs n (i + length xs) c')"
proof (induction xs arbitrary: c i)
  case (Cons x xs)
  obtain c1 where c1: "hdl (ctxs i) c = (c1, Ok ())" "serves xs c1" "view c1 = react x (view c)"
    using serve_one [OF Cons.prems] by blast
  from Cons.IH [OF c1(2) Cons.prems(2), of "Suc i"] c1 show ?case by auto
qed auto

end

text \<open>A handler that reports the end of the input ends the connection.\<close>

locale serving_end = serving +
  fixes good :: "'b \<Rightarrow> bool"
  assumes serve_end: "serves [] c \<Longrightarrow> live ctx \<Longrightarrow>
      \<exists>c' e. hdl ctx c = (c', Fail e) \<and> errors_Is e EOF \<and> view c' = view c \<and> good c'"
begin

lemma connection_ends:
  assumes "serves xs c" and "\<And>j. live (ctxs j)"
  shows "\<exists>c'. handleConnection hdl ctxs (Suc (length xs + n)) c sem =
      Some \<lparr>sv_conn = c', sv_sem = Release sem, sv_closed = True\<rparr> \<and> view c' = fold react xs (view c) \<and> good c'"
proof -
  obtain c1 where c1: "serves [] c1" "view c1 = fold react xs (view c)"
    "conn_loop hdl ctxs (length xs + Suc n) 0 c = conn_loop hdl ctxs (Suc n) (0 + length xs) c1"
    using loop_serves [where ctxs = ctxs and i = 0, OF assms] by blast
  obtain c' e where "hdl (ctxs (length xs)) c1 = (c', Fail e)" "errors_Is e EOF" "view c' = view c1" "good c'"
    using serve_end [OF c1(1) assms(2)] by blast
  then show ?thesis using c1(2,3) by (auto simp: handleConnection_def)
qed

end

subsection \<open>The request handler of the program\<close>

abbreviation laguna_handler :: "(manager \<times> world) database handler" where
  "laguna_handler \<equiv> NewUniversalHandler Parse (\<lambda>ctx. Execute ctx live_wait (worker_turn wal_writer))"

text \<open>What a line does to the stored map and the text it is answered with.\<close>

definition line_effect :: "byte list \<Rightarrow> (string \<rightharpoonup> string) \<Rightarrow> (string \<rightharpoonup> string) \<times> string" where
  "line_effect l m =
     (case Parse (l @ [newline]) of
        Ok q \<Rightarrow>
          if q_methodID q = GetMethodID then (m, case m (q_args q ! 0) of None \<Rightarrow> [] | Some v \<Rightarrow> v)
          else (kv_apply (qop q) m, ''OK'')
      | Fail e \<Rightarrow> (m, error_text e)
      | _ \<Rightarrow> (m, []))"

definition line_react :: "byte list \<Rightarrow> (string \<rightharpoonup> string) \<times> byte list \<Rightarrow> (string \<rightharpoonup> string) \<times> byte list" where
  "line_react l x = (case line_effect l (fst x) of (m, v) \<Rightarrow> (m, snd x @ reply v))"

definition line_ok :: "byte list \<Rightarrow> bool" where
  "line_ok l \<longleftrightarrow> newline \<notin> set l \<and> (case Parse (l @ [newline]) of Ok q \<Rightarrow> query_ok q | _ \<Rightarrow> True)"

definition conn_view :: "'s database hconn \<Rightarrow> (string \<rightharpoonup> string) \<times> byte list" where
  "conn_view c = (storage_abs (db_st (hc_db c)), written (hc_w c))"

text \<open>
  The lines \<open>ls\<close> and perhaps the beginning of another one are ahead, and then the end of the
  input; the database is a consistent master with room in its log.
\<close>

definition lines_ahead :: "string \<Rightarrow> nat \<Rightarrow> byte list list \<Rightarrow> (manager \<times> world) database hconn \<Rightarrow> bool" where
  "lines_ahead d k ls c \<longleftrightarrow> bufr_ok (hc_r c) \<and> bufw_ok (hc_w c) \<and> list_all line_ok ls \<and>
     (\<exists>part r. newline \<notin> set part \<and> avail (hc_r c) = concat (map (\<lambda>l. l @ [newline]) ls) @ part \<and>
        ending (hc_r c) = Some (EOF, r)) \<and>
     db_ok (k + length ls) d (hc_db c) \<and> db_isMaster (hc_db c)"

definition consistent :: "string \<Rightarrow> nat \<Rightarrow> (manager \<times> world) database hconn \<Rightarrow> bool" where
  "consistent d k c \<longleftrightarrow> db_ok k d (hc_db c) \<and> db_isMaster (hc_db c)"

lemma Parse_outcomes: "(\<exists>q. Parse inp = Ok q \<and> valid_query q) \<or> (\<exists>e. Parse inp = Fail e \<and> \<not> errors_Is e EOF)"
proof -
  obtain ts where "Parse inp = parse_tokens ts" using Parse_tokens by blast
  then show ?thesis using parse_tokens_valid
    by (cases "parse_tokens ts") (auto simp: parse_tokens_def split: list.splits if_splits)
qed

lemma answer_line:
  assumes db: "db_ok (Suc k) d db" "db_isMaster db" and l: "line_ok l"
  shows "\<exists>db'. answer laguna_handler Background (l @ [newline]) db =
      Some (db', snd (line_effect l (storage_abs (db_st db)))) \<and>
    db_ok k d db' \<and> db_isMaster db' \<and> storage_abs (db_st db') = fst (line_effect l (storage_abs (db_st db)))"
proof -
  have bg: "ctx_err Background = None" by (simp add: Background_def)
  from Parse_outcomes [of "l @ [newline]"] show ?thesis
  proof (elim disjE exE conjE)
    fix e assume "Parse (l @ [newline]) = Fail e" "\<not> errors_Is e EOF"
    then show ?thesis using db db_ok_less by (simp add: answer_def NewUniversalHandler_def line_effect_def)
  next
    fix q assume P: "Parse (l @ [newline]) = Ok q" and v: "valid_query q"
    then have q: "query_ok q" using l by (simp add: line_ok_def)
    show ?thesis
    proof (cases "write_query q")
      case True
      then show ?thesis
        using Execute_write_ok [OF db q True bg] P write_not_get [OF True]
        by (auto simp: answer_def NewUniversalHandler_def line_effect_def)
    next
      case False
      then have g: "q_methodID q = GetMethodID" "q_args q \<noteq> []" using valid_query_cases [OF v] by auto
      obtain db' where "Execute Background live_wait (worker_turn wal_writer) q db =
          (db', Ok (case storage_abs (db_st db) (q_args q ! 0) of None \<Rightarrow> [] | Some v \<Rightarrow> v))"
        "db_ok k d db'" "storage_abs (db_st db') = storage_abs (db_st db)" "db_isMaster db' = db_isMaster db"
        using Execute_get_ok [OF db_ok_less [OF db(1)] g bg] by blast
      then show ?thesis using P g db(2) by (simp add: answer_def NewUniversalHandler_def line_effect_def)
    qed
  qed
qed

interpretation tcp: serving_end "Handle laguna_handler" "lines_ahead d k" conn_view line_react "\<lambda>ctx. ctx = Background"
  "consistent d k" for d k
proof unfold_locales
  fix l ls ctx and c :: "(manager \<times> world) database hconn"
  assume a: "lines_ahead d k (l # ls) c" and ctx: "ctx = Background"
  then obtain part r where av: "newline \<notin> set part" "avail (hc_r c) = l @ newline # (concat (map (\<lambda>l. l @ [newline]) ls) @ part)"
    "ending (hc_r c) = Some (EOF, r)" by (auto simp: lines_ahead_def)
  have ok: "bufr_ok (hc_r c)" "bufw_ok (hc_w c)" "line_ok l" "list_all line_ok ls" "db_ok (Suc (k + length ls)) d (hc_db c)"
    "db_isMaster (hc_db c)" using a by (simp_all add: lines_ahead_def)
  obtain db' where db: "answer laguna_handler ctx (l @ [newline]) (hc_db c) =
      Some (db', snd (line_effect l (storage_abs (db_st (hc_db c)))))" "db_ok (k + length ls) d db'" "db_isMaster db'"
    "storage_abs (db_st db') = fst (line_effect l (storage_abs (db_st (hc_db c))))"
    using answer_line [OF ok(5,6,3)] ctx by blast
  have live: "ctx_err ctx = None" and nl: "newline \<notin> set l" using ctx ok(3) by (simp_all add: Background_def line_ok_def)
  obtain br bw where H: "Handle laguna_handler ctx c = (c\<lparr>hc_r := br, hc_db := db', hc_w := bw\<rparr>, Ok ())" "bufr_ok br"
    "avail br = concat (map (\<lambda>l. l @ [newline]) ls) @ part" "ending br = ending (hc_r c)" "bufw_ok bw"
    "written bw = written (hc_w c) @ reply (snd (line_effect l (storage_abs (db_st (hc_db c)))))"
    using Handle_line [OF live ok(1) av(2) nl ok(2) db(1)] by blast
  have "lines_ahead d k ls (c\<lparr>hc_r := br, hc_db := db', hc_w := bw\<rparr>)"
    using H ok(4) av(1,3) db(2,3) by (auto simp: lines_ahead_def)
  moreover have "conn_view (c\<lparr>hc_r := br, hc_db := db', hc_w := bw\<rparr>) = line_react l (conn_view c)"
    using H(6) db(4) by (simp add: conn_view_def line_react_def split: prod.splits)
  ultimately show "\<exists>c'. Handle laguna_handler ctx c = (c', Ok ()) \<and> lines_ahead d k ls c' \<and> conn_view c' = line_react l (conn_view c)"
    using H(1) by blast
next
  fix ctx and c :: "(manager \<times> world) database hconn"
  assume "lines_ahead d k [] c" "ctx = Background"
  then show "\<exists>c' e. Handle laguna_handler ctx c = (c', Fail e) \<and> errors_Is e EOF \<and> conn_view c' = conn_view c \<and>
      consistent d k c'"
    using Handle_EOF [of ctx c _ laguna_handler] by (auto simp: lines_ahead_def Background_def conn_view_def consistent_def)
qed


text \<open>A whole connection, from the first byte to the end of the loop.\<close>

lemma tcp_session:
  assumes "conn_like src" "src_bytes src = concat (map (\<lambda>l. l @ [newline]) ls) @ part" "newline \<notin> set part"
    and "src_end src = Some (EOF, r)" "list_all line_ok ls" "db_ok (k + length ls) d db" "db_isMaster db"
  shows "\<exists>c. handleConnection (Handle laguna_handler) (\<lambda>_. Background) (Suc (length ls + n))
      \<lparr>hc_r = NewReader src, hc_w = NewWriter \<lparr>sk_out = [], sk_faults = []\<rparr>, hc_db = db\<rparr> sem =
        Some \<lparr>sv_conn = c, sv_sem = Release sem, sv_closed = True\<rparr> \<and>
    (storage_abs (db_st (hc_db c)), written (hc_w c)) = fold line_react ls (storage_abs (db_st db), []) \<and>
    db_ok k d (hc_db c) \<and> db_isMaster (hc_db c)"
proof -
  let ?c = "\<lparr>hc_r = NewReader src, hc_w = NewWriter \<lparr>sk_out = [], sk_faults = []\<rparr>, hc_db = db\<rparr>"
  have "lines_ahead d k ls ?c" using assms by (auto simp: lines_ahead_def)
  from tcp.connection_ends [where ctxs = "\<lambda>_. Background", OF this refl, of n sem] show ?thesis
    by (auto simp: conn_view_def consistent_def)
qed

subsection \<open>The master of the replication\<close>

text \<open>The rows that a request for a number is answered with.\<close>

definition rows_from :: "slog \<Rightarrow> u64 \<Rightarrow> row list" where
  "rows_from fs l = dropWhile (\<lambda>r. r_lsnID r \<noteq> l) (all_rows fs)"

definition number_react :: "slog \<Rightarrow> u64 \<Rightarrow> byte list \<Rightarrow> byte list" where
  "number_react fs l out =
     out @ (if rows_from fs l = [] then writerError ErrNoNewLogs [errFlag] else message (rows_from fs l))"

definition whole_requests :: "u64 list \<Rightarrow> reads" where
  "whole_requests ls = map (\<lambda>l. (le_bytes reqSize (unat l), None)) ls"

definition numbers_ahead :: "string \<Rightarrow> slog \<Rightarrow> reads \<Rightarrow> u64 list \<Rightarrow> mconn \<Rightarrow> bool" where
  "numbers_ahead d fs rest ls c \<longleftrightarrow> mc_r c = NewReader (whole_requests ls @ rest) \<and> bufw_ok (mc_w c) \<and>
     list_all (\<lambda>l. l \<noteq> 0) ls \<and> readable d (mc_files c) fs \<and> idx_rel (mc_m c) fs \<and> distinct (map r_lsnID (all_rows fs))"

interpretation master: serving "\<lambda>ctx. Master_Handle ctx (\<lambda>_. None) finish_index d" "numbers_ahead d fs rest"
  "\<lambda>c. written (mc_w c)" "number_react fs" "\<lambda>ctx. ctx_err ctx = None" for d fs rest
proof unfold_locales
  fix l ls c and ctx :: context_t assume a: "numbers_ahead d fs rest (l # ls) c" and ctx: "ctx_err ctx = None"
  have c: "mc_r c = NewReader ((le_bytes reqSize (unat l), None) # whole_requests ls @ rest)" "bufw_ok (mc_w c)" "l \<noteq> 0"
    "readable d (mc_files c) fs" "idx_rel (mc_m c) fs" "distinct (map r_lsnID (all_rows fs))" "list_all (\<lambda>l. l \<noteq> 0) ls"
    using a by (simp_all add: numbers_ahead_def whole_requests_def)
  have req: "getReq (mc_r c) = (NewReader (whole_requests ls @ rest), Ok \<lparr>LsnID = l\<rparr>)"
    unfolding c(1) using getReq_whole [of "NewReader ((le_bytes reqSize (unat l), None) # whole_requests ls @ rest)" _
        "whole_requests ls @ rest" "\<lparr>LsnID = l\<rparr>"]
    by (simp add: NewReader_def Request_Marshal_def)
  have m: "idx_rel (finish_index (mc_m c)) fs" "m_pending (finish_index (mc_m c)) = []" using finish_index_ok [OF c(5)] by auto
  show "\<exists>c'. Master_Handle ctx (\<lambda>_. None) finish_index d c = (c', Ok ()) \<and> numbers_ahead d fs rest ls c' \<and>
      written (mc_w c') = number_react fs l (written (mc_w c))"
  proof (cases "rows_from fs l = []")
    case True
    then have "l \<notin> r_lsnID ` set (all_rows fs)" by (auto simp: rows_from_def dropWhile_eq_Nil_conv)
    then obtain bw m' where "Master_Handle ctx (\<lambda>_. None) finish_index d c =
        (c\<lparr>mc_r := NewReader (whole_requests ls @ rest), mc_m := m', mc_w := bw\<rparr>, Ok ())" "idx_rel m' fs" "bufw_ok bw"
      "written bw = written (mc_w c) @ writerError ErrNoNewLogs [errFlag]"
      using Master_no_new_logs [OF req c(3) ctx _ c(5) _ _ c(2), of "\<lambda>_. None" finish_index d] finish_index_ok by blast
    then show ?thesis using c True by (simp add: numbers_ahead_def number_react_def)
  next
    case False
    have "all_rows fs = takeWhile (\<lambda>r. r_lsnID r \<noteq> l) (all_rows fs) @ rows_from fs l" by (simp add: rows_from_def)
    moreover have "r_lsnID (hd (rows_from fs l)) = l" using False hd_dropWhile unfolding rows_from_def by blast
    ultimately obtain bw where "Master_Handle ctx (\<lambda>_. None) finish_index d c =
        (c\<lparr>mc_r := NewReader (whole_requests ls @ rest), mc_m := finish_index (mc_m c), mc_w := bw\<rparr>, Ok ())" "bufw_ok bw"
      "written bw = written (mc_w c) @ message (rows_from fs l)"
      using Master_serves [where wait = "\<lambda>_. None" and env = finish_index, OF req c(3) ctx c(4) m c(6) _ False _ c(2)] by blast
    then show ?thesis using c m False by (simp add: numbers_ahead_def number_react_def)
  qed
qed

text \<open>
  At the end of its input the master answers with the error, which it has sent, and goes on.
\<close>

lemma Master_EOF:
  assumes "ctx_err ctx = None" and "mc_r c = NewReader (([], Some EOF) # r)" and "bufw_ok (mc_w c)"
  shows "\<exists>bw. Master_Handle ctx wait env d c = (c\<lparr>mc_r := NewReader r, mc_w := bw\<rparr>, Ok ()) \<and> bufw_ok bw \<and>
    written bw = written (mc_w c) @ writerError EOF [errFlag]"
proof -
  have "getReq (mc_r c) = (NewReader r, Fail EOF)"
    by (simp add: assms(2) getReq_def bufio_Read_def NewReader_def reqSize_def bufsize_def)
  then show ?thesis
    using answer_error_ok [of "c\<lparr>mc_r := NewReader r\<rparr>" EOF] assms(1,3) by (auto simp: Master_Handle_def)
qed


section \<open>The accept loop\<close>

text \<open>Every connection is in exactly one place, and the semaphore counts those being served.\<close>

definition accepting_inv :: "int \<Rightarrow> accepting \<Rightarrow> bool" where
  "accepting_inv mx s \<longleftrightarrow> sem_inv (ac_sem s) \<and> int (chan_cap (ac_sem s)) = mx \<and>
     held (ac_sem s) = length (ac_serving s) \<and>
     mset (ac_serving s) + mset (ac_refused s) + mset (ac_done s) + mset (ac_leaked s) = mset [0..<ac_next s]"

lemma accepting_inv_start:
  assumes "NewListener c = Ok l"
  shows "accepting_inv (tl_maxConn l) (listen_start l)"
  using assms by (auto simp: NewListener_def accepting_inv_def listen_start_def Let_def NewSemaphore_def make_chan_def
      sem_inv_def held_def split: if_splits)

lemma accepting_inv_step:
  assumes "listen s s'" and "accepting_inv mx s"
  shows "accepting_inv mx s'"
  using assms(1)
proof cases
  case (refuse fired sem)
  then show ?thesis using assms(2) sem_acquire [of "ac_sem s" fired sem False] by (auto simp: accepting_inv_def)
next
  case (serve fired sem)
  then show ?thesis using assms(2) sem_acquire [of "ac_sem s" fired sem True] by (auto simp: accepting_inv_def)
next
  case (finish i)
  then have "mset (ac_serving s) = mset (remove1 i (ac_serving s)) + {#i#}" by simp
  then show ?thesis using assms(2) finish sem_release [of "ac_sem s"]
    by (auto simp: accepting_inv_def length_remove1)
qed (use assms(2) in \<open>auto simp: accepting_inv_def\<close>)

section \<open>An expired client\<close>

text \<open>A client on a network without faults whose connection has passed its deadline.\<close>

definition expired :: "client \<Rightarrow> bool" where
  "expired cl \<longleftrightarrow> ct_faults cl = [] \<and> 0 < ct_deadline cl \<and> cn_deadline (ct_conn cl) \<le> ct_now cl"

lemma expired_Send:
  assumes "expired cl" and "ctx_err ctx = None"
  shows "Send peer wait ctx req cl =
    (cl\<lparr>ct_conn := \<lparr>cn_out = [], cn_in = [], cn_deadline = ct_now cl + ct_deadline cl\<rparr>\<rparr>, Ok [([], Some timeout)])"
proof -
  let ?cl = "cl\<lparr>ct_conn := \<lparr>cn_out = [], cn_in = [], cn_deadline = ct_now cl + ct_deadline cl\<rparr>\<rparr>"
  have "net_fault cl = (cl, None)" using assms(1) by (cases cl) (simp add: expired_def net_fault_def)
  then have "send_or_reconnect peer req cl = (?cl, Ok ())"
    using assms(1) by (simp add: send_or_reconnect_def client_send_def setConn_def expired_def)
  moreover obtain n where "retry_count (ct_retryCount cl) = Suc n" by (cases "retry_count (ct_retryCount cl)") (auto simp: retry_count_def split: if_splits)
  ultimately show ?thesis using assms by (simp add: Send_def WithRetry_def conn_reads_def expired_def)
qed

lemma ReadMessage_timeout: "ReadMessage [([], Some e)] = ([], Fail e)"
  by (simp add: ReadMessage_def ReadByte_def NewReader_def fill_unfold bufsize_def)

lemma expired_round:
  assumes "expired (sl_cl s)" and "ctx_err ctx = None"
  shows "\<exists>cl. getUpdates (client_if peer wait) early ctx s = (s\<lparr>sl_cl := cl\<rparr>, Fail timeout) \<and> expired cl \<and>
    ct_reached cl = ct_reached (sl_cl s)"
  using expired_Send [OF assms] assms
  by (auto simp: getUpdates_def sendReq_def Request_Marshal_def client_if_def ReadMessage_timeout after_read_def expired_def)

section \<open>Properties\<close>

text \<open>
  C20. The listener never serves more than \<open>max_conn\<close> connections at a time, and loses track of none:
  in every state of the accept loop the number of places taken is the number of connections being
  served and at most the maximum, and every connection accepted so far is exactly one of: being
  served, refused, finished, or left open because its deadline could not be set.
\<close>

theorem listener_bound:
  assumes "NewListener c = Ok l" and "listen_bind bind l = Ok s0" and "listen\<^sup>*\<^sup>* s0 s"
  shows "int (length (ac_serving s)) \<le> tl_maxConn l \<and> held (ac_sem s) = length (ac_serving s) \<and>
    mset (ac_serving s) + mset (ac_refused s) + mset (ac_done s) + mset (ac_leaked s) = mset [0..<ac_next s]"
proof -
  have "s0 = listen_start l" using assms(2) by (auto simp: listen_bind_def split: option.splits)
  with assms(3) have "accepting_inv (tl_maxConn l) s"
    by (induction rule: rtranclp_induct) (auto intro: accepting_inv_start [OF assms(1)] accepting_inv_step)
  then show ?thesis by (auto simp: accepting_inv_def sem_inv_def)
qed


theorem listener_bound_witness:
  "\<exists>l s. NewListener \<lparr>ts_Address = [], ts_MaxConn = 1, ts_MaxMessageSize = 0, ts_IdleTimeout = 0, ts_SemWaitTimeout = 0\<rparr> = Ok l \<and>
     listen_bind None l = Ok (listen_start l) \<and> listen\<^sup>*\<^sup>* (listen_start l) s \<and> ac_serving s = [0] \<and> int (length (ac_serving s)) \<le> tl_maxConn l"
proof -
  let ?c = "\<lparr>ts_Address = [], ts_MaxConn = 1, ts_MaxMessageSize = 0, ts_IdleTimeout = 0, ts_SemWaitTimeout = 0\<rparr>"
  obtain l where l: "NewListener ?c = Ok l" "tl_sem l = make_chan 1"
    by (simp add: NewListener_def NewSemaphore_def or_default_def)
  define sem where "sem = fst (AcquireWithDeadline False (make_chan 1))"
  have acq: "AcquireWithDeadline False (ac_sem (listen_start l)) = (sem, True)"
    using l(2) by (simp add: sem_def listen_start_def AcquireWithDeadline_def chan_send_def make_chan_def)
  let ?s = "(listen_start l)\<lparr>ac_sem := sem, ac_next := Suc 0, ac_serving := [0]\<rparr>"
  have "listen (listen_start l) ?s" using listen.serve [OF _ acq] by (simp add: listen_start_def)
  then have run: "listen\<^sup>*\<^sup>* (listen_start l) ?s" by blast
  have bind: "listen_bind None l = Ok (listen_start l)" by (simp add: listen_bind_def)
  from listener_bound [OF l(1) bind run] l(1) bind run show ?thesis by (intro exI [of _ l] exI [of _ ?s]) simp
qed

text \<open>
  C26. A slave whose connection has passed its deadline never replicates again: the deadline is
  set once when the connection is made, and \<^verbatim>\<open>Send\<close> answers a failed write with a new connection but
  does not send the request on it. On a network without any fault every round then waits for an
  answer to a request that was not sent, until the new connection has passed its deadline as well;
  the peer never gets another request, and the storage, the log and the last number of the slave
  stay as they are, for any number of rounds.
\<close>

theorem expired_client_never_recovers:
  assumes "expired (sl_cl s)"
  shows "\<exists>cl. startReplication (client_if peer wait) early (replicate t Background) s = (s\<lparr>sl_cl := cl\<rparr>, Hang) \<and>
    expired cl \<and> ct_reached cl = ct_reached (sl_cl s)"
  using assms
proof (induction t arbitrary: s)
  case (Suc t)
  have bg: "ctx_err Background = None" by (simp add: Background_def)
  obtain cl where cl: "getUpdates (client_if peer wait) early Background s = (s\<lparr>sl_cl := cl\<rparr>, Fail timeout)" "expired cl"
    "ct_reached cl = ct_reached (sl_cl s)"
    using expired_round [OF Suc.prems bg] by blast
  from Suc.IH [of "s\<lparr>sl_cl := cl\<rparr>"] cl show ?case by (auto simp: Background_def)
next
  case 0
  then show ?case by (intro exI [of _ "sl_cl s"]) simp
qed

definition demo_client :: client where
  "demo_client = \<lparr>ct_conn = \<lparr>cn_out = [], cn_in = [], cn_deadline = 5\<rparr>, ct_address = ''localhost:9090'', ct_respSizeB = 4096,
     ct_deadline = 5, ct_retryCount = 3, ct_now = 6, ct_faults = [], ct_reached = []\<rparr>"

theorem expired_client_never_recovers_witness:
  "\<exists>st cl. startReplication (client_if (\<lambda>_. []) (\<lambda>_. None)) True (replicate 7 Background)
       (NewSlave demo_client () st 0) = ((NewSlave demo_client () st 0)\<lparr>sl_cl := cl\<rparr>, Hang) \<and> ct_reached cl = []"
proof -
  obtain st where "storage_inv st" using demo_storage by blast
  have "expired (sl_cl (NewSlave demo_client () st 0))" by (simp add: NewSlave_def expired_def demo_client_def)
  from expired_client_never_recovers [OF this, of "\<lambda>_. []" "\<lambda>_. None" True 7] show ?thesis
    by (auto simp: NewSlave_def demo_client_def)
qed

text \<open>
  C40. A cancelled context does not end the connections: the handlers return the error of the
  context at once, which is neither \<^verbatim>\<open>io.EOF\<close> nor an error of the network, so the loop of
  \<^verbatim>\<open>handleConnection\<close> goes round without reading, for any number of calls; the place in the semaphore
  is not given back and the connection not closed.
\<close>

theorem cancelled_connection_spins:
  assumes "\<And>i. ctx_err (ctxs i) = Some CtxCanceled"
  shows "handleConnection (Handle h) ctxs n c sem = None \<and>
    handleConnection (\<lambda>ctx. Master_Handle ctx wait env d) ctxs n mc sem = None"
proof -
  have "conn_loop (Handle h) ctxs n i c = None \<and> conn_loop (\<lambda>ctx. Master_Handle ctx wait env d) ctxs n i mc = None" for i
    using assms by (induction n arbitrary: i) (simp_all add: Handle_def Master_Handle_def)
  then show ?thesis by (simp add: handleConnection_def)
qed

theorem cancelled_connection_spins_witness:
  "\<exists>ctxs. (\<forall>i. ctx_err (ctxs i) = Some CtxCanceled) \<and>
     handleConnection (Handle (NewUniversalHandler Parse (\<lambda>ctx q db. (db, Ok ''OK'')))) ctxs 1000
       \<lparr>hc_r = NewReader [([], Some EOF)], hc_w = NewWriter \<lparr>sk_out = [], sk_faults = []\<rparr>, hc_db = ()\<rparr> (make_chan 1) = None"
proof -
  let ?ctxs = "\<lambda>_. \<lparr>ctx_err = Some CtxCanceled, ctx_vals = []\<rparr>"
  have c: "ctx_err (?ctxs i) = Some CtxCanceled" for i by simp
  show ?thesis by (rule exI [of _ ?ctxs], rule conjI, simp, rule cancelled_connection_spins [THEN conjunct1], rule c)
qed

text \<open>
  The master does not notice that a slave has closed its side: it answers \<^verbatim>\<open>io.EOF\<close> like any
  other error and returns no error itself, so as long as writes succeed the loop of the connection
  goes on, sending one error message per round, while the request handler ends there.
\<close>

lemma master_ignores_EOF:
  assumes "mc_r c = NewReader (replicate n ([], Some EOF))" "bufw_ok (mc_w c)"
    and "hc_r hc = NewReader [([], Some EOF)]"
  shows "handleConnection (\<lambda>ctx. Master_Handle ctx wait env d) (\<lambda>_. Background) n c sem = None \<and>
    handleConnection (Handle h) (\<lambda>_. Background) (Suc n) hc sem =
      Some \<lparr>sv_conn = hc\<lparr>hc_r := NewReader []\<rparr>, sv_sem = Release sem, sv_closed = True\<rparr>"
proof -
  have bg: "ctx_err Background = None" by (simp add: Background_def)
  have "conn_loop (\<lambda>ctx. Master_Handle ctx wait env d) (\<lambda>_. Background) n i c = None" for i
    using assms(1,2)
  proof (induction n arbitrary: i c)
    case (Suc n)
    then have "mc_r c = NewReader (([], Some EOF) # replicate n ([], Some EOF))" by simp
    with Master_EOF [OF bg this Suc.prems(2), of wait env d] Suc.IH show ?case by auto
  qed simp
  moreover have "Handle h Background hc = (hc\<lparr>hc_r := NewReader []\<rparr>, Fail EOF)"
    by (rule Handle_EOF [OF bg]) (use assms(3) in simp_all)
  ultimately show ?thesis by (simp add: handleConnection_def)
qed

text \<open>
  The command line takes one line per read: each call of \<^verbatim>\<open>Handle\<close> on the standard input
  answers the first line of what one read returns; the rest of that read, further complete lines
  included, is gone with the buffered reader of the call, and the next call starts with the next
  read.
\<close>

lemma cli_drops_rest_of_read:
  assumes "cs_in c = (l @ newline # junk, None) # r" "newline \<notin> set l" "length (l @ newline # junk) \<le> bufsize"
    and "sk_faults (cs_out c) = []" "ctx_err ctx = None" "answer h ctx (l @ [newline]) (cs_db c) = Some (db, v)"
  shows "cli_Handle h ctx c =
    (\<lparr>cs_in = r, cs_out = \<lparr>sk_out = sk_out (cs_out c) @ reply v, sk_faults = []\<rparr>, cs_db = db\<rparr>, Ok ())"
proof -
  let ?c = "\<lparr>hc_r = NewReader (cs_in c), hc_w = NewWriter (cs_out c), hc_db = cs_db c\<rparr>"
  let ?br = "\<lparr>br_buf = junk, br_err = None, br_src = r\<rparr>"
  have "takeWhile (\<lambda>x. x \<noteq> newline) (l @ newline # junk) = l" using assms(2) by (auto simp: takeWhile_append)
  then have here: "ReadBytes_loop newline [] \<lparr>br_buf = l @ newline # junk, br_err = None, br_src = r\<rparr> =
      (?br, Ok (l @ [newline], None))"
    by (subst ReadBytes_loop.simps) (simp add: Let_def)
  have "fill (NewReader (cs_in c)) = Some \<lparr>br_buf = l @ newline # junk, br_err = None, br_src = r\<rparr>"
    using assms(1,3) by (simp add: fill_unfold NewReader_def Let_def)
  then have "ReadBytes newline (hc_r ?c) = (?br, Ok (l @ [newline], None))"
    using here by (simp add: ReadBytes_def, subst ReadBytes_loop.simps) (simp add: NewReader_def bufsize_def)
  moreover have "bufw_ok (hc_w ?c)" using assms(4) by simp
  ultimately obtain bw where "Handle h ctx ?c = (?c\<lparr>hc_r := ?br, hc_db := db, hc_w := bw\<rparr>, Ok ())" "bufw_ok bw"
    "bw_buf bw = []" "written bw = sk_out (cs_out c) @ reply v"
    using Handle_read [OF assms(5), of ?c ?br l h db v] assms(6) by auto
  then show ?thesis by (cases "bw_sink bw") (simp add: cli_Handle_def bufw_ok_def written_def)
qed


end
