(* ===== verification/Logger.thy ===== *)
theory Logger
  imports Laguna_Prelude
begin

text \<open>
  \<^verbatim>\<open>common/logger\<close>: the fields of a log entry and the configuration that \<^verbatim>\<open>New\<close> hands to the zap library.
  The library itself is an argument: \<open>build\<close> is its \<^verbatim>\<open>Config.Build\<close>, which fails when it cannot open
  the output.
\<close>

section \<open>Fields\<close>

datatype field_type = ByteStringType | StringType | Int64Type | Uint64Type

text \<open>\<open>fd_Integer\<close> is an \<^verbatim>\<open>int64\<close>.\<close>

record field =
  fd_Key :: string
  fd_Type :: field_type
  fd_Integer :: int
  fd_String :: string
  fd_Interface :: "byte list option"

definition Bytes :: "string \<Rightarrow> byte list \<Rightarrow> field" where
  "Bytes key val = \<lparr>fd_Key = key, fd_Type = ByteStringType, fd_Integer = 0, fd_String = [], fd_Interface = Some val\<rparr>"

definition String :: "string \<Rightarrow> string \<Rightarrow> field" where
  "String key val = \<lparr>fd_Key = key, fd_Type = StringType, fd_Integer = 0, fd_String = val, fd_Interface = None\<rparr>"

definition Integer :: "string \<Rightarrow> 64 word \<Rightarrow> field" where
  "Integer key val = \<lparr>fd_Key = key, fd_Type = Int64Type, fd_Integer = sint val, fd_String = [], fd_Interface = None\<rparr>"

text \<open>The conversion \<^verbatim>\<open>int64(val)\<close> reinterprets the bits.\<close>

definition UInteger :: "string \<Rightarrow> u64 \<Rightarrow> field" where
  "UInteger key val = \<lparr>fd_Key = key, fd_Type = Uint64Type, fd_Integer = sint val, fd_String = [], fd_Interface = None\<rparr>"

text \<open>No number is lost: converting back gives it again, though from 9223372036854775808 on it is stored as a
  negative one.\<close>

lemma UInteger_roundtrip: "word_of_int (fd_Integer (UInteger key val)) = val"
  by (simp add: UInteger_def)

lemma UInteger_negative: "fd_Integer (UInteger key val) < 0 \<longleftrightarrow> 2 ^ 63 \<le> uint val"
proof -
  have lt: "uint val < 2 ^ 64" using uint_lt2p [of val] by simp
  have "fd_Integer (UInteger key val) < 0 \<longleftrightarrow> bit (uint val) 63" by (simp add: UInteger_def sint_uint signed_take_bit_negative_iff)
  also have "\<dots> \<longleftrightarrow> odd (uint val div 2 ^ 63)" by (simp add: bit_iff_odd)
  also have "\<dots> \<longleftrightarrow> 2 ^ 63 \<le> uint val"
  proof (cases "2 ^ 63 \<le> uint val")
    case True
    then have "uint val div 2 ^ 63 = 1" using lt by (intro div_pos_geq [THEN trans]) (simp_all add: div_pos_pos_trivial)
    with True show ?thesis by simp
  next
    case False
    then have "uint val div 2 ^ 63 = 0" by (intro div_pos_pos_trivial) simp_all
    with False show ?thesis by simp
  qed
  finally show ?thesis .
qed

section \<open>The configuration of the library\<close>

record logger_conf =
  lc_Level :: string
  lc_Out :: string
  lc_DisableStacktrace :: bool

datatype level = DebugLevel | InfoLevel | WarnLevel | ErrorLevel | FatalLevel

record encoder_conf =
  ek_Time :: string
  ek_Level :: string
  ek_Name :: string
  ek_Caller :: string
  ek_Message :: string
  ek_Stacktrace :: string

record zap_conf =
  zc_Encoder :: encoder_conf
  zc_DisableStacktrace :: bool
  zc_Level :: level
  zc_OutputPaths :: "string list"

definition defaultZapLevel :: level where "defaultZapLevel = InfoLevel"
definition defaultOut :: string where "defaultOut = ''stdout''"

definition level_of :: "string \<Rightarrow> level" where
  "level_of s =
     (if s = ''debug'' then DebugLevel
      else if s = ''info'' then InfoLevel
      else if s = ''warn'' then WarnLevel
      else if s = ''error'' then ErrorLevel
      else if s = ''fatal'' then FatalLevel
      else defaultZapLevel)"

definition zap_config :: "logger_conf \<Rightarrow> zap_conf" where
  "zap_config c =
     \<lparr>zc_Encoder = \<lparr>ek_Time = ''time'', ek_Level = ''level'', ek_Name = ''logger'', ek_Caller = ''caller'', ek_Message = ''msg'',
        ek_Stacktrace = ''stacktrace''\<rparr>,
      zc_DisableStacktrace = lc_DisableStacktrace c, zc_Level = level_of (lc_Level c),
      zc_OutputPaths = (if lc_Out c = [] then [defaultOut] else [lc_Out c])\<rparr>"

definition logger_New :: "(zap_conf \<Rightarrow> 'l res) \<Rightarrow> logger_conf \<Rightarrow> 'l res" where
  "logger_New build c = (case build (zap_config c) of Ok l \<Rightarrow> Ok l | Fail e \<Rightarrow> Panic | Panic \<Rightarrow> Panic | Hang \<Rightarrow> Hang)"

text \<open>The level is the one named, and every other text means \<^verbatim>\<open>info\<close>.\<close>

lemma level_of_other: "s \<notin> {''debug'', ''warn'', ''error'', ''fatal''} \<Longrightarrow> level_of s = InfoLevel"
  by (simp add: level_of_def defaultZapLevel_def)

lemma one_output: "length (zc_OutputPaths (zap_config c)) = 1 \<and> [] \<notin> set (zc_OutputPaths (zap_config c))"
  by (simp add: zap_config_def defaultOut_def)

end
