(* ===== verification/Program.thy ===== *)
theory Program
  imports Transport Logger
begin

text \<open>
  The configuration, the start of the replication and of the whole database
  (\<^verbatim>\<open>replication/initialization.go\<close>, \<^verbatim>\<open>database/initialization.go\<close>), the two programs \<^verbatim>\<open>main.go\<close> and
  \<^verbatim>\<open>slave_instance/main.go\<close>, and the helpers of the command line client \<^verbatim>\<open>client/client.go\<close>. The
  configuration file is decoded by a YAML library, which is an argument.
\<close>

section \<open>Configuration\<close>

record engine_conf =
  ec_Type :: string
  ec_Shards :: int

record replication_conf =
  rc_Enable :: bool
  rc_IsMaster :: bool
  rc_SyncInterval :: int
  rc_Client :: client_conf
  rc_Server :: tcp_server

record profiler_conf =
  pc_Enable :: bool
  pc_Address :: string

record config =
  cf_Engine :: engine_conf
  cf_Logger :: logger_conf
  cf_Transport :: transport_conf
  cf_WAL :: config_wal
  cf_Replication :: replication_conf
  cf_Profiler :: profiler_conf

text \<open>
  The decoder of the YAML library is an argument. \<^verbatim>\<open>log.Fatalf\<close> ends the process: \<open>Fail\<close> is the error
  it prints.
\<close>

definition NewConfig :: "(byte list \<Rightarrow> config res) \<Rightarrow> string \<Rightarrow> world \<Rightarrow> world \<times> config res" where
  "NewConfig yaml_Unmarshal path w =
     (case ReadFile path w of
        (w1, Ok data) \<Rightarrow> (w1, yaml_Unmarshal data)
      | (w1, Fail e) \<Rightarrow> (w1, Fail e)
      | (w1, Panic) \<Rightarrow> (w1, Panic)
      | (w1, Hang) \<Rightarrow> (w1, Hang))"

section \<open>The start of the replication\<close>

type_synonym log_files = "manager \<times> world"

text \<open>The master gets its listener after it has been made; before that \<^verbatim>\<open>ls\<close> is nil.\<close>

record master =
  ma_walDir :: string
  ma_ls :: "tcp_listener option"

definition NewMaster :: "string \<Rightarrow> master" where
  "NewMaster walDir = \<lparr>ma_walDir = walDir, ma_ls = None\<rparr>"

definition setTransport :: "tcp_listener \<Rightarrow> master \<Rightarrow> master" where
  "setTransport ls m = m\<lparr>ma_ls := Some ls\<rparr>"

datatype replication =
    MasterSide master
  | SlaveSide "(log_files, client) slave"

definition initMaster :: "config \<Rightarrow> replication res" where
  "initMaster conf =
     (let m = NewMaster (c_Directory (cf_WAL conf)) in
      then_res (NewListener (rc_Server (cf_Replication conf))) (\<lambda>tcpLister. Ok (MasterSide (setTransport tcpLister m))))"

text \<open>\<open>now\<close> and \<open>faults\<close> are the clock and the faults of the network that the client meets.\<close>

definition initSlave :: "storage \<Rightarrow> config \<Rightarrow> log_files \<Rightarrow> int \<Rightarrow> fault list \<Rightarrow> replication res" where
  "initSlave st conf sm now faults =
     (let r = cf_Replication conf; syncInterval = rc_SyncInterval r in
      case NewClient (rc_Client r) now faults of
        (slaveCl, Ok _) \<Rightarrow>
          Ok (SlaveSide
            (if c_Enable (cf_WAL conf)
             then NewSlaveWithWal slaveCl (NewLogWriter (Some manager_target)) sm st syncInterval
             else NewSlave slaveCl sm st syncInterval))
      | (_, Fail e) \<Rightarrow> Fail e
      | (_, Panic) \<Rightarrow> Panic
      | (_, Hang) \<Rightarrow> Hang)"

definition InitReplication :: "storage \<Rightarrow> config \<Rightarrow> log_files \<Rightarrow> int \<Rightarrow> fault list \<Rightarrow> replication option res" where
  "InitReplication st conf sm now faults =
     (if \<not> rc_Enable (cf_Replication conf) then Ok None
      else if rc_IsMaster (cf_Replication conf) then then_res (initMaster conf) (\<lambda>r. Ok (Some r))
      else then_res (initSlave st conf sm now faults) (\<lambda>r. Ok (Some r)))"

section \<open>The start of the database\<close>

definition InitDB ::
  "bool \<Rightarrow> bool \<Rightarrow> config \<Rightarrow> world \<Rightarrow> int \<Rightarrow> fault list \<Rightarrow> world \<times> (log_files database \<times> replication option) res" where
  "InitDB early1 early2 conf w now faults =
     (case InitDB_core early1 early2 (ec_Type (cf_Engine conf)) (ec_Shards (cf_Engine conf)) (cf_WAL conf)
             (rc_IsMaster (cf_Replication conf)) w of
        (w', Ok db) \<Rightarrow>
          (w', then_res (InitReplication (db_st db) conf (db_out db) now faults) (\<lambda>repl. Ok (db, repl)))
      | (w', Fail e) \<Rightarrow> (w', Fail e)
      | (w', Panic) \<Rightarrow> (w', Panic)
      | (w', Hang) \<Rightarrow> (w', Hang))"

section \<open>The programs\<close>

text \<open>What \<^verbatim>\<open>main\<close> does, in order, up to the end of its context and then to its own end.\<close>

datatype action =
    Fatal goerr
  | StartReplication replication
  | StartWal
  | StartCli
  | StartListener listener
  | StartProfiler string
  | CloseListener
  | CloseReplication
  | SyncLogger

text \<open>\<^verbatim>\<open>Start\<close> of the two sides; a master without a listener only logs an error.\<close>

definition Master_Start :: "master \<Rightarrow> action list" where
  "Master_Start m = (case ma_ls m of None \<Rightarrow> [] | Some ls \<Rightarrow> [StartReplication (MasterSide m)])"

definition Slave_Start :: "(log_files, client) slave \<Rightarrow> action list" where
  "Slave_Start s = [StartReplication (SlaveSide s)]"

definition replication_Start :: "replication \<Rightarrow> action list" where
  "replication_Start r = (case r of MasterSide m \<Rightarrow> Master_Start m | SlaveSide s \<Rightarrow> Slave_Start s)"

text \<open>
  \<^verbatim>\<open>Close\<close> of a TCP listener uses the listener of the operating system, which the goroutine of
  \<^verbatim>\<open>Listen\<close> sets when it has it: \<open>up\<close>. Before that it is nil. Closing the listener of the terminal or
  the connection of a slave does nothing that could fail.
\<close>

definition listener_Close :: "bool \<Rightarrow> listener \<Rightarrow> unit res" where
  "listener_Close up ls = (case ls of TCP l \<Rightarrow> if up then Ok () else Panic | CLI \<Rightarrow> Ok ())"

definition Master_Close :: "bool \<Rightarrow> master \<Rightarrow> unit res" where
  "Master_Close up m = (case ma_ls m of None \<Rightarrow> Ok () | Some l \<Rightarrow> listener_Close up (TCP l))"

text \<open>The error of closing a connection is dropped.\<close>

definition Client_Close :: "client \<Rightarrow> unit res" where
  "Client_Close cl = Ok ()"

definition Slave_Close :: "(log_files, client) slave \<Rightarrow> unit res" where
  "Slave_Close s = Client_Close (sl_cl s)"

definition replication_Close :: "bool \<Rightarrow> replication \<Rightarrow> unit res" where
  "replication_Close up r = (case r of MasterSide m \<Rightarrow> Master_Close up m | SlaveSide s \<Rightarrow> Slave_Close s)"

lemmas Close_defs = replication_Close_def Master_Close_def Slave_Close_def Client_Close_def listener_Close_def

text \<open>
  The end of \<^verbatim>\<open>main\<close>; \<open>up\<close> says for the listener of the clients and for the one of the replication
  whether it is listening by now. \<^verbatim>\<open>repl.Close()\<close> on a nil interface panics.
\<close>

definition shutdown :: "bool \<times> bool \<Rightarrow> listener \<Rightarrow> replication option \<Rightarrow> action list \<times> unit res" where
  "shutdown up ls repl =
     (case listener_Close (fst up) ls of
        Ok _ \<Rightarrow>
          (case repl of
             None \<Rightarrow> ([CloseListener], Panic)
           | Some r \<Rightarrow>
               (case replication_Close (snd up) r of
                  Ok _ \<Rightarrow> ([CloseListener, CloseReplication, SyncLogger], Ok ())
                | x \<Rightarrow> ([CloseListener], x)))
      | x \<Rightarrow> ([], x))"

definition main_program ::
  "bool \<Rightarrow> bool \<Rightarrow> bool \<times> bool \<Rightarrow> config \<Rightarrow> world \<Rightarrow> int \<Rightarrow> fault list \<Rightarrow> action list \<times> unit res" where
  "main_program early1 early2 up conf w now faults =
     (case InitDB early1 early2 conf w now faults of
        (_, Ok (db, repl)) \<Rightarrow>
          (let acts = (case repl of Some r \<Rightarrow> replication_Start r | None \<Rightarrow> []) @ [StartWal, StartCli] in
           case transport_NewListener (cf_Transport conf) of
             Ok ls \<Rightarrow>
               (case shutdown up ls repl of
                  (acts', r) \<Rightarrow>
                    (acts @ [StartListener ls] @
                     (if pc_Enable (cf_Profiler conf) then [StartProfiler (pc_Address (cf_Profiler conf))] else []) @ acts', r))
           | Fail e \<Rightarrow> (acts, Fail e)
           | Panic \<Rightarrow> (acts, Panic)
           | Hang \<Rightarrow> (acts, Hang))
      | (_, Fail e) \<Rightarrow> ([Fatal e], Fail e)
      | (_, Panic) \<Rightarrow> ([], Panic)
      | (_, Hang) \<Rightarrow> ([], Hang))"

definition slave_main ::
  "bool \<Rightarrow> bool \<Rightarrow> bool \<times> bool \<Rightarrow> config \<Rightarrow> world \<Rightarrow> int \<Rightarrow> fault list \<Rightarrow> action list \<times> unit res" where
  "slave_main early1 early2 up conf w now faults =
     (case InitDB early1 early2 conf w now faults of
        (_, Ok (db, repl)) \<Rightarrow>
          (let acts = (case repl of Some r \<Rightarrow> replication_Start r | None \<Rightarrow> []) @ [StartWal] in
           case transport_NewListener (cf_Transport conf) of
             Ok ls \<Rightarrow> (case shutdown up ls repl of (acts', r) \<Rightarrow> (acts @ [StartListener ls] @ acts', r))
           | Fail e \<Rightarrow> (acts, Fail e)
           | Panic \<Rightarrow> (acts, Panic)
           | Hang \<Rightarrow> (acts, Hang))
      | (_, Fail e) \<Rightarrow> ([Fatal e], Fail e)
      | (_, Panic) \<Rightarrow> ([], Panic)
      | (_, Hang) \<Rightarrow> ([], Hang))"

text \<open>Both programs begin with their configuration, whose path is fixed, and the logger.\<close>

definition configured ::
  "(byte list \<Rightarrow> config res) \<Rightarrow> (zap_conf \<Rightarrow> 'l res) \<Rightarrow> string \<Rightarrow> (config \<Rightarrow> world \<Rightarrow> action list \<times> unit res) \<Rightarrow>
   world \<Rightarrow> action list \<times> unit res" where
  "configured yaml_Unmarshal build path prog w =
     (case NewConfig yaml_Unmarshal path w of
        (w1, Ok conf) \<Rightarrow>
          (case logger_New build (cf_Logger conf) of
             Ok _ \<Rightarrow> prog conf w1
           | Fail e \<Rightarrow> ([], Fail e)
           | Panic \<Rightarrow> ([], Panic)
           | Hang \<Rightarrow> ([], Hang))
      | (_, Fail e) \<Rightarrow> ([Fatal e], Fail e)
      | (_, Panic) \<Rightarrow> ([], Panic)
      | (_, Hang) \<Rightarrow> ([], Hang))"

definition main_process ::
  "(byte list \<Rightarrow> config res) \<Rightarrow> (zap_conf \<Rightarrow> 'l res) \<Rightarrow> bool \<Rightarrow> bool \<Rightarrow> bool \<times> bool \<Rightarrow> world \<Rightarrow> int \<Rightarrow> fault list \<Rightarrow>
   action list \<times> unit res" where
  "main_process yaml build early1 early2 up w now faults =
     configured yaml build ''config.yaml'' (\<lambda>conf w1. main_program early1 early2 up conf w1 now faults) w"

definition slave_process ::
  "(byte list \<Rightarrow> config res) \<Rightarrow> (zap_conf \<Rightarrow> 'l res) \<Rightarrow> bool \<Rightarrow> bool \<Rightarrow> bool \<times> bool \<Rightarrow> world \<Rightarrow> int \<Rightarrow> fault list \<Rightarrow>
   action list \<times> unit res" where
  "slave_process yaml build early1 early2 up w now faults =
     configured yaml build ''/Users/nick/goSelfEducation/laguna/slave_instance/config.yaml''
       (\<lambda>conf w1. slave_main early1 early2 up conf w1 now faults) w"

section \<open>The command line client\<close>

text \<open>
  \<^verbatim>\<open>readLine\<close> on a connection makes a buffered reader for the one line; on the buffered standard
  input \<^verbatim>\<open>bufio.NewReader\<close> returns that.
\<close>

definition readLine :: "bufr \<Rightarrow> bufr \<times> byte list res" where
  "readLine b =
     (case ReadBytes newline b of
        (b', Ok (line, None)) \<Rightarrow> (b', Ok line)
      | (b', Ok (line, Some e)) \<Rightarrow> (b', Fail e)
      | (b', Fail e) \<Rightarrow> (b', Fail e)
      | (b', Panic) \<Rightarrow> (b', Panic)
      | (b', Hang) \<Rightarrow> (b', Hang))"

definition client_write :: "byte list \<Rightarrow> bufw \<Rightarrow> bufw \<times> unit res" where
  "client_write p w =
     (case bufio_Write p w of
        (w1, Ok _) \<Rightarrow> Flush w1
      | (w1, r) \<Rightarrow> (w1, r))"

definition client_writeError :: "goerr \<Rightarrow> bufw \<Rightarrow> bufw" where
  "client_writeError e w =
     (case bufio_Write (bytes_of_string (error_text e)) w of
        (w1, Ok _) \<Rightarrow> fst (Flush w1)
      | (w1, _) \<Rightarrow> w1)"

text \<open>
  One round of the loop of the client: the prompt, a line of the user, the request, the line of
  the answer. \<open>False\<close> ends the loop: the error of the write was \<^verbatim>\<open>EPIPE\<close>.
\<close>

record session =
  se_in :: bufr
  se_out :: bufw
  se_cl :: client

definition EPIPE :: goerr where "EPIPE = NetErr ''broken pipe''"

definition say_error :: "goerr \<Rightarrow> session \<Rightarrow> session" where
  "say_error e s = s\<lparr>se_out := client_writeError e (se_out s)\<rparr>"

definition client_round ::
  "(byte list \<Rightarrow> byte list list) \<Rightarrow> (nat \<Rightarrow> goerr option) \<Rightarrow> context_t \<Rightarrow> session \<Rightarrow> (session \<times> bool) res" where
  "client_round peer wait ctx s0 =
     (let s = s0\<lparr>se_out := fst (client_write (bytes_of_string ''> '') (se_out s0))\<rparr> in
      case readLine (se_in s) of
        (b, Ok line) \<Rightarrow>
          (let s1 = s\<lparr>se_in := b\<rparr> in
           case Send peer wait ctx line (se_cl s1) of
             (cl, Ok resp) \<Rightarrow>
               (case readLine (NewReader resp) of
                  (br, Ok l) \<Rightarrow>
                    (let s2 = s1\<lparr>se_cl := after_read (br_src br) cl\<rparr> in
                     case client_write l (se_out s2) of
                       (w, Fail e) \<Rightarrow> Ok (say_error e (s2\<lparr>se_out := w\<rparr>), True)
                     | (w, Ok _) \<Rightarrow> Ok (s2\<lparr>se_out := w\<rparr>, True)
                     | (w, Panic) \<Rightarrow> Panic
                     | (w, Hang) \<Rightarrow> Hang)
                | (br, Fail e) \<Rightarrow> Ok (say_error e (s1\<lparr>se_cl := after_read (br_src br) cl\<rparr>), True)
                | (br, Panic) \<Rightarrow> Panic
                | (br, Hang) \<Rightarrow> Hang)
           | (cl, Fail e) \<Rightarrow>
               if errors_Is e EPIPE then Ok (s1\<lparr>se_cl := cl\<rparr>, False) else Ok (say_error e (s1\<lparr>se_cl := cl\<rparr>), True)
           | (cl, Panic) \<Rightarrow> Panic
           | (cl, Hang) \<Rightarrow> Hang)
      | (b, Fail e) \<Rightarrow> Ok (say_error e (s\<lparr>se_in := b\<rparr>), True)
      | (b, Panic) \<Rightarrow> Panic
      | (b, Hang) \<Rightarrow> Hang)"

text \<open>
  The loop, with the context as it is in each round; \<open>Hang\<close> when it is still running after these
  rounds. \<^verbatim>\<open>main\<close> builds the configuration of the connection from its flags, panics when it cannot
  connect, and runs the loop.
\<close>

fun client_loop ::
  "(byte list \<Rightarrow> byte list list) \<Rightarrow> (nat \<Rightarrow> goerr option) \<Rightarrow> context_t list \<Rightarrow> session \<Rightarrow> session \<times> unit res" where
  "client_loop peer wait [] s = (s, Hang)"
| "client_loop peer wait (ctx # ctxs) s =
     (case client_round peer wait ctx s of
        Ok (s', True) \<Rightarrow> client_loop peer wait ctxs s'
      | Ok (s', False) \<Rightarrow> (s', Ok ())
      | Fail e \<Rightarrow> (s, Fail e)
      | Panic \<Rightarrow> (s, Panic)
      | Hang \<Rightarrow> (s, Hang))"

definition client_main ::
  "(byte list \<Rightarrow> byte list list) \<Rightarrow> (nat \<Rightarrow> goerr option) \<Rightarrow> string \<Rightarrow> int \<Rightarrow> int \<Rightarrow> context_t list \<Rightarrow> reads \<Rightarrow> sink \<Rightarrow>
   int \<Rightarrow> fault list \<Rightarrow> (session \<times> unit res) option" where
  "client_main peer wait address maxSize idleTimeout ctxs stdin stdout now faults =
     (case NewClient \<lparr>cc_Address = address, cc_MaxRespSize = maxSize, cc_Deadline = idleTimeout, cc_RetryCount = 0\<rparr> now faults of
        (cl, Ok _) \<Rightarrow> Some (client_loop peer wait ctxs \<lparr>se_in = NewReader stdin, se_out = NewWriter stdout, se_cl = cl\<rparr>)
      | _ \<Rightarrow> None)"

section \<open>The loop of the client\<close>

lemma client_write_ok:
  assumes "bufw_ok w"
  shows "\<exists>w'. client_write p w = (w', Ok ()) \<and> bufw_ok w' \<and> written w' = written w @ p"
proof -
  obtain w1 where "bufio_Write p w = (w1, Ok ())" "bufw_ok w1" "written w1 = written w @ p" using bufio_Write_ok [OF assms] by blast
  then show ?thesis using Flush_ok [of w1] by (auto simp: client_write_def)
qed

lemma client_writeError_write: "client_writeError e w = fst (client_write (bytes_of_string (error_text e)) w)"
  by (auto simp: client_writeError_def client_write_def split: prod.splits res.splits)

text \<open>A round in which the line of the user is answered: the prompt and the answer are printed.\<close>

lemma client_round_answered:
  assumes b: "readLine (se_in s) = (b, Ok line)" and sent: "Send peer wait ctx line (se_cl s) = (cl, Ok resp)"
    and ans: "readLine (NewReader resp) = (br, Ok l)" and w: "bufw_ok (se_out s)"
  shows "\<exists>s'. client_round peer wait ctx s = Ok (s', True) \<and> se_in s' = b \<and> se_cl s' = after_read (br_src br) cl \<and>
    bufw_ok (se_out s') \<and> written (se_out s') = written (se_out s) @ bytes_of_string ''> '' @ l"
proof -
  obtain w1 where w1: "client_write (bytes_of_string ''> '') (se_out s) = (w1, Ok ())" "bufw_ok w1"
    "written w1 = written (se_out s) @ bytes_of_string ''> ''" using client_write_ok [OF w] by blast
  obtain w2 where "client_write l w1 = (w2, Ok ())" "bufw_ok w2" "written w2 = written w1 @ l" using client_write_ok [OF w1(2)] by blast
  with w1 b sent ans show ?thesis by (simp add: client_round_def Let_def)
qed

text \<open>
  The end of the standard input does not end the client: every round prints the prompt and the text
  of \<^verbatim>\<open>io.EOF\<close>, for ever.
\<close>

lemma client_spins_at_EOF:
  "se_in s = NewReader (replicate (length ctxs) ([], Some EOF)) \<Longrightarrow> bufw_ok (se_out s) \<Longrightarrow>
   \<exists>s'. client_loop peer wait ctxs s = (s', Hang) \<and> se_cl s' = se_cl s \<and>
     written (se_out s') = written (se_out s) @ concat (replicate (length ctxs) (bytes_of_string ''> EOF''))"
proof (induction ctxs arbitrary: s)
  case (Cons ctx ctxs)
  let ?r = "replicate (length ctxs) ([], Some EOF)"
  obtain w1 where w1: "client_write (bytes_of_string ''> '') (se_out s) = (w1, Ok ())" "bufw_ok w1"
    "written w1 = written (se_out s) @ bytes_of_string ''> ''" using client_write_ok [OF Cons.prems(2)] by blast
  obtain w2 where w2: "client_write (bytes_of_string ''EOF'') w1 = (w2, Ok ())" "bufw_ok w2" "written w2 = written w1 @ bytes_of_string ''EOF''"
    using client_write_ok [OF w1(2)] by blast
  have "conn_like (replicate n ([], Some EOF))" for n by (induction n) simp_all
  then have "readLine (se_in s) = (NewReader ?r, Fail EOF)"
    using ReadBytes_end [of "NewReader (([], Some EOF) # ?r)" newline EOF ?r] Cons.prems(1)
    by (simp add: readLine_def)
  with w1 w2 have r: "client_round peer wait ctx s = Ok (s\<lparr>se_in := NewReader ?r, se_out := w2\<rparr>, True)"
    by (simp add: client_round_def Let_def say_error_def client_writeError_write)
  obtain s' where s': "client_loop peer wait ctxs (s\<lparr>se_in := NewReader ?r, se_out := w2\<rparr>) = (s', Hang)" "se_cl s' = se_cl s"
    "written (se_out s') = written w2 @ concat (replicate (length ctxs) (bytes_of_string ''> EOF''))"
    using Cons.IH [of "s\<lparr>se_in := NewReader ?r, se_out := w2\<rparr>"] w2(2) by auto
  have "written w2 = written (se_out s) @ bytes_of_string ''> EOF''" using w1(3) w2(3) by (simp add: bytes_of_string_def)
  with s' r show ?case by simp
qed simp

section \<open>The end of the programs\<close>

lemma shutdown_alone: "\<exists>acts. shutdown up ls None = (acts, Panic) \<and> SyncLogger \<notin> set acts"
  by (auto simp: shutdown_def listener_Close_def split: listener.splits)

text \<open>
  The regular end needs both listeners to be listening: a signal that comes before that hits the
  nil listener.
\<close>

lemma shutdown_up: "shutdown (True, True) ls (Some r) = ([CloseListener, CloseReplication, SyncLogger], Ok ())"
  by (auto simp: shutdown_def Close_defs split: listener.splits replication.splits option.splits)

lemma shutdown_before_listen: "shutdown (False, b) (TCP l) repl = ([], Panic)"
  by (simp add: shutdown_def listener_Close_def)

lemma initMaster_close: "initMaster conf = Ok r \<Longrightarrow> replication_Close False r = Panic"
  by (cases "NewListener (rc_Server (cf_Replication conf))")
    (auto simp: initMaster_def Let_def NewMaster_def setTransport_def Close_defs)

section \<open>A refused connection\<close>

text \<open>
  A connection that gets no place is sent a text without a line end and closed. The client of the
  repository reads a line, so its user sees \<^verbatim>\<open>EOF\<close> and not the text.
\<close>

lemma refused_client_sees_EOF:
  assumes "readLine (se_in s) = (b, Ok line)" and "Send peer wait ctx line (se_cl s) = (cl, Ok resp)"
    and resp: "resp = [(sk_out (fst (refuse_conn \<lparr>sk_out = [], sk_faults = []\<rparr>)), None), ([], Some EOF)]"
    and w: "bufw_ok (se_out s)"
  shows "\<exists>s'. client_round peer wait ctx s = Ok (s', True) \<and> written (se_out s') = written (se_out s) @ bytes_of_string ''> EOF''"
proof -
  have msg: "resp = [(bytes_of_string tooManyConnections, None), ([], Some EOF)]"
    using resp by (simp add: refuse_conn_def writeToConn_def closeConn_def conn_Write_def)
  have "newline \<notin> set (bytes_of_string tooManyConnections)" "bytes_of_string tooManyConnections \<noteq> []"
    by (simp_all add: newline_def bytes_of_string_def byte_of_char_def tooManyConnections_def)
  then have "readLine (NewReader resp) = (NewReader [], Fail EOF)"
    using ReadBytes_end [of "NewReader resp" newline EOF "[]"] by (simp add: readLine_def msg)
  moreover obtain w1 where w1: "client_write (bytes_of_string ''> '') (se_out s) = (w1, Ok ())" "bufw_ok w1"
    "written w1 = written (se_out s) @ bytes_of_string ''> ''" using client_write_ok [OF w] by blast
  moreover obtain w2 where "client_write (bytes_of_string ''EOF'') w1 = (w2, Ok ())" "written w2 = written w1 @ bytes_of_string ''EOF''"
    using client_write_ok [OF w1(2)] by blast
  ultimately show ?thesis using assms(1,2)
    by (simp add: client_round_def Let_def say_error_def client_writeError_write) (simp add: bytes_of_string_def)
qed

section \<open>A configuration without a directory\<close>

text \<open>
  The default directory is filled in by \<^verbatim>\<open>NewWAL\<close> only, after the segment manager has been built from
  the raw configuration: without a directory both programs end at the start, even with the log
  switched off.
\<close>

lemma ReadDir_no_directory:
  assumes "[] \<notin> set (w_dirs w)"
  shows "\<exists>w' e. ReadDir [] w = (w', Fail e)"
proof -
  obtain w1 x where f: "take_fault w = (w1, x)" by (cases "take_fault w") simp
  have "w_dirs w1 = w_dirs w" using take_fault_files [OF f] by blast
  with assms f obtain e where "os_ReadDir [] w = (w1, Fail e)"
    by (cases x) (auto simp: os_ReadDir_def simp del: take_fault_files)
  moreover obtain w2 e2 where "os_MkdirAll [] w1 = (w2, Fail e2)"
    by (cases "take_fault w1"; cases "snd (take_fault w1)") (auto simp: os_MkdirAll_def simp del: take_fault_files)
  ultimately show ?thesis by (simp add: ReadDir_def)
qed

lemma initSegmentManager_no_directory:
  assumes "c_Directory c = []" and "[] \<notin> set (w_dirs w)"
  shows "\<exists>w' e. initSegmentManager c w = (w', Fail e)"
  using ReadDir_no_directory [OF assms(2)] assms(1)
  by (auto simp: initSegmentManager_def NewFileSegment_def initFileSegment_def)

lemma main_without_directory:
  assumes "c_Directory (cf_WAL conf) = []" and "[] \<notin> set (w_dirs w)"
  shows "\<exists>e. main_program early1 early2 up conf w now faults = ([Fatal e], Fail e) \<and>
    slave_main early1 early2 up conf w now faults = ([Fatal e], Fail e)"
  using initSegmentManager_no_directory [OF assms]
  by (auto simp: main_program_def slave_main_def InitDB_def InitDB_core_def)

section \<open>The role of an instance\<close>

lemma restoreFromWal_role: "db_isMaster (fst (restoreFromWal early1 early2 db)) = db_isMaster db"
  by (auto simp: restoreFromWal_def Let_def split: prod.splits res.splits)

lemma InitDB_core_role:
  assumes "InitDB_core early1 early2 engType n c isMaster w = (w', Ok db)"
  shows "db_isMaster db = isMaster"
proof -
  obtain st walObj sm w1 where "NewDatabase early1 early2 st isMaster walObj (sm, w1) = (db, Ok ())"
    using assms by (auto simp: InitDB_core_def split: prod.splits res.splits)
  then show ?thesis
    using restoreFromWal_role [of early1 early2 "\<lparr>db_st = st, db_wal = walObj, db_futs = [], db_out = (sm, w1), db_isMaster = isMaster\<rparr>"]
    by (simp add: NewDatabase_def)
qed

lemma setInWal_role: "db_isMaster (fst (setInWal ctx wt env q db)) = db_isMaster db"
  by (auto simp: setInWal_def split: prod.splits res.splits option.splits)

lemma Execute_not_master:
  assumes "\<not> db_isMaster db" and "q_methodID q \<noteq> GetMethodID"
  shows "snd (Execute ctx wt env q db) \<noteq> Ok v"
  using assms setInWal_role [of ctx wt env q db]
  by (cases "setInWal ctx wt env q db") (auto simp: Execute_def split: res.splits)

section \<open>Properties\<close>

text \<open>
  C39. An instance without replication: \<^verbatim>\<open>InitReplication\<close> returns a nil interface, on which both
  programs call \<^verbatim>\<open>Close\<close> without a check when they are told to stop, so they always end in a panic
  before the logger is synced; and since the role is taken from the replication section all the
  same, an instance that does not set \<^verbatim>\<open>is_master\<close> there never accepts a write.
\<close>

theorem standalone_instance:
  assumes "\<not> rc_Enable (cf_Replication conf)" and "InitDB early1 early2 conf w now faults = (w', Ok (db, repl))"
    and "transport_NewListener (cf_Transport conf) = Ok ls"
  shows "repl = None \<and> snd (main_program early1 early2 up conf w now faults) = Panic \<and>
    SyncLogger \<notin> set (fst (main_program early1 early2 up conf w now faults)) \<and>
    snd (slave_main early1 early2 up conf w now faults) = Panic \<and>
    (\<not> rc_IsMaster (cf_Replication conf) \<and> q_methodID q \<noteq> GetMethodID \<longrightarrow> snd (Execute ctx wt env q db) \<noteq> Ok v)"
proof -
  obtain db' where core: "InitDB_core early1 early2 (ec_Type (cf_Engine conf)) (ec_Shards (cf_Engine conf)) (cf_WAL conf)
      (rc_IsMaster (cf_Replication conf)) w = (w', Ok db')" and "db' = db" "repl = None"
    using assms(1,2) by (auto simp: InitDB_def InitReplication_def split: prod.splits res.splits)
  moreover obtain acts where "shutdown up ls None = (acts, Panic)" "SyncLogger \<notin> set acts" using shutdown_alone by blast
  ultimately show ?thesis
    using Execute_not_master [of db q ctx wt env v] InitDB_core_role [OF core] assms
    by (auto simp: main_program_def slave_main_def)
qed

definition demo_conf :: config where
  "demo_conf =
     \<lparr>cf_Engine = \<lparr>ec_Type = ''inmemory'', ec_Shards = 100\<rparr>,
      cf_Logger = \<lparr>lc_Level = ''info'', lc_Out = ''stdout'', lc_DisableStacktrace = True\<rparr>,
      cf_Transport = \<lparr>tc_Type = ''cli'', tc_Sever = \<lparr>ts_Address = [], ts_MaxConn = 0, ts_MaxMessageSize = 0, ts_IdleTimeout = 0,
        ts_SemWaitTimeout = 0\<rparr>\<rparr>,
      cf_WAL = demo_config,
      cf_Replication = \<lparr>rc_Enable = False, rc_IsMaster = False, rc_SyncInterval = 0,
        rc_Client = \<lparr>cc_Address = [], cc_MaxRespSize = 0, cc_Deadline = 0, cc_RetryCount = 0\<rparr>,
        rc_Server = \<lparr>ts_Address = [], ts_MaxConn = 0, ts_MaxMessageSize = 0, ts_IdleTimeout = 0, ts_SemWaitTimeout = 0\<rparr>\<rparr>,
      cf_Profiler = \<lparr>pc_Enable = False, pc_Address = []\<rparr>\<rparr>"

theorem standalone_instance_witness:
  "\<exists>w db. InitDB True True demo_conf demo_log_world 0 [] = (w, Ok (db, None)) \<and>
     snd (main_program True True (True, True) demo_conf demo_log_world 0 []) = Panic \<and>
     snd (Execute Background live_wait (worker_turn wal_writer) (NewQuery SetMethodID [''k'', ''v'']) db) \<noteq> Ok ''OK''"
proof -
  obtain w db where "InitDB_core True True ''inmemory'' 100 demo_config False demo_log_world = (w, Ok db)"
    using demo_database by blast
  then have init: "InitDB True True demo_conf demo_log_world 0 [] = (w, Ok (db, None))"
    by (simp add: InitDB_def demo_conf_def InitReplication_def)
  have "\<not> rc_Enable (cf_Replication demo_conf)" "\<not> rc_IsMaster (cf_Replication demo_conf)"
    "transport_NewListener (cf_Transport demo_conf) = Ok CLI"
    by (simp_all add: demo_conf_def transport_NewListener_def)
  from standalone_instance [OF this(1) init this(3), of "(True, True)" "NewQuery SetMethodID [''k'', ''v'']" Background live_wait
      "worker_turn wal_writer" "''OK''"] init this(2) show ?thesis
    by (auto simp: NewQuery_def method_ids)
qed

end
