(* ===== verification/Byte_Size.thy ===== *)
theory Byte_Size
  imports Query Segment
begin

text \<open>
  \<^verbatim>\<open>utils/data_type/size.go\<close>: sizes in the configuration, a number with one of the suffixes
  \<^verbatim>\<open>GB\<close>, \<^verbatim>\<open>MB\<close>, \<^verbatim>\<open>KB\<close>, \<^verbatim>\<open>B\<close>, or a plain integer. The floating point numbers are parameters:
  \<open>parseFloat\<close> is \<^verbatim>\<open>strconv.ParseFloat(s, 64)\<close>, \<open>scaled f m\<close> is \<^verbatim>\<open>ByteSize(value * float64(m))\<close>.
\<close>

definition multiplier :: "string \<Rightarrow> int" where
  "multiplier sfx =
     (if sfx = ''B'' then 1
      else if sfx = ''KB'' then 1024
      else if sfx = ''MB'' then 1024 * 1024
      else if sfx = ''GB'' then 1024 * 1024 * 1024
      else 0)"

definition size_suffixes :: "string list" where
  "size_suffixes = [''GB'', ''MB'', ''KB'', ''B'']"

text \<open>
  \<^verbatim>\<open>strings.ToUpper\<close> on the letters of ASCII; no other letter has an upper case among the letters of
  the suffixes.
\<close>

definition upper_char :: "char \<Rightarrow> char" where
  "upper_char c = (if 97 \<le> (of_char c :: nat) \<and> (of_char c :: nat) \<le> 122 then char_of ((of_char c :: nat) - 32) else c)"

definition ToUpper :: "string \<Rightarrow> string" where
  "ToUpper s = map upper_char s"

text \<open>\<^verbatim>\<open>strconv.ParseInt(s, 10, 64)\<close>: a sign, digits, and the range of 64 bits.\<close>

definition is_digit :: "char \<Rightarrow> bool" where
  "is_digit c \<longleftrightarrow> 48 \<le> (of_char c :: nat) \<and> (of_char c :: nat) \<le> 57"

definition digits_value :: "string \<Rightarrow> int" where
  "digits_value s = foldl (\<lambda>n c. 10 * n + (int (of_char c) - 48)) 0 s"

definition parse_digits :: "string \<Rightarrow> int option" where
  "parse_digits s = (if s \<noteq> [] \<and> list_all is_digit s then Some (digits_value s) else None)"

definition ParseInt :: "string \<Rightarrow> int res" where
  "ParseInt s =
     (case (case s of
              [] \<Rightarrow> None
            | c # r \<Rightarrow>
                if c = CHR ''-'' then map_option uminus (parse_digits r)
                else if c = CHR ''+'' then parse_digits r
                else parse_digits s) of
        None \<Rightarrow> Fail (IOErr ''invalid syntax'')
      | Some n \<Rightarrow> if - (2 ^ 63) \<le> n \<and> n < 2 ^ 63 then Ok n else Fail (IOErr ''value out of range''))"

definition HasSuffix :: "string \<Rightarrow> string \<Rightarrow> bool" where
  "HasSuffix s sfx \<longleftrightarrow> length sfx \<le> length s \<and> drop (length s - length sfx) s = sfx"

definition TrimSuffix :: "string \<Rightarrow> string \<Rightarrow> string" where
  "TrimSuffix s sfx = (if HasSuffix s sfx then take (length s - length sfx) s else s)"

text \<open>\<^verbatim>\<open>%q\<close> for a text without characters to escape.\<close>

definition quoted :: "string \<Rightarrow> string" where
  "quoted s = [CHR 0x22] @ s @ [CHR 0x22]"

fun suffix_loop ::
  "(string \<Rightarrow> 'f res) \<Rightarrow> ('f \<Rightarrow> int \<Rightarrow> int) \<Rightarrow> string list \<Rightarrow> string \<Rightarrow> int option res" where
  "suffix_loop parseFloat scaled [] str = Ok None"
| "suffix_loop parseFloat scaled (sfx # sfxs) str =
     (if HasSuffix str sfx then
        (case parseFloat (trim_space (TrimSuffix str sfx)) of
           Ok value \<Rightarrow> Ok (Some (scaled value (multiplier sfx)))
         | Fail e \<Rightarrow> Fail (Wrap (''invalid size value '' @ quoted str @ '': '') e)
         | Panic \<Rightarrow> Panic
         | Hang \<Rightarrow> Hang)
      else suffix_loop parseFloat scaled sfxs str)"

definition UnmarshalText :: "(string \<Rightarrow> 'f res) \<Rightarrow> ('f \<Rightarrow> int \<Rightarrow> int) \<Rightarrow> string \<Rightarrow> int res" where
  "UnmarshalText parseFloat scaled text =
     (let str = trim_space text in
      if str = [] then Ok 0
      else
        (let str = ToUpper str in
         case suffix_loop parseFloat scaled size_suffixes str of
           Ok (Some n) \<Rightarrow> Ok n
         | Ok None \<Rightarrow>
             (case ParseInt str of
                Fail e \<Rightarrow> Fail (Wrap (''invalid size '' @ quoted str @ '': '') e)
              | r \<Rightarrow> r)
         | Fail e \<Rightarrow> Fail e
         | Panic \<Rightarrow> Panic
         | Hang \<Rightarrow> Hang))"

section \<open>Lemmas\<close>

lemma digits_value_snoc: "digits_value (s @ [c]) = 10 * digits_value s + (int (of_char c) - 48)"
  by (simp add: digits_value_def)

lemma digit_facts: "d < 10 \<Longrightarrow> is_digit (digit d) \<and> int (of_char (digit d)) - 48 = int d"
  by (simp add: is_digit_def digit_def)

lemma parse_decimal: "decimal n \<noteq> [] \<and> list_all is_digit (decimal n) \<and> digits_value (decimal n) = int n"
proof (induction n rule: decimal.induct)
  case (1 n)
  show ?case
  proof (cases "n < 10")
    case True
    then show ?thesis using digit_facts [OF True] by (simp add: decimal.simps digits_value_def)
  next
    case False
    have m: "n mod 10 < 10" by simp
    have "int n = 10 * int (n div 10) + int (n mod 10)"
      by (metis mult.commute of_nat_add of_nat_mult of_nat_numeral div_mult_mod_eq)
    then show ?thesis using 1 [OF False] False digit_facts [OF m]
      by (simp add: decimal.simps [of n] digits_value_snoc)
  qed
qed

lemma ParseInt_digits:
  assumes "s \<noteq> []" and "list_all is_digit s"
  shows "ParseInt s = (if digits_value s < 2 ^ 63 then Ok (digits_value s) else Fail (IOErr ''value out of range''))"
proof -
  obtain c r where s: "s = c # r" using assms(1) by (cases s) auto
  then have "is_digit c" using assms(2) by simp
  then have "c \<noteq> CHR ''-''" "c \<noteq> CHR ''+''" by (auto simp: is_digit_def)
  have "0 \<le> digits_value s"
  proof -
    have "list_all is_digit s \<Longrightarrow> 0 \<le> n \<Longrightarrow> 0 \<le> foldl (\<lambda>n c. 10 * n + (int (of_char c) - 48)) n s" for n
      by (induction s arbitrary: n) (auto simp: is_digit_def)
    then show ?thesis using assms(2) by (simp add: digits_value_def)
  qed
  with \<open>c \<noteq> CHR ''-''\<close> \<open>c \<noteq> CHR ''+''\<close> show ?thesis
    using assms by (simp add: ParseInt_def parse_digits_def s)
qed


lemma ToUpper_digits: "list_all is_digit s \<Longrightarrow> ToUpper s = s"
  by (induction s) (auto simp: ToUpper_def upper_char_def is_digit_def)

lemma digits_no_suffix:
  assumes "s \<noteq> []" and "list_all is_digit s"
  shows "suffix_loop parseFloat scaled size_suffixes s = Ok None"
proof -
  have "is_digit (last s)" using assms by (simp add: list_all_iff)
  then have no: "last s \<noteq> CHR ''B''" by (auto simp: is_digit_def)
  have "\<not> HasSuffix s x" if "x \<in> set size_suffixes" for x
  proof
    assume "HasSuffix s x"
    then have "s = take (length s - length x) s @ x" by (metis HasSuffix_def append_take_drop_id)
    then have "last s = last x" using that by (metis last_appendR list.distinct(1) size_suffixes_def list.set_cases set_ConsD empty_iff empty_set)
    then show False using that no by (auto simp: size_suffixes_def)
  qed
  then show ?thesis by (simp add: size_suffixes_def)
qed

text \<open>A plain number is taken as it is, or refused when it does not fit 64 bits.\<close>

lemma UnmarshalText_plain:
  assumes "trim_space (decimal n) = decimal n"
  shows "UnmarshalText parseFloat scaled (decimal n) =
    (if int n < 2 ^ 63 then Ok (int n)
     else Fail (Wrap (''invalid size '' @ quoted (decimal n) @ '': '') (IOErr ''value out of range'')))"
  using parse_decimal [of n] assms
  by (simp add: UnmarshalText_def ToUpper_digits digits_no_suffix ParseInt_digits Let_def)

end
