(* ===== verification/Concurrent_Calls.thy ===== *)
theory Concurrent_Calls
  imports Database
begin

text \<open>
  Many calls of \<^verbatim>\<open>Execute\<close> (\<^verbatim>\<open>internal/database/database.go\<close>) at once, on the shared log and the shared
  storage, with the worker of the log. A call is split where other goroutines can come between:
  after each step of \<^verbatim>\<open>wal.Write\<close>, at the wait for its future, and before the operation on the
  storage, which is atomic under the lock of its shard.
\<close>

section \<open>Calls as a step relation\<close>

text \<open>
  \<open>Logging q i\<close>: in \<^verbatim>\<open>setInWal\<close>, as the writer \<open>i\<close> of the log. \<open>Logged q oi\<close>: after \<^verbatim>\<open>setInWal\<close>, or past
  it when the query is a read or the log is disabled. \<open>Answered\<close> and \<open>Refused\<close> are the two returns.
\<close>

datatype call =
    Logging query nat
  | Logged query "nat option"
  | Answered query "nat option" "string res"
  | Refused query goerr

text \<open>\<open>ds_hist\<close> records the operations on the storage, in their order, with what they returned.\<close>

record 's dbsys =
  ds_ws :: "'s walsys"
  ds_st :: storage
  ds_isMaster :: bool
  ds_calls :: "call list"
  ds_hist :: "(query \<times> string res) list"

text \<open>
  The queries are any that the parser makes, also such whose arguments do not fit the format of the log.
  A writer begins only as a part of a call.
\<close>

definition no_begin :: "query \<Rightarrow> bool" where
  "no_begin q = False"

inductive dstep :: "'s target \<Rightarrow> 's dbsys \<Rightarrow> 's dbsys \<Rightarrow> bool" for wr :: "'s target" where
  call_unlogged: "valid_query q \<Longrightarrow> q_methodID q = GetMethodID \<or> \<not> IsEnable (ws_wal (ds_ws s)) \<Longrightarrow>
     dstep wr s (s\<lparr>ds_calls := ds_calls s @ [Logged q None]\<rparr>)"
| call_logged: "valid_query q \<Longrightarrow> q_methodID q \<noteq> GetMethodID \<Longrightarrow> IsEnable (ws_wal (ds_ws s)) \<Longrightarrow>
     Write_begin ctx q (ws_wal (ds_ws s)) (ws_futs (ds_ws s)) = (w', futs', Ok (Some (r, fr))) \<Longrightarrow>
     dstep wr s (s\<lparr>ds_ws := (ds_ws s)\<lparr>ws_wal := w', ws_futs := futs', ws_clients := ws_clients (ds_ws s) @ [Sending r fr]\<rparr>,
       ds_calls := ds_calls s @ [Logging q (length (ws_clients (ds_ws s)))]\<rparr>)"
| call_dead: "valid_query q \<Longrightarrow> q_methodID q \<noteq> GetMethodID \<Longrightarrow> IsEnable (ws_wal (ds_ws s)) \<Longrightarrow>
     Write_begin ctx q (ws_wal (ds_ws s)) (ws_futs (ds_ws s)) = (w', futs', Fail e) \<Longrightarrow>
     dstep wr s (s\<lparr>ds_ws := (ds_ws s)\<lparr>ws_wal := w', ws_futs := futs'\<rparr>, ds_calls := ds_calls s @ [Refused q e]\<rparr>)"
| log_step: "wstep no_begin wr (ds_ws s) ws' \<Longrightarrow> dstep wr s (s\<lparr>ds_ws := ws'\<rparr>)"
| log_ok: "i < length (ds_calls s) \<Longrightarrow> ds_calls s ! i = Logging q j \<Longrightarrow> ws_clients (ds_ws s) ! j = Acked r None \<Longrightarrow>
     dstep wr s (s\<lparr>ds_calls := (ds_calls s)[i := Logged q (Some j)]\<rparr>)"
| log_failed: "i < length (ds_calls s) \<Longrightarrow> ds_calls s ! i = Logging q j \<Longrightarrow> ws_clients (ds_ws s) ! j = Acked r (Some e) \<Longrightarrow>
     dstep wr s (s\<lparr>ds_calls := (ds_calls s)[i := Refused q e]\<rparr>)"
| log_timeout: "i < length (ds_calls s) \<Longrightarrow> ds_calls s ! i = Logging q j \<Longrightarrow> ws_clients (ds_ws s) ! j = TimedOut r \<Longrightarrow>
     e = CtxDeadlineExceeded \<or> e = CtxCanceled \<Longrightarrow>
     dstep wr s (s\<lparr>ds_calls := (ds_calls s)[i := Refused q e]\<rparr>)"
| not_master: "i < length (ds_calls s) \<Longrightarrow> ds_calls s ! i = Logged q oj \<Longrightarrow> \<not> ds_isMaster s \<Longrightarrow> q_methodID q \<noteq> GetMethodID \<Longrightarrow>
     dstep wr s (s\<lparr>ds_calls := (ds_calls s)[i := Refused q ErrNonReadOpSlave]\<rparr>)"
| execute: "i < length (ds_calls s) \<Longrightarrow> ds_calls s ! i = Logged q oj \<Longrightarrow> ds_isMaster s \<or> q_methodID q = GetMethodID \<Longrightarrow>
     ctx_err ctx = None \<Longrightarrow> exec ctx q (ds_st s) = (st', r) \<Longrightarrow>
     dstep wr s (s\<lparr>ds_st := st', ds_calls := (ds_calls s)[i := Answered q oj r], ds_hist := ds_hist s @ [(q, r)]\<rparr>)"
| execute_dead: "i < length (ds_calls s) \<Longrightarrow> ds_calls s ! i = Logged q oj \<Longrightarrow> ds_isMaster s \<or> q_methodID q = GetMethodID \<Longrightarrow>
     ctx_err ctx = Some e \<Longrightarrow> exec ctx q (ds_st s) = (st', Fail e') \<Longrightarrow>
     dstep wr s (s\<lparr>ds_st := st', ds_calls := (ds_calls s)[i := Refused q e']\<rparr>)"

definition db_start :: "wal \<Rightarrow> 's \<Rightarrow> storage \<Rightarrow> bool \<Rightarrow> 's dbsys" where
  "db_start w s st isMaster = \<lparr>ds_ws = wal_start w s, ds_st = st, ds_isMaster = isMaster, ds_calls = [], ds_hist = []\<rparr>"

section \<open>The storage and the answers\<close>

fun answer_of :: "call \<Rightarrow> (query \<times> string res) list" where
  "answer_of (Answered q oj r) = [(q, r)]"
| "answer_of _ = []"

fun call_query :: "call \<Rightarrow> query" where
  "call_query (Logging q i) = q"
| "call_query (Logged q oi) = q"
| "call_query (Answered q oi r) = q"
| "call_query (Refused q e) = q"

definition answers :: "call list \<Rightarrow> (query \<times> string res) list" where
  "answers cs = concat (map answer_of cs)"

text \<open>The operations on the storage are those of a map, one after the other.\<close>

definition hist_inv :: "(string \<rightharpoonup> string) \<Rightarrow> 's dbsys \<Rightarrow> bool" where
  "hist_inv m0 s \<longleftrightarrow> storage_inv (ds_st s) \<and> list_all (valid_query \<circ> call_query) (ds_calls s) \<and>
     kv_run (map fst (ds_hist s)) m0 = (storage_abs (ds_st s), map snd (ds_hist s)) \<and>
     mset (ds_hist s) = mset (answers (ds_calls s))"

lemma kv_run_append:
  "kv_run (qs @ ps) m = (case kv_run qs m of (m1, rs) \<Rightarrow> case kv_run ps m1 of (m2, rs') \<Rightarrow> (m2, rs @ rs'))"
  by (induction qs arbitrary: m) (auto split: prod.splits)

lemma mset_concat_update:
  "i < length xs \<Longrightarrow> mset (concat (map f (xs[i := y]))) + mset (f (xs ! i)) = mset (concat (map f xs)) + mset (f y)"
proof -
  assume i: "i < length xs"
  have "xs = take i xs @ xs ! i # drop (Suc i) xs" using i by (rule id_take_nth_drop)
  then have "mset (concat (map f xs)) = mset (concat (map f (take i xs @ xs ! i # drop (Suc i) xs)))" by metis
  then show ?thesis using i by (simp add: upd_conv_take_nth_drop)
qed

lemma answers_update:
  assumes "i < length cs" "answer_of (cs ! i) = []"
  shows "mset (answers (cs[i := c])) = mset (answers cs) + mset (answer_of c)"
  using mset_concat_update [OF assms(1), of answer_of c] assms(2) by (simp add: answers_def)

lemma exec_valid:
  assumes "valid_query q" "storage_inv st" "ctx_err ctx = None" "exec ctx q st = (st', r)"
  shows "storage_inv st' \<and> kv_run [q] (storage_abs st) = (storage_abs st', [r])"
  using valid_query_cases [OF assms(1)]
proof
  assume w: "write_query q"
  then show ?thesis using exec_write [OF w assms(2,3)] assms(4) write_not_get [OF w] by auto
next
  assume "q_methodID q = GetMethodID \<and> q_args q \<noteq> []"
  then show ?thesis using exec_get [of q st ctx] assms(2-4) by auto
qed

lemma exec_dead_valid:
  assumes "valid_query q" "ctx_err ctx = Some e"
  shows "exec ctx q st = (st, Fail e)"
  using valid_query_cases [OF assms(1)] exec_dead [OF assms(2)] st.sget_dead [OF assms(2)]
  by (auto simp: exec_def go_index_def arg_idx)

lemma hist_inv_query: "hist_inv m0 s \<Longrightarrow> i < length (ds_calls s) \<Longrightarrow> valid_query (call_query (ds_calls s ! i))"
  by (simp add: hist_inv_def list_all_length)

lemma hist_inv_update:
  assumes "hist_inv m0 s" "i < length (ds_calls s)" "answer_of (ds_calls s ! i) = []" "answer_of c = []"
    and "call_query c = call_query (ds_calls s ! i)"
  shows "hist_inv m0 (s\<lparr>ds_calls := (ds_calls s)[i := c]\<rparr>)"
  using assms hist_inv_query [OF assms(1,2)] answers_update [OF assms(2,3)]
  by (simp add: hist_inv_def list_all_update)

lemma hist_inv_step:
  assumes "dstep wr s s'" and "hist_inv m0 s"
  shows "hist_inv m0 s'"
  using assms(1)
proof cases
  case (execute i q oj ctx st' r)
  then have q: "valid_query q" using hist_inv_query [OF assms(2)] by fastforce
  have "storage_inv st'" "kv_run [q] (storage_abs (ds_st s)) = (storage_abs st', [r])"
    using exec_valid [OF q _ execute(5,6)] assms(2) by (auto simp: hist_inv_def)
  then show ?thesis
    using assms(2) execute(1-3) q answers_update [of i "ds_calls s" "Answered q oj r"]
    by (simp add: hist_inv_def kv_run_append list_all_update)
next
  case (execute_dead i q oj ctx e st' e')
  then have q: "valid_query q" using hist_inv_query [OF assms(2)] by fastforce
  then have "st' = ds_st s" using exec_dead_valid [OF q execute_dead(5), of "ds_st s"] execute_dead(6) by simp
  then show ?thesis using hist_inv_update [OF assms(2) execute_dead(2), of "Refused q e'"] execute_dead(1,3) by simp
next
  case (log_ok i q j r)
  then show ?thesis using hist_inv_update [OF assms(2) log_ok(2), of "Logged q (Some j)"] by simp
next
  case (log_failed i q j r e)
  then show ?thesis using hist_inv_update [OF assms(2) log_failed(2), of "Refused q e"] by simp
next
  case (log_timeout i q j r e)
  then show ?thesis using hist_inv_update [OF assms(2) log_timeout(2), of "Refused q e"] by simp
next
  case (not_master i q oj)
  then show ?thesis using hist_inv_update [OF assms(2) not_master(2), of "Refused q ErrNonReadOpSlave"] by simp
qed (use assms(2) in \<open>simp_all add: hist_inv_def answers_def\<close>)

lemma hist_inv_reachable:
  assumes "(dstep wr)\<^sup>*\<^sup>* (db_start w s0 st isMaster) s" and "storage_inv st"
  shows "hist_inv (storage_abs st) s"
  using assms(1)
proof (induction rule: rtranclp_induct)
  case base
  show ?case using assms(2) by (simp add: hist_inv_def db_start_def answers_def)
qed (rule hist_inv_step)

section \<open>The rows of the calls\<close>

fun sent_row :: "client \<Rightarrow> row list" where
  "sent_row (Sending r f) = []"
| "sent_row (Registering r f) = [r]"
| "sent_row (Waiting r f) = [r]"
| "sent_row (Acked r v) = [r]"
| "sent_row (TimedOut r) = [r]"

fun client_row :: "client \<Rightarrow> row" where
  "client_row (Sending r f) = r"
| "client_row (Registering r f) = r"
| "client_row (Waiting r f) = r"
| "client_row (Acked r v) = r"
| "client_row (TimedOut r) = r"

text \<open>The rows sent are those of the writers that have got past their send.\<close>

definition sent_inv :: "'s walsys \<Rightarrow> bool" where
  "sent_inv st \<longleftrightarrow> mset (ws_sent st) = mset (concat (map sent_row (ws_clients st)))"

lemma sent_inv_update:
  assumes "sent_inv st" "i < length (ws_clients st)" "sent_row (ws_clients st ! i) = sent_row c"
  shows "mset (ws_sent st) = mset (concat (map sent_row ((ws_clients st)[i := c])))"
  using mset_concat_update [OF assms(2), of sent_row c] assms(1,3) by (simp add: sent_inv_def)

lemma sent_inv_step:
  assumes "wstep ok wr st st'" and "sent_inv st"
  shows "sent_inv st'"
  using assms(1)
proof cases
  case (send i r fr w')
  then show ?thesis using assms(2) mset_concat_update [of i "ws_clients st" sent_row "Registering r fr"] by (simp add: sent_inv_def)
next
  case (register i r fr)
  then show ?thesis using sent_inv_update [OF assms(2) register(2), of "Waiting r fr"] by (simp add: sent_inv_def)
next
  case (answer i r fr f' v)
  then show ?thesis using sent_inv_update [OF assms(2) answer(2), of "Acked r v"] by (simp add: sent_inv_def)
next
  case (deadline i r fr)
  then show ?thesis using sent_inv_update [OF assms(2) deadline(2), of "TimedOut r"] by (simp add: sent_inv_def)
qed (use assms(2) in \<open>simp_all add: sent_inv_def\<close>)

text \<open>Steps of the log keep the writers with their rows; one that got its answer stays.\<close>

definition writers_grow :: "client list \<Rightarrow> client list \<Rightarrow> bool" where
  "writers_grow cs cs' \<longleftrightarrow> length cs \<le> length cs' \<and>
     (\<forall>j<length cs. client_row (cs' ! j) = client_row (cs ! j) \<and> (\<forall>r v. cs ! j = Acked r v \<longrightarrow> cs' ! j = Acked r v))"

lemma writers_grow_refl [simp]: "writers_grow cs cs"
  by (simp add: writers_grow_def)

lemma writers_grow_append [simp]: "writers_grow cs (cs @ ds)"
  by (simp add: writers_grow_def nth_append)

lemma writers_grow_update:
  "i < length cs \<Longrightarrow> client_row (cs ! i) = client_row c \<Longrightarrow> (\<And>r v. cs ! i \<noteq> Acked r v) \<Longrightarrow> writers_grow cs (cs[i := c])"
  by (auto simp: writers_grow_def nth_list_update)

lemma wstep_writers: "wstep ok wr st st' \<Longrightarrow> writers_grow (ws_clients st) (ws_clients st')"
  by (cases rule: wstep.cases, assumption) (auto intro: writers_grow_update)

lemma wstep_enable: "wstep ok wr st st' \<Longrightarrow> wal_enable (ws_wal st') = wal_enable (ws_wal st)"
  by (cases rule: wstep.cases, assumption)
    (auto simp: Write_begin_def Write_send_def Write_register_def flush_write_def flush_resolve_def Let_def
      split: if_splits option.splits prod.splits res.splits)

text \<open>The writer of a call in the log; each belongs to one call.\<close>

fun call_ix :: "call \<Rightarrow> nat list" where
  "call_ix (Logging q j) = [j]"
| "call_ix (Logged q (Some j)) = [j]"
| "call_ix (Answered q (Some j) r) = [j]"
| "call_ix _ = []"

fun logged_ok :: "client list \<Rightarrow> bool \<Rightarrow> query \<Rightarrow> nat option \<Rightarrow> bool" where
  "logged_ok cs enb q None \<longleftrightarrow> q_methodID q = GetMethodID \<or> \<not> enb"
| "logged_ok cs enb q (Some j) \<longleftrightarrow> j < length cs \<and> (\<exists>r. cs ! j = Acked r None \<and> query_of r = q)"

fun call_ok :: "client list \<Rightarrow> bool \<Rightarrow> call \<Rightarrow> bool" where
  "call_ok cs enb (Logging q j) \<longleftrightarrow> j < length cs \<and> query_of (client_row (cs ! j)) = q"
| "call_ok cs enb (Logged q oj) \<longleftrightarrow> logged_ok cs enb q oj"
| "call_ok cs enb (Answered q oj r) \<longleftrightarrow> logged_ok cs enb q oj"
| "call_ok cs enb (Refused q e) \<longleftrightarrow> True"

definition calls_inv :: "'s dbsys \<Rightarrow> bool" where
  "calls_inv s \<longleftrightarrow> sent_inv (ds_ws s) \<and> distinct (concat (map call_ix (ds_calls s))) \<and>
     list_all (call_ok (ws_clients (ds_ws s)) (wal_enable (ws_wal (ds_ws s)))) (ds_calls s)"

lemma logged_ok_grow: "writers_grow cs cs' \<Longrightarrow> logged_ok cs enb q oj \<Longrightarrow> logged_ok cs' enb q oj"
  by (cases oj) (auto simp: writers_grow_def)

lemma call_ok_grow: "writers_grow cs cs' \<Longrightarrow> call_ok cs enb c \<Longrightarrow> call_ok cs' enb c"
  by (cases c) (auto simp: logged_ok_grow writers_grow_def)

lemma calls_ok_grow: "writers_grow cs cs' \<Longrightarrow> list_all (call_ok cs enb) calls \<Longrightarrow> list_all (call_ok cs' enb) calls"
  by (auto simp: list_all_iff call_ok_grow)

lemma call_ix_bound: "call_ok cs enb c \<Longrightarrow> j \<in> set (call_ix c) \<Longrightarrow> j < length cs"
  by (cases c rule: call_ix.cases) auto

lemma distinct_concat_update:
  assumes "i < length xs" "distinct (concat (map f xs))" "f y = f (xs ! i) \<or> f y = []"
  shows "distinct (concat (map f (xs[i := y])))"
proof -
  have "xs = take i xs @ xs ! i # drop (Suc i) xs" using assms(1) by (rule id_take_nth_drop)
  then have "distinct (concat (map f (take i xs @ xs ! i # drop (Suc i) xs)))" using assms(2) by metis
  then show ?thesis using assms(1,3) by (auto simp: upd_conv_take_nth_drop)
qed

lemma calls_inv_update:
  assumes "calls_inv s" "i < length (ds_calls s)" "call_ix c = call_ix (ds_calls s ! i) \<or> call_ix c = []"
    and "call_ok (ws_clients (ds_ws s)) (wal_enable (ws_wal (ds_ws s))) c"
  shows "calls_inv (s\<lparr>ds_calls := (ds_calls s)[i := c]\<rparr>)"
  using assms distinct_concat_update [OF assms(2) _ assms(3)] by (simp add: calls_inv_def list_all_update)

lemma calls_inv_at:
  "calls_inv s \<Longrightarrow> i < length (ds_calls s) \<Longrightarrow> call_ok (ws_clients (ds_ws s)) (wal_enable (ws_wal (ds_ws s))) (ds_calls s ! i)"
  by (simp add: calls_inv_def list_all_length)

lemma Write_begin_row:
  "Write_begin ctx q w futs = (w', futs', Ok (Some (r, fr))) \<Longrightarrow> query_of r = q \<and> wal_enable w' = wal_enable w"
  by (auto simp: Write_begin_def NextID_def Let_def query_of_def NewRow_def NewQuery_def split: if_splits option.splits)

lemma calls_inv_step:
  assumes "dstep wr s s'" and "calls_inv s"
  shows "calls_inv s'"
  using assms(1)
proof cases
  case (call_logged q ctx w' futs' r fr)
  have "j < length (ws_clients (ds_ws s))" if "c \<in> set (ds_calls s)" "j \<in> set (call_ix c)" for c j
    using that assms(2) call_ix_bound by (fastforce simp: calls_inv_def list_all_iff)
  then show ?thesis
    using assms(2) call_logged(1) Write_begin_row [OF call_logged(5)]
      calls_ok_grow [OF writers_grow_append, of "ws_clients (ds_ws s)" _ "ds_calls s" "[Sending r fr]"]
    by (fastforce simp: calls_inv_def sent_inv_def)
next
  case (call_dead q ctx w' futs' e)
  then have "wal_enable w' = wal_enable (ws_wal (ds_ws s))"
    by (auto simp: Write_begin_def Let_def split: if_splits option.splits prod.splits)
  with call_dead(1) assms(2) show ?thesis by (simp add: calls_inv_def sent_inv_def)
next
  case (log_step ws')
  then show ?thesis
    using assms(2) sent_inv_step [OF log_step(2)] calls_ok_grow [OF wstep_writers [OF log_step(2)]] wstep_enable [OF log_step(2)]
    by (simp add: calls_inv_def)
next
  case (log_ok i q j r)
  then show ?thesis using calls_inv_update [OF assms(2) log_ok(2), of "Logged q (Some j)"] calls_inv_at [OF assms(2) log_ok(2)]
    by simp
next
  case (log_failed i q j r e)
  then show ?thesis using calls_inv_update [OF assms(2) log_failed(2), of "Refused q e"] by simp
next
  case (log_timeout i q j r e)
  then show ?thesis using calls_inv_update [OF assms(2) log_timeout(2), of "Refused q e"] by simp
next
  case (not_master i q oj)
  then show ?thesis using calls_inv_update [OF assms(2) not_master(2), of "Refused q ErrNonReadOpSlave"] by simp
next
  case (execute i q oj ctx st' r)
  then have "calls_inv (s\<lparr>ds_calls := (ds_calls s)[i := Answered q oj r]\<rparr>)"
    using calls_inv_update [OF assms(2) execute(2), of "Answered q oj r"] calls_inv_at [OF assms(2) execute(2)]
    by (cases oj) simp_all
  with execute(1) show ?thesis by (simp add: calls_inv_def)
next
  case (execute_dead i q oj ctx e st' e')
  then have "calls_inv (s\<lparr>ds_calls := (ds_calls s)[i := Refused q e']\<rparr>)"
    using calls_inv_update [OF assms(2) execute_dead(2), of "Refused q e'"] by simp
  with execute_dead(1) show ?thesis by (simp add: calls_inv_def)
qed (use assms(2) in \<open>auto simp: calls_inv_def IsEnable_def\<close>)

lemma calls_inv_reachable:
  assumes "(dstep wr)\<^sup>*\<^sup>* (db_start w s0 st isMaster) s"
  shows "calls_inv s"
  using assms
proof (induction rule: rtranclp_induct)
  case base
  show ?case by (simp add: calls_inv_def sent_inv_def db_start_def wal_start_def)
qed (rule calls_inv_step)

text \<open>The writes executed, and the rows sent.\<close>

definition hist_writes :: "(query \<times> string res) list \<Rightarrow> query list" where
  "hist_writes h = filter (\<lambda>q. q_methodID q \<noteq> GetMethodID) (map fst h)"

lemma mset_concat_sum: "mset (concat (map g xs)) = sum_mset (image_mset (mset \<circ> g) (mset xs))"
  by (induction xs) simp_all

lemma sub_mset_concat:
  assumes "distinct js" and "\<forall>j\<in>set js. j < length cs"
  shows "mset (concat (map (\<lambda>j. f (cs ! j)) js)) \<subseteq># mset (concat (map f cs))"
proof -
  have "mset_set (set js) \<subseteq># mset_set {0..<length cs}" using assms(2) by (intro subset_imp_msubset_mset_set) auto
  then have "mset js \<subseteq># mset [0..<length cs]" by (simp add: mset_set_set [OF assms(1)] flip: mset_upt)
  then obtain M where "mset [0..<length cs] = mset js + M" using mset_subset_eq_exists_conv by blast
  moreover have "map f cs = map (\<lambda>j. f (cs ! j)) [0..<length cs]" by (rule nth_equalityI) simp_all
  ultimately show ?thesis by (simp only: mset_concat_sum) simp
qed

fun done_ix :: "call \<Rightarrow> nat list" where
  "done_ix (Answered q (Some j) r) = [j]"
| "done_ix _ = []"

lemma done_ix_call: "done_ix c = call_ix c \<or> done_ix c = []"
  by (cases c rule: done_ix.cases) auto

lemma writes_sent:
  assumes "calls_inv s" and "wal_enable (ws_wal (ds_ws s))" and "mset (ds_hist s) = mset (answers (ds_calls s))"
  shows "mset (hist_writes (ds_hist s)) \<subseteq># mset (map query_of (ws_sent (ds_ws s)))"
proof -
  let ?cs = "ws_clients (ds_ws s)" and ?js = "concat (map done_ix (ds_calls s))"
  have ok: "list_all (call_ok ?cs True) (ds_calls s)" using assms(1,2) by (simp add: calls_inv_def)
  have "distinct (concat (map call_ix cs)) \<Longrightarrow> distinct (concat (map done_ix cs)) \<and>
      set (concat (map done_ix cs)) \<subseteq> set (concat (map call_ix cs))" for cs
  proof (induction cs)
    case (Cons c cs)
    from done_ix_call [of c] show ?case
    proof
      assume "done_ix c = call_ix c"
      with Cons show ?case by simp blast
    qed (use Cons in auto)
  qed simp
  then have js: "distinct ?js" using assms(1) by (simp add: calls_inv_def)
  have bound: "\<forall>j\<in>set ?js. j < length ?cs"
  proof
    fix j assume "j \<in> set ?js"
    then obtain c where "c \<in> set (ds_calls s)" "j \<in> set (done_ix c)" by auto
    then show "j < length ?cs" using done_ix_call [of c] call_ix_bound [of ?cs True c j] ok by (auto simp: list_all_iff)
  qed
  have "list_all (call_ok ?cs True) calls \<Longrightarrow> hist_writes (answers calls) =
      filter (\<lambda>q. q_methodID q \<noteq> GetMethodID) (map query_of (concat (map (\<lambda>j. sent_row (?cs ! j)) (concat (map done_ix calls)))))" for calls
  proof (induction calls)
    case (Cons c calls)
    then show ?case by (cases c rule: done_ix.cases) (auto simp: hist_writes_def answers_def)
  qed (simp add: hist_writes_def answers_def)
  then have "mset (hist_writes (answers (ds_calls s))) \<subseteq># mset (map query_of (concat (map (\<lambda>j. sent_row (?cs ! j)) ?js)))"
    using ok by simp
  moreover have "mset (hist_writes (ds_hist s)) = mset (hist_writes (answers (ds_calls s)))"
    unfolding hist_writes_def mset_filter mset_map assms(3) ..
  moreover have "mset (map query_of (concat (map (\<lambda>j. sent_row (?cs ! j)) ?js))) \<subseteq># mset (map query_of (ws_sent (ds_ws s)))"
    using image_mset_subseteq_mono [OF sub_mset_concat [OF js bound]] assms(1) by (simp add: calls_inv_def sent_inv_def)
  ultimately show ?thesis by (simp add: subset_mset.order_trans)
qed

lemma wstep_no_begin: "wstep no_begin wr st st' \<Longrightarrow> wstep ok wr st st'"
  by (induction rule: wstep.induct) (simp add: no_begin_def, (rule wstep.intros; assumption)+)

lemma dstep_enable: "dstep wr s s' \<Longrightarrow> wal_enable (ws_wal (ds_ws s')) = wal_enable (ws_wal (ds_ws s))"
  by (cases rule: dstep.cases, assumption)
    (auto simp: Write_begin_def Let_def wstep_enable split: if_splits option.splits prod.splits)

text \<open>The writes whose arguments fit the format of the log. A call keeps its query.\<close>

definition calls_fit :: "call list \<Rightarrow> bool" where
  "calls_fit cs \<longleftrightarrow> list_all (\<lambda>c. q_methodID (call_query c) = GetMethodID \<or> query_ok (call_query c)) cs"

lemma calls_fit_update: "call_query c = call_query (cs ! i) \<Longrightarrow> calls_fit (cs[i := c]) \<longleftrightarrow> calls_fit cs"
  by (cases "i < length cs") (auto simp: calls_fit_def list_all_length nth_list_update)

lemma dstep_fit:
  assumes "dstep wr s s'" and "calls_fit (ds_calls s')"
  shows "calls_fit (ds_calls s)"
  using assms by cases (auto simp: calls_fit_update, simp_all add: calls_fit_def)

context log_target
begin

lemma rows_inv_dstep:
  assumes "dstep twrite s s'" and "rows_inv thas N xs0 (ds_ws s)" and "calls_fit (ds_calls s')"
  shows "rows_inv thas N xs0 (ds_ws s')"
  using assms(1)
proof cases
  case (call_logged q ctx w' futs' r fr)
  have "ctx_err ctx = None" using call_logged(5) by (auto simp: Write_begin_def Let_def split: if_splits option.splits)
  moreover have "query_ok q" using assms(3) call_logged(1,3) by (simp add: calls_fit_def)
  ultimately have "wstep query_ok twrite (ds_ws s) (ds_ws s')"
    using begin_write [of query_ok, OF _ _ call_logged(5), of twrite] call_logged(1) by simp
  with assms(2) show ?thesis
    using rows_inv_step by blast
next
  case (call_dead q ctx w' futs' e)
  then have "w' = ws_wal (ds_ws s)" by (auto simp: Write_begin_def Let_def split: if_splits option.splits prod.splits)
  with call_dead(1) assms(2) show ?thesis by (simp add: rows_inv_def)
next
  case (log_step ws')
  then show ?thesis using rows_inv_step [OF wstep_no_begin [OF log_step(2)] assms(2)] by simp
qed (use assms(2) in simp_all)

lemma rows_inv_dreachable:
  assumes "(dstep twrite)\<^sup>*\<^sup>* (db_start w s0 st isMaster) s"
    and "thas N s0 xs0" "wal_queryBuf w = []" "buf (wal_queryCh w) = []" and "calls_fit (ds_calls s)"
  shows "rows_inv thas N xs0 (ds_ws s) \<and> wal_enable (ws_wal (ds_ws s)) = wal_enable w"
  using assms(1,5)
proof (induction rule: rtranclp_induct)
  case base
  show ?case using assms(2-4) by (simp add: rows_inv_def Let_def db_start_def wal_start_def)
next
  case (step y z)
  from step.IH [OF dstep_fit [OF step.hyps(2) step.prems]] show ?case
    using rows_inv_dstep [OF step.hyps(2) _ step.prems] dstep_enable [OF step.hyps(2)] by simp
qed

end

section \<open>Two writes that cross\<close>

text \<open>
  Two calls begin, both rows are sent, registered, flushed together and acknowledged; then the
  second call reaches the storage first.
\<close>

definition quiet :: "'s walsys \<Rightarrow> bool" where
  "quiet ws \<longleftrightarrow> ws_phase ws = Selecting \<and> wal_queryBuf (ws_wal ws) = [] \<and> wal_futureResp (ws_wal ws) = [] \<and>
     buf (wal_queryCh (ws_wal ws)) = []"

context log_target
begin

lemma two_writes_run:
  assumes has: "thas (k + 2) s xs" and row: "row_ok r1" "row_ok r2" and n: "3 \<le> n"
  defines "F \<equiv> NewFutureResp :: goerr option future"
  shows "\<exists>st. (wstep no_begin twrite)\<^sup>*\<^sup>* (sys_at w n [] [] g [] [F, F] s [Sending r1 0, Sending r2 1] Selecting []) st \<and>
    ws_clients st = [Acked r1 None, Acked r2 None] \<and> thas k (ws_out st) (xs @ [r1, r2]) \<and> quiet st \<and> ws_sent st = [r1, r2]"
proof -
  let ?R = "wstep no_begin twrite" and ?S = "sys_at w n"
  obtain s' where s': "twrite [r1, r2] s = (s', Ok ())" "thas k s' (xs @ [r1, r2])"
    using twrite_ok [of k "[r1, r2]" s xs] has row by (auto simp: numeral_2_eq_2)
  have "?R\<^sup>*\<^sup>* (?S [] [] g [] [F, F] s [Sending r1 0, Sending r2 1] Selecting []) (?S [] [] g [] [F, F] s [Sending r1 0, Sending r2 1] Selecting [])"
    by simp
  also have "?R \<dots> (?S [] [] g [r1] [F, F] s [Registering r1 0, Sending r2 1] Selecting [r1])"
    by (rule at_send [of 0 _ r1 0]) (use n in simp_all)
  also have "?R \<dots> (?S [] [] g [r1, r2] [F, F] s [Registering r1 0, Registering r2 1] Selecting [r1, r2])"
    by (rule at_send [of 1 _ r2 1]) (use n in simp_all)
  also have "?R \<dots> (?S [] [0] g [r1, r2] [F, F] s [Waiting r1 0, Registering r2 1] Selecting [r1, r2])"
    by (rule at_register [of 0 _ r1 0]) simp_all
  also have "?R \<dots> (?S [] [0, 1] g [r1, r2] [F, F] s [Waiting r1 0, Waiting r2 1] Selecting [r1, r2])"
    by (rule at_register [of 1 _ r2 1]) simp_all
  also have "?R \<dots> (?S [r1] [0, 1] g [r2] [F, F] s [Waiting r1 0, Waiting r2 1] Selecting [r1, r2])"
    by (rule at_receive) (use n in simp_all)
  also have "?R \<dots> (?S [r1, r2] [0, 1] g [] [F, F] s [Waiting r1 0, Waiting r2 1] Selecting [r1, r2])"
    by (rule at_receive) (use n in simp_all)
  also have "?R \<dots> (?S [r1, r2] [0, 1] g [] [F, F] s [Waiting r1 0, Waiting r2 1] (Flushing False) [r1, r2])"
    by (rule at_tick) simp
  also have "?R \<dots> (?S [] [0, 1] g [] [F, F] s' [Waiting r1 0, Waiting r2 1] (Resolving False None) [r1, r2])"
    by (rule at_written [of twrite, OF s'(1)])
  also have "?R \<dots> (?S [] [] g [] [resolved_fut, resolved_fut] s' [Waiting r1 0, Waiting r2 1] Selecting [r1, r2])"
    unfolding F_def by (rule at_resolved) simp
  also have "?R \<dots> (?S [] [] g [] [taken_fut, resolved_fut] s' [Acked r1 None, Waiting r2 1] Selecting [r1, r2])"
    by (rule at_answer [of 0 _ r1 0]) simp_all
  also have "?R \<dots> (?S [] [] g [] [taken_fut, taken_fut] s' [Acked r1 None, Acked r2 None] Selecting [r1, r2])"
    by (rule at_answer [of 1 _ r2 1]) simp_all
  finally show ?thesis using s'(2) by (intro exI conjI) (assumption, simp_all add: at_defs quiet_def)
qed

text \<open>A worker with nothing to do stops after a cancellation.\<close>

lemma quiet_stop:
  assumes "quiet st" and "thas k (ws_out st) xs"
  shows "\<exists>st'. (wstep no_begin twrite)\<^sup>*\<^sup>* st st' \<and> ws_phase st' = Stopped \<and> buf (wal_queryCh (ws_wal st')) = [] \<and>
    ws_sent st' = ws_sent st"
proof -
  let ?R = "wstep no_begin twrite"
  obtain s' where fw: "flush_write twrite (ws_wal st) (ws_out st) = (ws_wal st\<lparr>wal_queryBuf := []\<rparr>, s', Ok None)"
    using flush_write_ok [of k "ws_wal st" "ws_out st" xs] assms by (auto simp: quiet_def)
  define w where "w = ws_wal st\<lparr>wal_queryBuf := []\<rparr>"
  have w: "flush_resolve None w (ws_futs st) = (w, Ok (ws_futs st))" "buf (wal_queryCh w) = []"
    using assms(1) by (simp_all add: flush_resolve_def quiet_def w_def)
  let ?s1 = "st\<lparr>ws_phase := Draining\<rparr>"
  let ?s2 = "?s1\<lparr>ws_phase := Flushing True\<rparr>"
  let ?s3 = "?s2\<lparr>ws_wal := w, ws_out := s', ws_phase := Resolving True None\<rparr>"
  let ?s4 = "?s3\<lparr>ws_wal := w, ws_futs := ws_futs st, ws_phase := Stopped\<rparr>"
  have "?R st ?s1" by (rule cancel) (use assms(1) in \<open>simp add: quiet_def\<close>)
  moreover have "?R ?s1 ?s2" by (rule drain_end) (use assms(1) in \<open>simp_all add: quiet_def\<close>)
  moreover have "?R ?s2 ?s3" by (rule written) (use fw in \<open>simp_all add: w_def\<close>)
  moreover have "?R ?s3 ?s4" using resolved [of ?s3 True None w "ws_futs st" no_begin twrite] w(1) by simp
  ultimately have "?R\<^sup>*\<^sup>* st ?s4" by (meson converse_rtranclp_into_rtranclp rtranclp.rtrancl_refl)
  then show ?thesis using w(2) by (intro exI [of _ ?s4]) simp
qed

end

lemma log_steps: "(wstep no_begin wr)\<^sup>*\<^sup>* ws ws' \<Longrightarrow> ds_ws s = ws \<Longrightarrow> (dstep wr)\<^sup>*\<^sup>* s (s\<lparr>ds_ws := ws'\<rparr>)"
proof (induction rule: rtranclp_induct)
  case (step y z)
  have "dstep wr (s\<lparr>ds_ws := y\<rparr>) (s\<lparr>ds_ws := y\<rparr>\<lparr>ds_ws := z\<rparr>)" by (rule log_step) (use step.hyps(2) in simp)
  with step.IH step.prems show ?case by simp
next
  case base
  then show ?case by (cases s) simp
qed

text \<open>The database around a state of the log.\<close>

definition db_at :: "'s walsys \<Rightarrow> storage \<Rightarrow> call list \<Rightarrow> (query \<times> string res) list \<Rightarrow> 's dbsys" where
  "db_at ws st cs h = \<lparr>ds_ws = ws, ds_st = st, ds_isMaster = True, ds_calls = cs, ds_hist = h\<rparr>"

lemma db_at_call:
  assumes "valid_query q" "write_query q" "r = NewRow g' (q_methodID q) (q_args q)" "g' = g + 1"
    "F' = F @ [NewFutureResp]" "cl' = cl @ [Sending r (length F)]" "cs' = cs @ [Logging q (length cl)]"
  shows "dstep wr (db_at (sys_at w n b fr g c F s cl ph se) st cs h) (db_at (sys_at w n b fr g' c F' s cl' ph se) st cs' h)"
  using call_logged [OF assms(1) write_not_get [OF assms(2)], of "db_at (sys_at w n b fr g c F s cl ph se) st cs h" Background
      "wal_at w n b fr g' c" F' r "length F" wr] assms(3-7)
  by (simp add: db_at_def sys_at_def wal_at_begin) (simp add: wal_at_def IsEnable_def)

lemma db_at_log_ok:
  assumes "i < length cs" "cs ! i = Logging q j" "ws_clients ws ! j = Acked r None" "cs' = cs[i := Logged q (Some j)]"
  shows "dstep wr (db_at ws st cs h) (db_at ws st cs' h)"
  using log_ok [of i "db_at ws st cs h" q j r wr] assms by (simp add: db_at_def)

lemma db_at_execute:
  assumes "i < length cs" "cs ! i = Logged q oj" "exec Background q st = (st', r)" "cs' = cs[i := Answered q oj r]" "h' = h @ [(q, r)]"
  shows "dstep wr (db_at ws st cs h) (db_at ws st' cs' h')"
  using execute [of i "db_at ws st cs h" q oj Background st' r wr] assms by (simp add: db_at_def Background_def)

lemma crossed_writes_run:
  assumes wal: "NewWAL c = Ok w" "c_Enable c" "3 \<le> wal_flushBatchSize w" and has: "log_has d (k + 2) out xs"
    and st: "storage_inv st" and q: "valid_query q1" "query_ok q1" "write_query q1" "valid_query q2" "query_ok q2" "write_query q2"
  shows "\<exists>s. (dstep wal_writer)\<^sup>*\<^sup>* (db_start w out st True) s \<and>
    ds_calls s = [Answered q1 (Some 0) (Ok ''OK''), Answered q2 (Some 1) (Ok ''OK'')] \<and>
    log_has d k (ws_out (ds_ws s)) (xs @ [NewRow 1 (q_methodID q1) (q_args q1), NewRow 2 (q_methodID q2) (q_args q2)]) \<and>
    storage_abs (ds_st s) = kv_apply (qop q1) (kv_apply (qop q2) (storage_abs st)) \<and>
    ds_hist s = [(q2, Ok ''OK''), (q1, Ok ''OK'')] \<and> quiet (ds_ws s) \<and> length (ws_sent (ds_ws s)) = 2"
proof -
  define r1 r2 where r: "r1 = NewRow 1 (q_methodID q1) (q_args q1)" "r2 = NewRow 2 (q_methodID q2) (q_args q2)"
  let ?F = "NewFutureResp :: goerr option future" and ?D = "dstep wal_writer" and ?n = "nat (wal_flushBatchSize w)"
  let ?S = "\<lambda>g F cl. sys_at w ?n [] [] g [] F out cl Selecting []"
  note f = NewWAL_fields [OF wal(1,2)]
  have n: "3 \<le> ?n" using wal(3) by linarith
  have "wal_flushBatchSize w = int ?n" using f(6) by simp
  note start = wal_at_start [OF f(1-3,5,4) this]
  obtain ws where ws: "(wstep no_begin wal_writer)\<^sup>*\<^sup>* (?S 2 [?F, ?F] [Sending r1 0, Sending r2 1]) ws"
    "ws_clients ws = [Acked r1 None, Acked r2 None]" "log_has d k (ws_out ws) (xs @ [r1, r2])" "quiet ws" "ws_sent ws = [r1, r2]"
    using lws.two_writes_run [OF has row_of_query_ok [OF q(2)] row_of_query_ok [OF q(5)] n] unfolding r by blast
  have bg: "ctx_err Background = None" by (simp add: Background_def)
  obtain st1 where st1: "exec Background q2 st = (st1, Ok ''OK'')" "storage_inv st1" "storage_abs st1 = kv_apply (qop q2) (storage_abs st)"
    using exec_write [OF q(6) st bg] by blast
  obtain st2 where st2: "exec Background q1 st1 = (st2, Ok ''OK'')" "storage_abs st2 = kv_apply (qop q1) (storage_abs st1)"
    using exec_write [OF q(3) st1(2) bg] by blast
  have "?D\<^sup>*\<^sup>* (db_start w out st True) (db_at (?S 0 [] []) st [] [])" by (simp add: db_start_def db_at_def start)
  also have "?D \<dots> (db_at (?S 1 [?F] [Sending r1 0]) st [Logging q1 0] [])" by (rule db_at_call [OF q(1,3)]) (simp_all add: r)
  also have "?D \<dots> (db_at (?S 2 [?F, ?F] [Sending r1 0, Sending r2 1]) st [Logging q1 0, Logging q2 1] [])"
    by (rule db_at_call [OF q(4,6)]) (simp_all add: r)
  also have "?D\<^sup>*\<^sup>* \<dots> (db_at ws st [Logging q1 0, Logging q2 1] [])"
    using log_steps [OF ws(1), of "db_at (?S 2 [?F, ?F] [Sending r1 0, Sending r2 1]) st [Logging q1 0, Logging q2 1] []"]
    by (simp add: db_at_def)
  also have "?D \<dots> (db_at ws st [Logged q1 (Some 0), Logging q2 1] [])" by (rule db_at_log_ok [of 0 _ q1 0]) (simp_all add: ws(2))
  also have "?D \<dots> (db_at ws st [Logged q1 (Some 0), Logged q2 (Some 1)] [])" by (rule db_at_log_ok [of 1 _ q2 1]) (simp_all add: ws(2))
  also have "?D \<dots> (db_at ws st1 [Logged q1 (Some 0), Answered q2 (Some 1) (Ok ''OK'')] [(q2, Ok ''OK'')])"
    by (rule db_at_execute [OF _ _ st1(1), of 1]) simp_all
  also have "?D \<dots> (db_at ws st2 [Answered q1 (Some 0) (Ok ''OK''), Answered q2 (Some 1) (Ok ''OK'')] [(q2, Ok ''OK''), (q1, Ok ''OK'')])"
    by (rule db_at_execute [OF _ _ st2(1), of 0]) simp_all
  finally show ?thesis using ws(3-5) st1(3) st2(2) by (intro exI conjI) (assumption, simp_all add: db_at_def r)
qed

section \<open>Properties\<close>

lemma hist_grows: "(dstep wr)\<^sup>*\<^sup>* s s' \<Longrightarrow> \<exists>rest. ds_hist s' = ds_hist s @ rest"
proof (induction rule: rtranclp_induct)
  case (step y z)
  from step.hyps(2) have "\<exists>rest. ds_hist z = ds_hist y @ rest" by cases auto
  with step.IH show ?case by auto
qed simp

text \<open>A shared log and storage for the examples.\<close>

lemma demo_shared: "\<exists>out st. log_has ''wal'' (1 + 2) out [] \<and> storage_inv st"
proof -
  obtain out where "log_has ''wal'' 3 out []" using demo_log by blast
  then have "log_has ''wal'' (1 + 2) out []" by (simp add: numeral_3_eq_3)
  moreover obtain e where "engine_inv e" using NewEngine_ok [of "''inmemory''" 4] by auto
  then have "storage_inv (Storage_New e)" using Storage_New_inv [of e] by simp
  ultimately show ?thesis by blast
qed

lemma demo_wal_facts: "c_Enable demo_config" "3 \<le> wal_flushBatchSize demo_wal"
  by (simp_all add: demo_config_def demo_wal_def)

lemma demo_crossed_run:
  "\<exists>out st s. log_has ''wal'' (1 + 2) out [] \<and> storage_inv st \<and> (dstep wal_writer)\<^sup>*\<^sup>* (db_start demo_wal out st True) s \<and>
     ds_hist s = replicate 2 (NewQuery SetMethodID [''k'', ''v''], Ok ''OK'') \<and> quiet (ds_ws s) \<and> length (ws_sent (ds_ws s)) = 2 \<and>
     (\<exists>xs. log_has ''wal'' 1 (ws_out (ds_ws s)) xs) \<and> calls_fit (ds_calls s)"
proof -
  obtain out st where d: "log_has ''wal'' (1 + 2) out []" "storage_inv st" using demo_shared by blast
  from crossed_writes_run [OF demo_wal demo_wal_facts this demo_query_ok(1-3) demo_query_ok(1-3)]
  obtain s where "(dstep wal_writer)\<^sup>*\<^sup>* (db_start demo_wal out st True) s" "quiet (ds_ws s)" "length (ws_sent (ds_ws s)) = 2"
    "ds_hist s = replicate 2 (NewQuery SetMethodID [''k'', ''v''], Ok ''OK'')" "\<exists>xs. log_has ''wal'' 1 (ws_out (ds_ws s)) xs"
    "ds_calls s = [Answered (NewQuery SetMethodID [''k'', ''v'']) (Some 0) (Ok ''OK''),
       Answered (NewQuery SetMethodID [''k'', ''v'']) (Some 1) (Ok ''OK'')]"
    by (auto simp: numeral_2_eq_2)
  moreover from this(6) have "calls_fit (ds_calls s)" using demo_query_ok(2) by (simp add: calls_fit_def)
  ultimately show ?thesis using d by blast
qed

text \<open>
  C4. Concurrent calls are linearizable: for any number of calls of \<^verbatim>\<open>Execute\<close>, any interleaving with
  each other and with the worker, and any failures of the log, there is one order of the answered
  calls in which a map gives exactly their answers and the storage is the final map; the order
  contains each answered call once and respects time: what was answered by some moment comes
  before everything that is executed later.
\<close>

theorem concurrent_calls_linearizable:
  assumes "storage_inv st" and "(dstep wr)\<^sup>*\<^sup>* (db_start w out st isMaster) s1" and "(dstep wr)\<^sup>*\<^sup>* s1 s2"
  shows "\<exists>rest. ds_hist s2 = ds_hist s1 @ rest \<and> mset (ds_hist s1) = mset (answers (ds_calls s1)) \<and>
    mset (ds_hist s2) = mset (answers (ds_calls s2)) \<and>
    kv_run (map fst (ds_hist s2)) (storage_abs st) = (storage_abs (ds_st s2), map snd (ds_hist s2))"
proof -
  have "hist_inv (storage_abs st) s1" by (rule hist_inv_reachable [OF assms(2,1)])
  moreover have "hist_inv (storage_abs st) s2" by (rule hist_inv_reachable [OF rtranclp_trans [OF assms(2,3)] assms(1)])
  ultimately show ?thesis using hist_grows [OF assms(3)] by (simp add: hist_inv_def)
qed

theorem concurrent_calls_linearizable_witness:
  "\<exists>out st s. (dstep wal_writer)\<^sup>*\<^sup>* (db_start demo_wal out st True) s \<and> length (ds_hist s) = 2 \<and>
     kv_run (map fst (ds_hist s)) (storage_abs st) = (storage_abs (ds_st s), map snd (ds_hist s))"
proof -
  obtain out st s where s: "storage_inv st" "(dstep wal_writer)\<^sup>*\<^sup>* (db_start demo_wal out st True) s"
    "ds_hist s = replicate 2 (NewQuery SetMethodID [''k'', ''v''], Ok ''OK'')"
    using demo_crossed_run by blast
  from concurrent_calls_linearizable [OF s(1,2) rtranclp.rtrancl_refl]
  have "kv_run (map fst (ds_hist s)) (storage_abs st) = (storage_abs (ds_st s), map snd (ds_hist s))" by blast
  moreover have "length (ds_hist s) = 2" by (simp add: s(3))
  ultimately show ?thesis using s(2) by blast
qed

text \<open>
  C24. The log keeps every executed write: on a disk that works (\<^const>\<open>log_has\<close>), and when every write
  that was called has arguments that fit the format of the log (at most 65535 bytes each, fewer than
  65536 of them), once the worker has stopped and the channel is empty the files hold, besides the
  rows that were there at the start, every write that was executed, each at least as often as it was
  executed, whatever the interleaving was.
\<close>

theorem stopped_log_has_all_writes:
  assumes "NewWAL c = Ok w" and "c_Enable c" and "log_has d N out xs0" and "storage_inv st"
    and "(dstep wal_writer)\<^sup>*\<^sup>* (db_start w out st isMaster) s" and "length (ws_sent (ds_ws s)) \<le> N"
    and "ws_phase (ds_ws s) = Stopped" and "buf (wal_queryCh (ws_wal (ds_ws s))) = []"
    and "list_all (\<lambda>c. q_methodID (call_query c) = GetMethodID \<or> query_ok (call_query c)) (ds_calls s)"
  shows "\<exists>xs. log_has d 0 (ws_out (ds_ws s)) (xs0 @ xs) \<and> mset (hist_writes (ds_hist s)) \<subseteq># mset (map query_of xs)"
proof -
  note f = NewWAL_fields [OF assms(1,2)]
  have rows: "rows_inv (log_has d) N xs0 (ds_ws s)" and enb: "wal_enable (ws_wal (ds_ws s))"
    using lws.rows_inv_dreachable [OF assms(5,3) f(2,7)] f(1) assms(9) by (simp_all add: calls_fit_def)
  then obtain xs k where "log_has d (0 + k) (ws_out (ds_ws s)) xs" "xs = xs0 @ ws_sent (ds_ws s)"
    using assms(6-8) by (auto simp: rows_inv_def Let_def)
  then have "log_has d 0 (ws_out (ds_ws s)) (xs0 @ ws_sent (ds_ws s))" using lws.thas_less by blast
  moreover have "mset (ds_hist s) = mset (answers (ds_calls s))"
    using hist_inv_reachable [OF assms(5,4)] by (simp add: hist_inv_def)
  ultimately show ?thesis using writes_sent [OF calls_inv_reachable [OF assms(5)] enb] by blast
qed

theorem stopped_log_has_all_writes_witness:
  "\<exists>out st s xs. (dstep wal_writer)\<^sup>*\<^sup>* (db_start demo_wal out st True) s \<and> ws_phase (ds_ws s) = Stopped \<and>
     log_has ''wal'' 0 (ws_out (ds_ws s)) xs \<and> mset (replicate 2 (NewQuery SetMethodID [''k'', ''v''])) \<subseteq># mset (map query_of xs)"
proof -
  obtain out st s xs where s: "log_has ''wal'' (1 + 2) out []" "storage_inv st" "(dstep wal_writer)\<^sup>*\<^sup>* (db_start demo_wal out st True) s"
    "ds_hist s = replicate 2 (NewQuery SetMethodID [''k'', ''v''], Ok ''OK'')" "quiet (ds_ws s)" "length (ws_sent (ds_ws s)) = 2"
    "log_has ''wal'' 1 (ws_out (ds_ws s)) xs" "calls_fit (ds_calls s)" using demo_crossed_run by blast
  obtain ws where ws: "(wstep no_begin wal_writer)\<^sup>*\<^sup>* (ds_ws s) ws" "ws_phase ws = Stopped" "buf (wal_queryCh (ws_wal ws)) = []"
    "ws_sent ws = ws_sent (ds_ws s)" using lws.quiet_stop [OF s(5,7)] by blast
  let ?s = "s\<lparr>ds_ws := ws\<rparr>"
  have run: "(dstep wal_writer)\<^sup>*\<^sup>* (db_start demo_wal out st True) ?s" using rtranclp_trans [OF s(3) log_steps [OF ws(1) refl]] .
  have "hist_writes (ds_hist ?s) = replicate 2 (NewQuery SetMethodID [''k'', ''v''])"
    by (simp add: s(4) hist_writes_def NewQuery_def method_ids numeral_2_eq_2)
  moreover have "\<exists>xs. log_has ''wal'' 0 (ws_out (ds_ws ?s)) ([] @ xs) \<and> mset (hist_writes (ds_hist ?s)) \<subseteq># mset (map query_of xs)"
    by (rule stopped_log_has_all_writes [OF demo_wal demo_wal_facts(1) s(1,2) run]) (use ws s(6,8) in \<open>simp_all add: calls_fit_def\<close>)
  ultimately show ?thesis using run ws(2) by (intro exI [of _ out] exI [of _ st] exI [of _ ?s]) auto
qed

text \<open>
  C25. The storage and the log can disagree: two concurrent writes of the same key can be logged in one
  order and executed in the other. From an empty log there is a run in which both calls are
  answered with success and a read now sees the value of the first, while a restart on the files
  brings back the value of the second.
\<close>

theorem storage_and_log_disagree:
  assumes "NewWAL c = Ok w" "c_Enable c" "3 \<le> wal_flushBatchSize w" and "log_has d (Suc k + 2) out []"
    and "storage_inv st" and "query_ok (NewQuery SetMethodID [key, a])" "query_ok (NewQuery SetMethodID [key, b])"
  shows "\<exists>s. (dstep wal_writer)\<^sup>*\<^sup>* (db_start w out st True) s \<and>
    ds_calls s = [Answered (NewQuery SetMethodID [key, a]) (Some 0) (Ok ''OK''), Answered (NewQuery SetMethodID [key, b]) (Some 1) (Ok ''OK'')] \<and>
    storage_abs (ds_st s) key = Some a \<and>
    (\<forall>c2. same_config d (ws_out (ds_ws s)) c2 \<longrightarrow>
      (\<exists>w' db. InitDB_core early1 early2 engType n c2 True (snd (ws_out (ds_ws s))) = (w', Ok db) \<and>
        storage_abs (db_st db) key = Some b))"
proof -
  let ?q1 = "NewQuery SetMethodID [key, a]" and ?q2 = "NewQuery SetMethodID [key, b]"
  let ?rows = "[NewRow 1 SetMethodID [key, a], NewRow 2 SetMethodID [key, b]]"
  have q: "valid_query ?q1" "write_query ?q1" "valid_query ?q2" "write_query ?q2" "qop ?q1 = KSet key a" "qop ?q2 = KSet key b"
    "q_methodID ?q1 = SetMethodID" "q_args ?q1 = [key, a]" "q_methodID ?q2 = SetMethodID" "q_args ?q2 = [key, b]"
    by (simp_all add: NewQuery_def valid_query_def write_query_def qop_def)
  obtain s where s: "(dstep wal_writer)\<^sup>*\<^sup>* (db_start w out st True) s"
    "ds_calls s = [Answered ?q1 (Some 0) (Ok ''OK''), Answered ?q2 (Some 1) (Ok ''OK'')]"
    "log_has d (Suc k) (ws_out (ds_ws s)) ?rows" "storage_abs (ds_st s) = kv_apply (KSet key a) (kv_apply (KSet key b) (storage_abs st))"
    using crossed_writes_run [OF assms(1-5) q(1) assms(6) q(2,3) assms(7) q(4)] by (auto simp: q)
  have rows: "list_all (write_query \<circ> query_of) ?rows" "ops_of ?rows = [KSet key a, KSet key b]"
    by (simp_all add: query_of_def NewRow_def q ops_of_def)
  have "\<exists>w' db. InitDB_core early1 early2 engType n c2 True (snd (ws_out (ds_ws s))) = (w', Ok db) \<and> storage_abs (db_st db) key = Some b"
    if "same_config d (ws_out (ds_ws s)) c2" for c2
    using restart_on_log [OF s(3) rows(1) that, of early1 early2 engType n True] by (auto simp: rows(2))
  then show ?thesis using s(1,2,4) by auto
qed

theorem storage_and_log_disagree_witness:
  "\<exists>out st s. (dstep wal_writer)\<^sup>*\<^sup>* (db_start demo_wal out st True) s \<and> storage_abs (ds_st s) ''k'' = Some ''1'' \<and>
     (\<forall>c2. same_config ''wal'' (ws_out (ds_ws s)) c2 \<longrightarrow>
       (\<exists>w' db. InitDB_core True True ''inmemory'' 4 c2 True (snd (ws_out (ds_ws s))) = (w', Ok db) \<and>
         storage_abs (db_st db) ''k'' = Some ''2''))"
proof -
  obtain out st where d: "log_has ''wal'' (1 + 2) out []" "storage_inv st" using demo_shared by blast
  have out: "log_has ''wal'' (Suc 0 + 2) out []" using d(1) by simp
  have q: "query_ok (NewQuery SetMethodID [''k'', ''1''])" "query_ok (NewQuery SetMethodID [''k'', ''2''])"
    by (simp_all add: query_ok_def NewQuery_def)
  from storage_and_log_disagree [OF demo_wal demo_wal_facts out d(2) q, of True True "''inmemory''" 4] show ?thesis by blast
qed

end
