(* ===== verification/Sessions.thy ===== *)
theory Sessions
  imports Concurrent_Calls Transport
begin

text \<open>
  Many TCP connections at once: the loops of \<^verbatim>\<open>handleConnection\<close> (\<^verbatim>\<open>internal/transport/tcp/listener.go\<close>)
  with \<^verbatim>\<open>UniversalHandler.Handle\<close> (\<^verbatim>\<open>internal/handlers/handlers.go\<close>) on one database. Reading and parsing
  a line, the call of \<^verbatim>\<open>Execute\<close> and the writing of its answer are separate steps, and the calls
  themselves take the steps of \<^const>\<open>dstep\<close>. Connections may fail in any way, in reading and in
  writing. The bound on the connections (\<^const>\<open>listen\<close>) only restricts when \<open>accept\<close> happens, and a call of \<^verbatim>\<open>Handle\<close> under a cancelled
  context changes nothing, so neither appears in the steps.
\<close>

section \<open>Connections as a step relation\<close>

text \<open>
  What a connection has dealt with: a line that was executed as the call of the given number, a
  line that does not parse, an error of the reader.
\<close>

datatype entry =
    Asked "byte list" nat
  | BadLine "byte list" goerr
  | NoLine goerr

text \<open>
  \<open>ss_wait\<close> is the line under execution with its call. \<open>ss_src\<close> is all that the network delivers and
  \<open>ss_log\<close> the history of the connection; no step reads them.
\<close>

record tcp_session =
  ss_r :: bufr
  ss_w :: bufw
  ss_wait :: "(byte list \<times> nat) option"
  ss_open :: bool
  ss_src :: reads
  ss_log :: "entry list"

text \<open>\<open>sr_order\<close> is the history of the calls in the order in which they reach the storage.\<close>

record 's server =
  sr_db :: "'s dbsys"
  sr_sess :: "tcp_session list"
  sr_order :: "nat list"

text \<open>The result of a call, when it has returned.\<close>

fun call_result :: "call \<Rightarrow> string res option" where
  "call_result (Answered q oj r) = Some r"
| "call_result (Refused q e) = Some (Fail e)"
| "call_result _ = None"

text \<open>\<^verbatim>\<open>Handle\<close> from the return of \<^verbatim>\<open>Execute\<close> on.\<close>

definition respond :: "string res \<Rightarrow> bufw \<Rightarrow> bufw \<times> unit res" where
  "respond r bw =
     (case r of
        Ok v \<Rightarrow> (case handler_write v bw of (bw1, Fail e) \<Rightarrow> handler_writeError e bw1 | x \<Rightarrow> x)
      | Fail e \<Rightarrow> handler_writeError e bw
      | Panic \<Rightarrow> (bw, Panic)
      | Hang \<Rightarrow> (bw, Hang))"

text \<open>Whether the loop of the connection goes on after a call of \<^verbatim>\<open>Handle\<close>.\<close>

definition goes_on :: "unit res \<Rightarrow> bool" where
  "goes_on x = (case x of Ok _ \<Rightarrow> True | Fail e \<Rightarrow> \<not> (errors_Is e EOF \<or> is_OpError e) | _ \<Rightarrow> False)"

text \<open>The calls that reach the storage between two states.\<close>

definition newly :: "'s dbsys \<Rightarrow> 's dbsys \<Rightarrow> nat list" where
  "newly db db' = filter (\<lambda>i. answer_of (ds_calls db ! i) = [] \<and> answer_of (ds_calls db' ! i) \<noteq> []) [0..<length (ds_calls db)]"

definition new_session :: "reads \<Rightarrow> fault list \<Rightarrow> tcp_session" where
  "new_session src faults =
     \<lparr>ss_r = NewReader src, ss_w = NewWriter \<lparr>sk_out = [], sk_faults = faults\<rparr>, ss_wait = None, ss_open = True,
      ss_src = src, ss_log = []\<rparr>"

inductive serve :: "'w target \<Rightarrow> 'w server \<Rightarrow> 'w server \<Rightarrow> bool" for wr :: "'w target" where
  accept: "conn_like src \<Longrightarrow> serve wr s (s\<lparr>sr_sess := sr_sess s @ [new_session src faults]\<rparr>)"
| read_query: "i < length (sr_sess s) \<Longrightarrow> sr_sess s ! i = x \<Longrightarrow> ss_open x \<Longrightarrow> ss_wait x = None \<Longrightarrow>
     ReadBytes newline (ss_r x) = (br, Ok (inp, None)) \<Longrightarrow> Parse inp = Ok q \<Longrightarrow>
     dstep wr (sr_db s) db' \<Longrightarrow> ds_calls db' = ds_calls (sr_db s) @ [c] \<Longrightarrow> call_query c = q \<Longrightarrow>
     serve wr s (s\<lparr>sr_db := db',
       sr_sess := (sr_sess s)[i := x\<lparr>ss_r := br, ss_wait := Some (inp, length (ds_calls (sr_db s)))\<rparr>]\<rparr>)"
| read_bad: "i < length (sr_sess s) \<Longrightarrow> sr_sess s ! i = x \<Longrightarrow> ss_open x \<Longrightarrow> ss_wait x = None \<Longrightarrow>
     ReadBytes newline (ss_r x) = (br, Ok (inp, None)) \<Longrightarrow> Parse inp = Fail e \<Longrightarrow>
     handler_writeError e (ss_w x) = (bw, res) \<Longrightarrow>
     serve wr s (s\<lparr>sr_sess := (sr_sess s)[i := x\<lparr>ss_r := br, ss_w := bw, ss_open := goes_on res,
       ss_log := ss_log x @ [BadLine inp e]\<rparr>]\<rparr>)"
| read_error: "i < length (sr_sess s) \<Longrightarrow> sr_sess s ! i = x \<Longrightarrow> ss_open x \<Longrightarrow> ss_wait x = None \<Longrightarrow>
     ReadBytes newline (ss_r x) = (br, Ok (inp, Some e)) \<Longrightarrow> handler_writeError e (ss_w x) = (bw, res) \<Longrightarrow>
     serve wr s (s\<lparr>sr_sess := (sr_sess s)[i := x\<lparr>ss_r := br, ss_w := bw, ss_open := goes_on res,
       ss_log := ss_log x @ [NoLine e]\<rparr>]\<rparr>)"
| answer_call: "i < length (sr_sess s) \<Longrightarrow> sr_sess s ! i = x \<Longrightarrow> ss_wait x = Some (inp, j) \<Longrightarrow>
     call_result (ds_calls (sr_db s) ! j) = Some r \<Longrightarrow> respond r (ss_w x) = (bw, res) \<Longrightarrow>
     serve wr s (s\<lparr>sr_sess := (sr_sess s)[i := x\<lparr>ss_w := bw, ss_wait := None, ss_open := goes_on res,
       ss_log := ss_log x @ [Asked inp j]\<rparr>]\<rparr>)"
| db_step: "dstep wr (sr_db s) db' \<Longrightarrow> length (ds_calls db') = length (ds_calls (sr_db s)) \<Longrightarrow>
     serve wr s (s\<lparr>sr_db := db', sr_order := sr_order s @ newly (sr_db s) db'\<rparr>)"

definition server_start :: "wal \<Rightarrow> 's \<Rightarrow> storage \<Rightarrow> bool \<Rightarrow> 's server" where
  "server_start w out st isMaster = \<lparr>sr_db = db_start w out st isMaster, sr_sess = [], sr_order = []\<rparr>"

text \<open>Without other connections the steps of one line are a call of \<^verbatim>\<open>Handle\<close>.\<close>

lemma Handle_steps:
  assumes "ctx_err ctx = None" and "ReadBytes newline (hc_r c) = (br, Ok (inp, None))" and "h_Parse h inp = Ok q"
    and "h_Execute h ctx q (hc_db c) = (db, r)" and "respond r (hc_w c) = (bw, x)"
  shows "Handle h ctx c = (c\<lparr>hc_r := br, hc_db := db, hc_w := bw\<rparr>, x)"
  using assms by (cases c) (auto simp: Handle_def respond_def report_def split: res.splits prod.splits)

section \<open>Steps of the database\<close>

text \<open>A step of the database starts a call, moves one that has not returned, or touches none.\<close>

lemma dstep_calls:
  assumes "dstep wr db db'"
  shows "(\<exists>c. ds_calls db' = ds_calls db @ [c] \<and> answer_of c = [] \<and> ds_hist db' = ds_hist db) \<or>
    (\<exists>i c. i < length (ds_calls db) \<and> ds_calls db' = (ds_calls db)[i := c] \<and> call_result (ds_calls db ! i) = None \<and>
      call_query c = call_query (ds_calls db ! i) \<and> ds_hist db' = ds_hist db @ answer_of c) \<or>
    ds_calls db' = ds_calls db \<and> ds_hist db' = ds_hist db"
  using assms
proof cases
  case (execute i q oj ctx st' r)
  then show ?thesis by (intro disjI2 disjI1 exI [of _ i] exI [of _ "Answered q oj r"]) simp
qed (auto intro!: exI)

text \<open>Calls only come to their return: the query stays, and so does a call that has returned.\<close>

definition calls_grow :: "call list \<Rightarrow> call list \<Rightarrow> bool" where
  "calls_grow cs cs' \<longleftrightarrow> length cs \<le> length cs' \<and>
     (\<forall>j<length cs. call_query (cs' ! j) = call_query (cs ! j) \<and> (call_result (cs ! j) \<noteq> None \<longrightarrow> cs' ! j = cs ! j))"

lemma calls_grow_refl [simp]: "calls_grow cs cs"
  by (simp add: calls_grow_def)

lemma dstep_grow:
  assumes "dstep wr db db'"
  shows "calls_grow (ds_calls db) (ds_calls db')"
  using dstep_calls [OF assms] by (auto simp: calls_grow_def nth_append nth_list_update)

lemma no_answer [simp]: "call_result c = None \<Longrightarrow> answer_of c = []"
  by (cases c) simp_all

text \<open>At most one call reaches the storage in a step.\<close>

lemma newly_update:
  assumes "i < length (ds_calls db)" "ds_calls db' = (ds_calls db)[i := c]" "answer_of (ds_calls db ! i) = []"
  shows "newly db db' = (if answer_of c = [] then [] else [i])"
proof -
  have "newly db db' = filter (\<lambda>k. k = i \<and> answer_of c \<noteq> []) [0..<length (ds_calls db)]"
    using assms by (auto simp: newly_def nth_list_update intro!: filter_cong)
  also have "\<dots> = (if answer_of c = [] then [] else filter (\<lambda>k. k = i) [0..<length (ds_calls db)])" by simp
  also have "filter (\<lambda>k. k = i) [0..<n] = [i]" if "i < n" for n
    using that by (induction n) auto
  finally show ?thesis using assms(1) by simp
qed

lemma dstep_moves:
  assumes "dstep wr db db'" "length (ds_calls db') = length (ds_calls db)"
  obtains i c where "i < length (ds_calls db)" "ds_calls db' = (ds_calls db)[i := c]" "call_result (ds_calls db ! i) = None"
      "ds_hist db' = ds_hist db @ answer_of c" "newly db db' = (if answer_of c = [] then [] else [i])"
    | "ds_calls db' = ds_calls db" "ds_hist db' = ds_hist db" "newly db db' = []"
proof -
  have "newly db db' = []" if "ds_calls db' = ds_calls db" using that by (simp add: newly_def)
  with dstep_calls [OF assms(1)] assms(2) newly_update that no_answer show thesis by fastforce
qed

section \<open>The order of the calls\<close>

text \<open>The order recorded is that of the operations on the storage.\<close>

definition order_inv :: "call list \<Rightarrow> (query \<times> string res) list \<Rightarrow> nat list \<Rightarrow> bool" where
  "order_inv cs h os \<longleftrightarrow> concat (map (\<lambda>j. answer_of (cs ! j)) os) = h \<and> distinct os \<and>
     set os = {j. j < length cs \<and> answer_of (cs ! j) \<noteq> []}"

lemma order_inv_update:
  assumes "order_inv cs h os" "i < length cs" "answer_of (cs ! i) = []"
  shows "order_inv (cs[i := c]) (h @ answer_of c) (os @ (if answer_of c = [] then [] else [i]))"
proof -
  have "i \<notin> set os" using assms(1,3) by (auto simp: order_inv_def)
  then have "map (\<lambda>j. answer_of (cs[i := c] ! j)) os = map (\<lambda>j. answer_of (cs ! j)) os"
    by (intro map_cong refl) (metis nth_list_update_neq)
  then have h: "concat (map (\<lambda>j. answer_of (cs[i := c] ! j)) os) = h" using assms(1) by (simp only: order_inv_def)
  have "set (os @ (if answer_of c = [] then [] else [i])) = {j. j < length (cs[i := c]) \<and> answer_of (cs[i := c] ! j) \<noteq> []}"
    using assms by (auto simp: order_inv_def nth_list_update)
  with \<open>i \<notin> set os\<close> assms(1,2) h show ?thesis by (simp add: order_inv_def)
qed

lemma order_inv_dstep:
  assumes "dstep wr db db'" "length (ds_calls db') = length (ds_calls db)" "order_inv (ds_calls db) (ds_hist db) os"
  shows "order_inv (ds_calls db') (ds_hist db') (os @ newly db db')"
proof (rule dstep_moves [OF assms(1,2)])
  fix i c assume *: "i < length (ds_calls db)" "ds_calls db' = (ds_calls db)[i := c]" "call_result (ds_calls db ! i) = None"
    "ds_hist db' = ds_hist db @ answer_of c" "newly db db' = (if answer_of c = [] then [] else [i])"
  from order_inv_update [OF assms(3) *(1) no_answer [OF *(3)], of c] * show ?thesis by simp
qed (use assms(3) in simp)

lemma order_inv_new:
  assumes "order_inv cs h os" "answer_of c = []"
  shows "order_inv (cs @ [c]) h os"
proof -
  have os: "set os = {j. j < length cs \<and> answer_of (cs ! j) \<noteq> []}" using assms(1) by (simp add: order_inv_def)
  then have "map (\<lambda>j. answer_of ((cs @ [c]) ! j)) os = map (\<lambda>j. answer_of (cs ! j)) os"
    by (intro map_cong refl) (simp add: nth_append)
  then have "concat (map (\<lambda>j. answer_of ((cs @ [c]) ! j)) os) = h" using assms(1) by (simp only: order_inv_def)
  moreover have "set os = {j. j < length (cs @ [c]) \<and> answer_of ((cs @ [c]) ! j) \<noteq> []}"
    unfolding os using assms(2) by (auto simp: nth_append less_Suc_eq split: if_splits)
  ultimately show ?thesis using assms(1) by (simp add: order_inv_def)
qed

section \<open>Writing with faults\<close>

text \<open>
  A writer that has seen no error has handed all on, or keeps it in its buffer; after an error a
  prefix of the data has gone out.
\<close>

definition sent_upto :: "byte list \<Rightarrow> bufw \<Rightarrow> bool" where
  "sent_upto p bw \<longleftrightarrow> (case bw_err bw of None \<Rightarrow> written bw = p | Some e \<Rightarrow> prefix (sk_out (bw_sink bw)) p)"

lemma sent_upto_more: "sent_upto p bw \<Longrightarrow> bw_err bw \<noteq> None \<Longrightarrow> sent_upto (p @ q) bw"
  by (auto simp: sent_upto_def)

lemma Flush_upto:
  assumes "Flush bw = (bw', r)" "sent_upto p bw"
  shows "sent_upto p bw' \<and> (bw_err bw' = None \<longrightarrow> r = Ok () \<and> bw_buf bw' = []) \<and> (\<forall>e. bw_err bw' = Some e \<longrightarrow> r = Fail e)"
  using assms
  by (auto simp: Flush_def sent_upto_def written_def conn_Write_def take_is_prefix
      split: option.splits if_splits prod.splits list.splits fault.splits)

text \<open>The result of a write tells whether the writer is in error.\<close>

definition tells :: "bufw \<Rightarrow> unit res \<Rightarrow> bool" where
  "tells bw r \<longleftrightarrow> r = (case bw_err bw of None \<Rightarrow> Ok () | Some e \<Rightarrow> Fail e)"

lemma bufio_Write_upto:
  "bufio_Write p bw = (bw', r) \<Longrightarrow> sent_upto q bw \<Longrightarrow> sent_upto (q @ p) bw' \<and> tells bw' r"
proof (induction p bw arbitrary: q rule: bufio_Write.induct)
  case (1 p b)
  consider e where "bw_err b = Some e"
    | "bw_err b = None" "length p \<le> bufsize - length (bw_buf b) \<or> bw_buf b = []"
    | "bw_err b = None" "\<not> length p \<le> bufsize - length (bw_buf b)" "bw_buf b \<noteq> []" by fastforce
  then show ?case
  proof cases
    case 1
    then show ?thesis using "1.prems" writer_sticky [OF 1, of p] by (auto simp: tells_def sent_upto_def)
  next
    case 2
    then show ?thesis using "1.prems"
      by (auto simp: bufio_Write.simps [of p b] tells_def sent_upto_def written_def conn_Write_def take_is_prefix
          split: if_splits prod.splits list.splits fault.splits)
  next
    case 3
    let ?k = "bufsize - length (bw_buf b)"
    obtain b1 r1 where f: "Flush (b\<lparr>bw_buf := bw_buf b @ take ?k p\<rparr>) = (b1, r1)" by fastforce
    have "sent_upto (q @ take ?k p) (b\<lparr>bw_buf := bw_buf b @ take ?k p\<rparr>)" using "1.prems"(2) 3(1) by (simp add: sent_upto_def written_def)
    note b1 = Flush_upto [OF f this]
    show ?thesis
    proof (cases "bw_err b1")
      case None
      then have "bufio_Write (drop ?k p) b1 = (bw', r)"
        using "1.prems"(1) 3 f b1 by (simp add: bufio_Write.simps [of p b] Let_def)
      from "1.IH" [OF 3 refl f [symmetric] _ this, of "()" "q @ take ?k p"] None b1 show ?thesis by simp
    next
      case (Some e)
      then have "bw' = b1" "r = Fail e" using "1.prems"(1) 3 f b1 by (auto simp: bufio_Write.simps [of p b] Let_def)
      with Some b1 sent_upto_more [of "q @ take ?k p" b1 "drop ?k p"] show ?thesis by (simp add: tells_def)
    qed
  qed
qed

text \<open>Between two calls of the handler the buffer is empty, or the writer is in error.\<close>

definition sent_all :: "byte list \<Rightarrow> bufw \<Rightarrow> bool" where
  "sent_all p bw \<longleftrightarrow> sent_upto p bw \<and> (bw_err bw = None \<longrightarrow> bw_buf bw = [])"

lemma handler_write_upto:
  assumes "handler_write v bw = (bw', r)" "sent_upto p bw"
  shows "sent_all (p @ reply v) bw' \<and> tells bw' r"
proof -
  obtain b1 r1 where b1: "bufio_Write (reply v) bw = (b1, r1)" by fastforce
  note w = bufio_Write_upto [OF this assms(2)]
  show ?thesis
  proof (cases "bw_err b1")
    case None
    with w have "Flush b1 = (bw', r)" using assms(1) b1 by (simp add: handler_write_def tells_def reply_def)
    from Flush_upto [OF this] w show ?thesis by (auto simp: sent_all_def tells_def split: option.splits)
  next
    case (Some e)
    with w show ?thesis using assms(1) b1 by (auto simp: handler_write_def tells_def reply_def sent_all_def)
  qed
qed

definition err_reply :: "goerr \<Rightarrow> byte list" where
  "err_reply e = (if errors_Is e EOF then [] else reply (error_text e))"

lemma handler_writeError_upto:
  assumes "handler_writeError e bw = (bw', r)" "sent_all p bw"
  shows "sent_all (p @ err_reply e) bw'"
proof (cases "errors_Is e EOF")
  case False
  then have "handler_write (error_text e) bw = (bw', r)"
    using assms(1) by (simp add: handler_writeError_def handler_write_def)
  from handler_write_upto [OF this, of p] False assms(2) show ?thesis by (simp add: err_reply_def sent_all_def)
qed (use assms in \<open>simp_all add: handler_writeError_def err_reply_def\<close>)

text \<open>What the client gets for the result of a call.\<close>

definition res_reply :: "string res \<Rightarrow> byte list" where
  "res_reply r = (case r of Ok v \<Rightarrow> reply v | Fail e \<Rightarrow> err_reply e | _ \<Rightarrow> [])"

lemma respond_upto:
  assumes "respond r bw = (bw', x)" "sent_all p bw"
  shows "sent_all (p @ res_reply r) bw'"
proof (cases r)
  case (Ok v)
  obtain b1 r1 where b1: "handler_write v bw = (b1, r1)" by fastforce
  note w = handler_write_upto [OF this, of p]
  have "bw' = b1"
    using assms Ok b1 w writer_sticky [of b1]
    by (auto simp: respond_def sent_all_def tells_def handler_writeError_def split: option.splits if_splits)
  with w assms(2) Ok show ?thesis by (simp add: sent_all_def res_reply_def)
qed (use assms in \<open>auto simp: respond_def res_reply_def intro: handler_writeError_upto\<close>)

section \<open>One connection\<close>

text \<open>The calls of a connection, in the order of its lines.\<close>

fun entry_call :: "entry \<Rightarrow> nat list" where
  "entry_call (Asked inp j) = [j]"
| "entry_call _ = []"

fun entry_line :: "entry \<Rightarrow> byte list" where
  "entry_line (Asked inp j) = inp"
| "entry_line (BadLine inp e) = inp"
| "entry_line (NoLine e) = []"

fun is_NoLine :: "entry \<Rightarrow> bool" where
  "is_NoLine (NoLine e) = True"
| "is_NoLine _ = False"

definition logged_calls :: "tcp_session \<Rightarrow> nat list" where
  "logged_calls x = concat (map entry_call (ss_log x))"

definition sess_calls :: "tcp_session \<Rightarrow> nat list" where
  "sess_calls x = logged_calls x @ (case ss_wait x of None \<Rightarrow> [] | Some (inp, j) \<Rightarrow> [j])"

definition sess_lines :: "tcp_session \<Rightarrow> byte list list" where
  "sess_lines x = map entry_line (ss_log x) @ (case ss_wait x of None \<Rightarrow> [] | Some (inp, j) \<Rightarrow> [inp])"

text \<open>A line was parsed to the query of its call, or to an error.\<close>

fun entry_ok :: "call list \<Rightarrow> entry \<Rightarrow> bool" where
  "entry_ok cs (Asked inp j) \<longleftrightarrow> j < length cs \<and> Parse inp = Ok (call_query (cs ! j)) \<and> call_result (cs ! j) \<noteq> None"
| "entry_ok cs (BadLine inp e) \<longleftrightarrow> Parse inp = Fail e"
| "entry_ok cs (NoLine e) \<longleftrightarrow> True"

text \<open>What the client gets for a line.\<close>

fun entry_reply :: "call list \<Rightarrow> entry \<Rightarrow> byte list" where
  "entry_reply cs (Asked inp j) = (case call_result (cs ! j) of None \<Rightarrow> [] | Some r \<Rightarrow> res_reply r)"
| "entry_reply cs (BadLine inp e) = err_reply e"
| "entry_reply cs (NoLine e) = err_reply e"

definition replies :: "call list \<Rightarrow> tcp_session \<Rightarrow> byte list" where
  "replies cs x = concat (map (entry_reply cs) (ss_log x))"

definition wait_ok :: "call list \<Rightarrow> tcp_session \<Rightarrow> bool" where
  "wait_ok cs x \<longleftrightarrow> (case ss_wait x of None \<Rightarrow> True | Some (inp, j) \<Rightarrow> j < length cs \<and> Parse inp = Ok (call_query (cs ! j)))"

definition sess_ok :: "call list \<Rightarrow> tcp_session \<Rightarrow> bool" where
  "sess_ok cs x \<longleftrightarrow> list_all (entry_ok cs) (ss_log x) \<and> wait_ok cs x \<and> sent_all (replies cs x) (ss_w x)"

lemma entry_grow: "calls_grow cs cs' \<Longrightarrow> entry_ok cs y \<Longrightarrow> entry_ok cs' y \<and> entry_reply cs' y = entry_reply cs y"
  by (cases y) (auto simp: calls_grow_def)

lemma sess_ok_grow:
  assumes "calls_grow cs cs'" "sess_ok cs x"
  shows "sess_ok cs' x"
proof -
  have "list_all (entry_ok cs') (ss_log x)" "map (entry_reply cs') (ss_log x) = map (entry_reply cs) (ss_log x)"
    using assms entry_grow [OF assms(1)] by (auto simp: sess_ok_def list_all_iff)
  moreover have "wait_ok cs' x" using assms by (auto simp: sess_ok_def wait_ok_def calls_grow_def split: option.splits)
  ultimately show ?thesis using assms(2) by (simp only: sess_ok_def replies_def)
qed

text \<open>The lines of a connection are those of its bytes, until its reader fails.\<close>

definition is_line :: "byte list \<Rightarrow> bool" where
  "is_line inp \<longleftrightarrow> inp \<noteq> [] \<and> last inp = newline \<and> newline \<notin> set (butlast inp)"

definition lines_ok :: "tcp_session \<Rightarrow> bool" where
  "lines_ok x \<longleftrightarrow> list_all (\<lambda>y. \<not> is_NoLine y) (ss_log x) \<longrightarrow>
     bufr_ok (ss_r x) \<and> list_all is_line (sess_lines x) \<and> src_bytes (ss_src x) = concat (sess_lines x) @ avail (ss_r x)"

lemma ReadBytes_is_line:
  assumes "bufr_ok b" "ReadBytes newline b = (b', Ok (inp, None))"
  shows "is_line inp \<and> avail b = inp @ avail b' \<and> bufr_ok b'"
proof (cases "newline \<in> set (avail b)")
  case True
  then obtain u v where uv: "avail b = u @ newline # v" "newline \<notin> set u" using split_list_first by fast
  from ReadBytes_line [OF assms(1) uv(2,1)] assms(2) uv show ?thesis by (auto simp: is_line_def)
next
  case False
  from ReadBytes_loop_end [OF assms(1) this, of "[]"] assms(2) show ?thesis
    by (auto simp: ReadBytes_def split: option.splits)
qed

text \<open>The connection after each of its steps.\<close>

lemma read_query_ok:
  assumes "sess_ok cs x" "calls_grow cs (cs @ [c])" "ss_wait x = None" "Parse inp = Ok (call_query c)"
  shows "sess_ok (cs @ [c]) (x\<lparr>ss_r := br, ss_wait := Some (inp, length cs)\<rparr>)"
  using sess_ok_grow [OF assms(2,1)] assms(3,4) by (simp add: sess_ok_def wait_ok_def replies_def)

lemma read_bad_ok:
  assumes "sess_ok cs x" "entry_ok cs y" "entry_reply cs y = err_reply e" "ss_wait x = None" "handler_writeError e (ss_w x) = (bw, r)"
  shows "sess_ok cs (x\<lparr>ss_r := br, ss_w := bw, ss_open := g, ss_log := ss_log x @ [y]\<rparr>)"
  using assms handler_writeError_upto [OF assms(5), of "replies cs x"] by (simp add: sess_ok_def wait_ok_def replies_def)

lemma answer_call_ok:
  assumes "sess_ok cs x" "ss_wait x = Some (inp, j)" "call_result (cs ! j) = Some r" "respond r (ss_w x) = (bw, res)"
  shows "sess_ok cs (x\<lparr>ss_w := bw, ss_wait := None, ss_open := g, ss_log := ss_log x @ [Asked inp j]\<rparr>)"
  using assms respond_upto [OF assms(4), of "replies cs x"] by (simp add: sess_ok_def wait_ok_def replies_def)

lemma read_line_ok:
  assumes "lines_ok x" "ss_wait x = None" "ReadBytes newline (ss_r x) = (br, Ok (inp, None))"
  shows "lines_ok (x\<lparr>ss_r := br, ss_wait := Some (inp, j)\<rparr>)"
    and "lines_ok (x\<lparr>ss_r := br, ss_w := bw, ss_open := g, ss_log := ss_log x @ [BadLine inp e]\<rparr>)"
  using assms ReadBytes_is_line [OF _ assms(3)] by (auto simp: lines_ok_def sess_lines_def)

section \<open>All connections\<close>

text \<open>The calls of a connection reach the storage in the order of its lines.\<close>

definition in_order :: "nat list \<Rightarrow> tcp_session \<Rightarrow> bool" where
  "in_order os x \<longleftrightarrow> filter (\<lambda>j. j \<in> set (sess_calls x)) os = filter (\<lambda>j. j \<in> set os) (sess_calls x)"

definition server_inv :: "'s server \<Rightarrow> bool" where
  "server_inv s \<longleftrightarrow> order_inv (ds_calls (sr_db s)) (ds_hist (sr_db s)) (sr_order s) \<and>
     list_all (\<lambda>x. sess_ok (ds_calls (sr_db s)) x \<and> lines_ok x \<and> in_order (sr_order s) x) (sr_sess s) \<and>
     mset (concat (map sess_calls (sr_sess s))) = mset [0..<length (ds_calls (sr_db s))]"

lemma filter_absent: "i \<notin> set xs \<Longrightarrow> filter (\<lambda>j. j = i \<or> P j) xs = filter P xs"
  by (auto intro: filter_cong)

lemma in_order_fresh: "in_order os x \<Longrightarrow> sess_calls y = sess_calls x @ [j] \<Longrightarrow> j \<notin> set os \<Longrightarrow> in_order os y"
  by (simp add: in_order_def filter_absent)

lemma in_order_same: "in_order os x \<Longrightarrow> sess_calls y = sess_calls x \<Longrightarrow> in_order os y"
  by (simp add: in_order_def)

lemma logged_returned:
  assumes "sess_ok cs x" "j \<in> set (logged_calls x)"
  shows "call_result (cs ! j) \<noteq> None"
proof -
  from assms(2) obtain y where y: "y \<in> set (ss_log x)" "j \<in> set (entry_call y)" by (auto simp: logged_calls_def)
  then have "entry_ok cs y" using assms(1) by (auto simp: sess_ok_def list_all_iff)
  with y(2) show ?thesis by (cases y rule: entry.exhaust) auto
qed

text \<open>A call that reaches the storage is the last of its connection.\<close>

lemma in_order_newly:
  assumes "in_order os x" "sess_ok cs x" "call_result (cs ! i) = None" "i \<notin> set os"
  shows "in_order (os @ [i]) x"
proof (cases "i \<in> set (sess_calls x)")
  case True
  have log: "i \<notin> set (logged_calls x)" using logged_returned [OF assms(2)] assms(3) by blast
  with True have "sess_calls x = logged_calls x @ [i]" by (cases "ss_wait x") (auto simp: sess_calls_def)
  then show ?thesis using assms(1,4) filter_absent [OF log] by (simp add: in_order_def)
next
  case False
  then show ?thesis using assms(1) filter_absent [OF False] by (simp add: in_order_def)
qed

lemma sess_calls_step [simp]:
  "sess_calls (x\<lparr>ss_r := br, ss_w := bw, ss_open := g, ss_log := ss_log x @ [BadLine inp e]\<rparr>) = sess_calls x"
  "sess_calls (x\<lparr>ss_r := br, ss_w := bw, ss_open := g, ss_log := ss_log x @ [NoLine e]\<rparr>) = sess_calls x"
  "ss_wait x = Some (inp, j) \<Longrightarrow>
   sess_calls (x\<lparr>ss_w := bw, ss_wait := None, ss_open := g, ss_log := ss_log x @ [Asked inp j]\<rparr>) = sess_calls x"
  "ss_wait x = None \<Longrightarrow> sess_calls (x\<lparr>ss_r := br, ss_wait := Some (inp, j)\<rparr>) = sess_calls x @ [j]"
  by (simp_all add: sess_calls_def logged_calls_def)

text \<open>A step of one connection that leaves the calls as they are.\<close>

lemma server_inv_sess:
  assumes "server_inv s" "i < length (sr_sess s)" "sess_calls y = sess_calls (sr_sess s ! i)"
    and "sess_ok (ds_calls (sr_db s)) y" "lines_ok y"
  shows "server_inv (s\<lparr>sr_sess := (sr_sess s)[i := y]\<rparr>)"
proof -
  have "in_order (sr_order s) y" using assms(1-3) in_order_same by (auto simp: server_inv_def list_all_length)
  with assms mset_concat_update [OF assms(2), of sess_calls y] show ?thesis
    by (simp add: server_inv_def list_all_update)
qed

lemma server_inv_at:
  assumes "server_inv s" "i < length (sr_sess s)" "sr_sess s ! i = x"
  shows "sess_ok (ds_calls (sr_db s)) x" "lines_ok x" "in_order (sr_order s) x"
  using assms by (auto simp: server_inv_def list_all_length)

lemma server_inv_read:
  assumes "server_inv s" "i < length (sr_sess s)" "sr_sess s ! i = x" "ss_wait x = None"
    and "ReadBytes newline (ss_r x) = (br, Ok (inp, None))" "Parse inp = Ok (call_query c)"
    and "dstep wr (sr_db s) db'" "ds_calls db' = ds_calls (sr_db s) @ [c]"
  shows "server_inv (s\<lparr>sr_db := db',
    sr_sess := (sr_sess s)[i := x\<lparr>ss_r := br, ss_wait := Some (inp, length (ds_calls (sr_db s)))\<rparr>]\<rparr>)"
proof -
  let ?cs = "ds_calls (sr_db s)" and ?y = "x\<lparr>ss_r := br, ss_wait := Some (inp, length (ds_calls (sr_db s)))\<rparr>"
  note x = server_inv_at [OF assms(1-3)]
  have g: "calls_grow ?cs (?cs @ [c])" using dstep_grow [OF assms(7)] assms(8) by simp
  have new: "answer_of c = []" "ds_hist db' = ds_hist (sr_db s)" using dstep_calls [OF assms(7)] assms(8) by (auto dest: arg_cong [of _ _ length])
  have fresh: "length ?cs \<notin> set (sr_order s)" using assms(1) by (auto simp: server_inv_def order_inv_def)
  have "list_all (\<lambda>x. sess_ok (?cs @ [c]) x \<and> lines_ok x \<and> in_order (sr_order s) x) (sr_sess s)"
    using assms(1) sess_ok_grow [OF g] by (simp add: server_inv_def list_all_iff)
  moreover have "sess_ok (?cs @ [c]) ?y" using read_query_ok [OF x(1) g assms(4,6)] .
  moreover have "lines_ok ?y" using read_line_ok(1) [OF x(2) assms(4,5)] .
  moreover have "in_order (sr_order s) ?y" using in_order_fresh [OF x(3) _ fresh] assms(4) by simp
  ultimately show ?thesis
    using assms mset_concat_update [OF assms(2), of sess_calls ?y] order_inv_new [of ?cs _ _ c] new
    by (simp add: server_inv_def list_all_update)
qed

lemma server_inv_db:
  assumes "server_inv s" "dstep wr (sr_db s) db'" "length (ds_calls db') = length (ds_calls (sr_db s))"
  shows "server_inv (s\<lparr>sr_db := db', sr_order := sr_order s @ newly (sr_db s) db'\<rparr>)"
proof -
  have "newly (sr_db s) db' = [] \<or> (\<exists>i. newly (sr_db s) db' = [i] \<and> call_result (ds_calls (sr_db s) ! i) = None)"
    by (rule dstep_moves [OF assms(2,3)]) auto
  moreover have os: "order_inv (ds_calls db') (ds_hist db') (sr_order s @ newly (sr_db s) db')"
    using order_inv_dstep [OF assms(2,3)] assms(1) by (simp add: server_inv_def)
  then have "distinct (sr_order s @ newly (sr_db s) db')" by (simp add: order_inv_def)
  ultimately have "list_all (in_order (sr_order s @ newly (sr_db s) db')) (sr_sess s)"
    using assms(1) in_order_newly by (auto simp: server_inv_def list_all_iff)
  with assms os sess_ok_grow [OF dstep_grow [OF assms(2)]] show ?thesis
    by (auto simp: server_inv_def list_all_iff)
qed

lemma new_session_ok:
  assumes "conn_like src"
  shows "sess_ok cs (new_session src faults) \<and> lines_ok (new_session src faults) \<and>
    in_order os (new_session src faults) \<and> sess_calls (new_session src faults) = []"
  using assms
  by (simp add: new_session_def sess_ok_def wait_ok_def replies_def sent_all_def sent_upto_def lines_ok_def sess_lines_def
      in_order_def sess_calls_def logged_calls_def NewWriter_def written_def)

lemma server_inv_step:
  assumes "serve wr s s'" and "server_inv s"
  shows "server_inv s'"
  using assms(1)
proof cases
  case (accept src faults)
  then show ?thesis using assms(2) new_session_ok [OF accept(2)] by (simp add: server_inv_def)
next
  case (read_query i x br inp q db' c)
  then show ?thesis using server_inv_read [OF assms(2) read_query(2,3,5,6) _ read_query(8,9)] by simp
next
  case (read_bad i x br inp e bw res)
  note x = server_inv_at [OF assms(2) read_bad(2,3)]
  show ?thesis unfolding read_bad(1)
    by (rule server_inv_sess [OF assms(2) read_bad(2)])
      (use read_bad x read_bad_ok [OF x(1) _ _ read_bad(5,8)] read_line_ok(2) [OF x(2) read_bad(5,6)] in simp_all)
next
  case (read_error i x br inp e bw res)
  note x = server_inv_at [OF assms(2) read_error(2,3)]
  show ?thesis unfolding read_error(1)
    by (rule server_inv_sess [OF assms(2) read_error(2)])
      (use read_error x read_bad_ok [OF x(1) _ _ read_error(5,7)] in \<open>simp_all add: lines_ok_def\<close>)
next
  case (answer_call i x inp j r bw res)
  note x = server_inv_at [OF assms(2) answer_call(2,3)]
  show ?thesis unfolding answer_call(1)
    by (rule server_inv_sess [OF assms(2) answer_call(2)])
      (use answer_call x answer_call_ok [OF x(1) answer_call(4,5,6)] in \<open>simp_all add: lines_ok_def sess_lines_def\<close>)
qed (use server_inv_db [OF assms(2)] in simp)

lemma server_inv_reachable:
  assumes "(serve wr)\<^sup>*\<^sup>* (server_start w out st isMaster) s"
  shows "server_inv s"
  using assms
proof (induction rule: rtranclp_induct)
  case base
  show ?case by (simp add: server_inv_def server_start_def db_start_def order_inv_def)
qed (rule server_inv_step)

text \<open>The database of a server takes steps of its own only.\<close>

lemma serve_db: "serve wr s s' \<Longrightarrow> (dstep wr)\<^sup>*\<^sup>* (sr_db s) (sr_db s')"
  by (cases rule: serve.cases, assumption) auto

lemma server_db_reachable:
  assumes "(serve wr)\<^sup>*\<^sup>* (server_start w out st isMaster) s"
  shows "(dstep wr)\<^sup>*\<^sup>* (db_start w out st isMaster) (sr_db s)"
  using assms
proof (induction rule: rtranclp_induct)
  case base
  show ?case by (simp add: server_start_def)
next
  case (step y z)
  then show ?case using serve_db by (metis rtranclp_trans)
qed

text \<open>The storage has run the queries of the calls in the order recorded, with the results they returned.\<close>

lemma order_run:
  assumes "order_inv cs h os"
  shows "map fst h = map (\<lambda>j. call_query (cs ! j)) os \<and> map (Some \<circ> snd) h = map (\<lambda>j. call_result (cs ! j)) os"
proof -
  have "answer_of c = [(call_query c, the (call_result c))] \<and> call_result c \<noteq> None" if "answer_of c \<noteq> []" for c
    using that by (cases c) auto
  then have "map (\<lambda>j. answer_of (cs ! j)) os = map (\<lambda>j. [(call_query (cs ! j), the (call_result (cs ! j)))]) os"
    and res: "\<forall>j\<in>set os. call_result (cs ! j) \<noteq> None"
    using assms by (auto simp: order_inv_def)
  moreover have "concat (map (\<lambda>j. answer_of (cs ! j)) os) = h" using assms by (simp add: order_inv_def)
  ultimately have "h = map (\<lambda>j. (call_query (cs ! j), the (call_result (cs ! j)))) os"
    by (simp only: concat_map_singleton)
  with res show ?thesis by auto
qed

lemma order_grows:
  assumes "(serve wr)\<^sup>*\<^sup>* s1 s2"
  shows "prefix (sr_order s1) (sr_order s2)"
  using assms
proof (induction rule: rtranclp_induct)
  case (step y z)
  from step.hyps(2) have "prefix (sr_order y) (sr_order z)" by cases simp_all
  with step.IH show ?case by simp
qed simp

text \<open>What holds of each connection.\<close>

definition sess_correct :: "'s server \<Rightarrow> tcp_session \<Rightarrow> bool" where
  "sess_correct s x \<longleftrightarrow> (let cs = ds_calls (sr_db s); out = sk_out (bw_sink (ss_w x)) in
     list_all (entry_ok cs) (ss_log x) \<and>
     prefix out (replies cs x) \<and> (bw_err (ss_w x) = None \<longrightarrow> out = replies cs x) \<and>
     (list_all (\<lambda>y. \<not> is_NoLine y) (ss_log x) \<longrightarrow>
        list_all is_line (sess_lines x) \<and> prefix (concat (sess_lines x)) (src_bytes (ss_src x))) \<and>
     filter (\<lambda>j. j \<in> set (sess_calls x)) (sr_order s) = filter (\<lambda>j. j \<in> set (sr_order s)) (sess_calls x))"

lemma sess_correct_inv:
  assumes "server_inv s" "x \<in> set (sr_sess s)"
  shows "sess_correct s x"
proof -
  have "sess_ok (ds_calls (sr_db s)) x" "lines_ok x" "in_order (sr_order s) x"
    using assms by (auto simp: server_inv_def list_all_iff)
  then show ?thesis
    by (auto simp: sess_correct_def Let_def sess_ok_def lines_ok_def in_order_def sent_all_def sent_upto_def written_def
        split: option.splits)
qed

section \<open>Two connections\<close>

definition no_log :: wal where
  "no_log = \<lparr>wal_enable = False, wal_queryCh = make_chan 0, wal_queryBuf = [], wal_futureResp = [],
     wal_lsnGen = NewIDGenerator, wal_flushInterval = 0, wal_flushBatchSize = 0, wal_maxSegmentSize = 0, wal_directory = []\<rparr>"

definition one_line :: "string \<Rightarrow> tcp_session" where
  "one_line l = new_session [(bytes_of_string l @ [newline], None)] []"

definition asked :: "string \<Rightarrow> nat \<Rightarrow> bufr \<Rightarrow> tcp_session" where
  "asked l j br = (one_line l)\<lparr>ss_r := br, ss_wait := Some (bytes_of_string l @ [newline], j)\<rparr>"

definition answered :: "string \<Rightarrow> nat \<Rightarrow> bufr \<Rightarrow> bufw \<Rightarrow> tcp_session" where
  "answered l j br bw = (asked l j br)\<lparr>ss_w := bw, ss_wait := None, ss_open := True, ss_log := [Asked (bytes_of_string l @ [newline]) j]\<rparr>"

definition two_calls :: "storage \<Rightarrow> call list \<Rightarrow> (query \<times> string res) list \<Rightarrow> nat list \<Rightarrow> tcp_session list \<Rightarrow> unit server" where
  "two_calls st cs h os xs = \<lparr>sr_db = \<lparr>ds_ws = wal_start no_log (), ds_st = st, ds_isMaster = True, ds_calls = cs, ds_hist = h\<rparr>,
     sr_sess = xs, sr_order = os\<rparr>"

lemma one_line_read:
  assumes "newline \<notin> set (bytes_of_string l)"
  obtains br where "ReadBytes newline (ss_r (one_line l)) = (br, Ok (bytes_of_string l @ [newline], None))"
  using ReadBytes_line [of "ss_r (one_line l)" newline "bytes_of_string l" "[]"] assms
  by (auto simp: one_line_def new_session_def)

lemma asked_respond:
  obtains bw where "respond (Ok v) (ss_w (asked l j br)) = (bw, Ok ())" "sk_out (bw_sink bw) = reply v"
  using handler_write_ok [of "ss_w (asked l j br)" v]
  by (auto simp: asked_def one_line_def new_session_def respond_def written_def NewWriter_def bufw_ok_def)

lemma two_asks:
  assumes l: "newline \<notin> set (bytes_of_string l1)" "newline \<notin> set (bytes_of_string l2)"
    and p: "Parse (bytes_of_string l1 @ [newline]) = Ok q1" "Parse (bytes_of_string l2 @ [newline]) = Ok q2"
    and q: "valid_query q1" "valid_query q2"
  shows "\<exists>b1 b2. (serve wr)\<^sup>*\<^sup>* (server_start no_log () st True)
    (two_calls st [Logged q1 None, Logged q2 None] [] [] [asked l1 0 b1, asked l2 1 b2])"
proof -
  obtain b1 b2 where b: "ReadBytes newline (ss_r (one_line l1)) = (b1, Ok (bytes_of_string l1 @ [newline], None))"
    "ReadBytes newline (ss_r (one_line l2)) = (b2, Ok (bytes_of_string l2 @ [newline], None))"
    using one_line_read [OF l(1)] one_line_read [OF l(2)] by metis
  let ?S = "two_calls st" and ?x1 = "one_line l1" and ?x2 = "one_line l2"
  have x: "ss_open (one_line l)" "ss_wait (one_line l) = None" for l by (simp_all add: one_line_def new_session_def)
  have 0: "server_start no_log () st True = ?S [] [] [] []" by (simp add: server_start_def db_start_def two_calls_def)
  have 1: "serve wr (?S [] [] [] []) (?S [] [] [] [?x1])"
    using accept [of "[(bytes_of_string l1 @ [newline], None)]" wr "?S [] [] [] []" "[]"] by (simp add: two_calls_def one_line_def)
  have 2: "serve wr (?S [] [] [] [?x1]) (?S [] [] [] [?x1, ?x2])"
    using accept [of "[(bytes_of_string l2 @ [newline], None)]" wr "?S [] [] [] [?x1]" "[]"] by (simp add: two_calls_def one_line_def)
  have off: "\<not> IsEnable (ws_wal (ds_ws (sr_db (?S cs h os xs))))" for cs h os xs
    by (simp add: two_calls_def wal_start_def no_log_def IsEnable_def)
  have 3: "serve wr (?S [] [] [] [?x1, ?x2]) (?S [Logged q1 None] [] [] [asked l1 0 b1, ?x2])"
    using read_query [of 0 "?S [] [] [] [?x1, ?x2]", OF _ _ _ _ b(1) p(1) call_unlogged [OF q(1) disjI2 [OF off]]] x
    by (simp add: two_calls_def asked_def)
  have 4: "serve wr (?S [Logged q1 None] [] [] [asked l1 0 b1, ?x2])
      (?S [Logged q1 None, Logged q2 None] [] [] [asked l1 0 b1, asked l2 1 b2])"
    using read_query [of 1 "?S [Logged q1 None] [] [] [asked l1 0 b1, ?x2]",
        OF _ _ _ _ b(2) p(2) call_unlogged [OF q(2) disjI2 [OF off]]] x
    by (simp add: two_calls_def asked_def)
  from 0 1 2 3 4 show ?thesis by (metis (no_types, lifting) converse_rtranclp_into_rtranclp rtranclp.rtrancl_refl)
qed

lemma two_answers:
  assumes e2: "exec Background q2 st = (st2, Ok v2)" and e1: "exec Background q1 st2 = (st1, Ok v1)"
  shows "\<exists>w1 w2. (serve wr)\<^sup>*\<^sup>* (two_calls st [Logged q1 None, Logged q2 None] [] [] [asked l1 0 b1, asked l2 1 b2])
      (two_calls st1 [Answered q1 None (Ok v1), Answered q2 None (Ok v2)] [(q2, Ok v2), (q1, Ok v1)] [1, 0]
        [answered l1 0 b1 w1, answered l2 1 b2 w2]) \<and>
    sk_out (bw_sink w1) = reply v1 \<and> sk_out (bw_sink w2) = reply v2"
proof -
  obtain w1 w2 where w: "respond (Ok v1) (ss_w (asked l1 0 b1)) = (w1, Ok ())" "sk_out (bw_sink w1) = reply v1"
    "respond (Ok v2) (ss_w (asked l2 1 b2)) = (w2, Ok ())" "sk_out (bw_sink w2) = reply v2"
    using asked_respond by metis
  have bg: "ctx_err Background = None" by (simp add: Background_def)
  let ?x1 = "asked l1 0 b1" and ?x2 = "asked l2 1 b2" and ?y1 = "answered l1 0 b1 w1" and ?y2 = "answered l2 1 b2 w2"
  let ?c1 = "Logged q1 None" and ?c2 = "Logged q2 None" and ?d1 = "Answered q1 None (Ok v1)" and ?d2 = "Answered q2 None (Ok v2)"
  let ?h = "[(q2, Ok v2), (q1, Ok v1)]"
  let ?s0 = "two_calls st [?c1, ?c2] [] [] [?x1, ?x2]" and ?s1 = "two_calls st2 [?c1, ?d2] [(q2, Ok v2)] [1] [?x1, ?x2]"
  let ?s2 = "two_calls st1 [?d1, ?d2] ?h [1, 0] [?x1, ?x2]" and ?s3 = "two_calls st1 [?d1, ?d2] ?h [1, 0] [?y1, ?x2]"
  have 1: "serve wr ?s0 ?s1"
    using db_step [of wr ?s0 "sr_db ?s1"] execute [of 1 "sr_db ?s0" q2 None Background st2 "Ok v2" wr] e2 bg
    by (simp add: two_calls_def newly_def upt_rec)
  have 2: "serve wr ?s1 ?s2"
    using db_step [of wr ?s1 "sr_db ?s2"] execute [of 0 "sr_db ?s1" q1 None Background st1 "Ok v1" wr] e1 bg
    by (simp add: two_calls_def newly_def upt_rec)
  have 3: "serve wr ?s2 ?s3"
    using answer_call [of 0 ?s2 ?x1 "bytes_of_string l1 @ [newline]" 0 "Ok v1" w1 "Ok ()" wr] w(1)
    by (simp add: two_calls_def answered_def goes_on_def) (simp add: asked_def one_line_def new_session_def)
  have 4: "serve wr ?s3 (two_calls st1 [?d1, ?d2] ?h [1, 0] [?y1, ?y2])"
    using answer_call [of 1 ?s3 ?x2 "bytes_of_string l2 @ [newline]" 1 "Ok v2" w2 "Ok ()" wr] w(3)
    by (simp add: two_calls_def answered_def goes_on_def) (simp add: asked_def one_line_def new_session_def)
  have "(serve wr)\<^sup>*\<^sup>* ?s0 (two_calls st1 [?d1, ?d2] ?h [1, 0] [?y1, ?y2])"
    using 1 2 3 4 by (meson converse_rtranclp_into_rtranclp rtranclp.rtrancl_refl)
  with w(2,4) show ?thesis by blast
qed

text \<open>
  C3. Clients see one map: any number of connections, each served by its own goroutine, with any
  interleaving of reads, calls and answers, any steps of the log and any faults of the network.
  There is one order of the calls answered, in which a map gives exactly their results; it
  respects time and the order of the lines of each connection. The calls are those of the lines,
  each line is executed at most once as the query it parses to, and a client gets the answers to
  its lines in their order, all of them until a write to its connection fails.
\<close>

theorem sessions_linearizable:
  assumes "storage_inv st" and "(serve wr)\<^sup>*\<^sup>* (server_start w out st isMaster) s1" and "(serve wr)\<^sup>*\<^sup>* s1 s2"
  defines "cs \<equiv> ds_calls (sr_db s2)"
  shows "(\<exists>rs. kv_run (map (\<lambda>j. call_query (cs ! j)) (sr_order s2)) (storage_abs st) = (storage_abs (ds_st (sr_db s2)), rs) \<and>
      map Some rs = map (\<lambda>j. call_result (cs ! j)) (sr_order s2)) \<and>
    distinct (sr_order s2) \<and> set (sr_order s2) = {j. j < length cs \<and> answer_of (cs ! j) \<noteq> []} \<and>
    prefix (sr_order s1) (sr_order s2) \<and>
    mset (concat (map sess_calls (sr_sess s2))) = mset [0..<length cs] \<and> list_all (sess_correct s2) (sr_sess s2)"
proof -
  have run: "(serve wr)\<^sup>*\<^sup>* (server_start w out st isMaster) s2" using assms(2,3) by (rule rtranclp_trans)
  have inv: "server_inv s2" by (rule server_inv_reachable [OF run])
  then have ord: "order_inv cs (ds_hist (sr_db s2)) (sr_order s2)" by (simp add: server_inv_def cs_def)
  have "hist_inv (storage_abs st) (sr_db s2)" by (rule hist_inv_reachable [OF server_db_reachable [OF run] assms(1)])
  then have "kv_run (map (\<lambda>j. call_query (cs ! j)) (sr_order s2)) (storage_abs st) =
      (storage_abs (ds_st (sr_db s2)), map snd (ds_hist (sr_db s2)))"
    using order_run [OF ord] by (simp add: hist_inv_def)
  moreover have "map Some (map snd (ds_hist (sr_db s2))) = map (\<lambda>j. call_result (cs ! j)) (sr_order s2)"
    using order_run [OF ord] by simp
  moreover have "list_all (sess_correct s2) (sr_sess s2)" using sess_correct_inv [OF inv] by (simp add: list_all_iff)
  moreover have "distinct (sr_order s2)" "set (sr_order s2) = {j. j < length cs \<and> answer_of (cs ! j) \<noteq> []}"
    using ord by (simp_all only: order_inv_def)
  moreover have "mset (concat (map sess_calls (sr_sess s2))) = mset [0..<length cs]"
    using inv by (simp only: server_inv_def cs_def)
  ultimately show ?thesis using order_grows [OF assms(3)] by blast
qed

theorem sessions_linearizable_witness:
  "\<exists>st s. (serve (\<lambda>rows u. (u, Ok ())))\<^sup>*\<^sup>* (server_start no_log () st True) s \<and> sr_order s = [1, 0] \<and>
     map (\<lambda>x. sk_out (bw_sink (ss_w x))) (sr_sess s) = [reply ''OK'', reply []] \<and> list_all (sess_correct s) (sr_sess s)"
proof -
  obtain st where st: "storage_inv st" "storage_abs st = Map.empty" using demo_storage by blast
  let ?q1 = "NewQuery SetMethodID [''k'', ''v'']" and ?q2 = "NewQuery GetMethodID [''k'']"
  have bg: "ctx_err Background = None" by (simp add: Background_def)
  obtain st2 where e2: "exec Background ?q2 st = (st2, Ok [])" "storage_inv st2"
    using exec_get [of ?q2 st Background] st bg by (auto simp: NewQuery_def)
  obtain st1 where e1: "exec Background ?q1 st2 = (st1, Ok ''OK'')"
    using exec_write [OF demo_query_ok(3) e2(2) bg] by blast
  have p: "Parse (bytes_of_string ''SET k v'' @ [newline]) = Ok ?q1" "Parse (bytes_of_string ''GET k'' @ [newline]) = Ok ?q2"
    by code_simp+
  have n: "newline \<notin> set (bytes_of_string ''SET k v'')" "newline \<notin> set (bytes_of_string ''GET k'')"
    by (simp_all add: newline_def bytes_of_string_def byte_of_char_def)
  let ?wr = "\<lambda>rows u. (u, Ok ()) :: unit \<times> unit res"
  obtain b1 b2 where r1: "(serve ?wr)\<^sup>*\<^sup>* (server_start no_log () st True)
      (two_calls st [Logged ?q1 None, Logged ?q2 None] [] [] [asked ''SET k v'' 0 b1, asked ''GET k'' 1 b2])"
    using two_asks [OF n p demo_query_ok(1,4)] by blast
  obtain s w1 w2 where r2: "(serve ?wr)\<^sup>*\<^sup>* (server_start no_log () st True) s" "sr_order s = [1, 0]"
      "sr_sess s = [answered ''SET k v'' 0 b1 w1, answered ''GET k'' 1 b2 w2]"
      "sk_out (bw_sink w1) = reply ''OK''" "sk_out (bw_sink w2) = reply []"
    using two_answers [OF e2(1) e1, of ?wr "''SET k v''" b1 "''GET k''" b2] rtranclp_trans [OF r1] by (force simp: two_calls_def)
  from sessions_linearizable [OF st(1) r2(1) rtranclp.rtrancl_refl] have "list_all (sess_correct s) (sr_sess s)" by blast
  moreover have "map (\<lambda>x. sk_out (bw_sink (ss_w x))) (sr_sess s) = [reply ''OK'', reply []]"
    using r2(3-5) by (simp add: answered_def)
  ultimately show ?thesis using r2(1,2) by (intro exI [of _ st] exI [of _ s] conjI)
qed

end
