(* ===== verification/Replica.thy ===== *)
theory Replica
  imports Replication
begin

text \<open>
  A slave that serves reads while it replicates: the replication goroutine
  (\<^verbatim>\<open>internal/database/replication/slave.go\<close>) and the calls of \<^verbatim>\<open>Execute\<close> for \<^verbatim>\<open>GET\<close> work on the same
  storage. \<^verbatim>\<open>getUpdates\<close> is split where a read can come between: after the answer of the master,
  after the log has been written, and after every single row. The master goes on writing.
\<close>

section \<open>The rounds in small steps\<close>

datatype rphase =
    Idle
  | Batches "row list list" "goerr option"
  | Applying "row list" "row list" "row list list" "goerr option"
  | Ended

text \<open>
  \<open>rp_count\<close> counts the rows applied so far, \<open>rp_reads\<close> records each read with the count at its time,
  \<open>rp_rows\<close> are the rows of the master.
\<close>

record ('s, 'n) replica =
  rp_slave :: "('s, 'n) slave"
  rp_phase :: rphase
  rp_count :: nat
  rp_reads :: "(nat \<times> string \<times> string res) list"
  rp_rows :: "row list"

definition log_batch :: "row list \<Rightarrow> ('s, 'n) slave \<Rightarrow> 's \<times> unit res" where
  "log_batch rows s =
     (case sl_logWriter s of Some lw \<Rightarrow> LogWriter_Write lw rows (sl_out s) | None \<Rightarrow> (sl_out s, Ok ()))"

inductive rstep ::
  "(row list \<Rightarrow> 'n \<Rightarrow> bool) \<Rightarrow> 'n tcp_client \<Rightarrow> bool \<Rightarrow> context_t \<Rightarrow> ('s, 'n) replica \<Rightarrow> ('s, 'n) replica \<Rightarrow> bool"
  for grown :: "row list \<Rightarrow> 'n \<Rightarrow> bool" and cl :: "'n tcp_client" and early :: bool and ctx :: context_t where
  request: "rp_phase p = Idle \<Longrightarrow> sendReq cl ctx (sl_lastLsnWritten (rp_slave p) + 1) (sl_cl (rp_slave p)) = (n, Ok resp) \<Longrightarrow>
     rs_Data resp \<noteq> [] \<Longrightarrow> ReadStream (bytes_reads (rs_Data resp)) = (vs, e) \<Longrightarrow> drain early vs e = (batches, err) \<Longrightarrow>
     rstep grown cl early ctx p (p\<lparr>rp_slave := (rp_slave p)\<lparr>sl_cl := n\<rparr>, rp_phase := Batches batches err\<rparr>)"
| empty_answer: "rp_phase p = Idle \<Longrightarrow> sendReq cl ctx (sl_lastLsnWritten (rp_slave p) + 1) (sl_cl (rp_slave p)) = (n, Ok resp) \<Longrightarrow>
     rs_Data resp = [] \<Longrightarrow> rstep grown cl early ctx p (p\<lparr>rp_slave := (rp_slave p)\<lparr>sl_cl := n\<rparr>\<rparr>)"
| no_answer: "rp_phase p = Idle \<Longrightarrow> sendReq cl ctx (sl_lastLsnWritten (rp_slave p) + 1) (sl_cl (rp_slave p)) = (n, Fail e) \<Longrightarrow>
     rstep grown cl early ctx p (p\<lparr>rp_slave := (rp_slave p)\<lparr>sl_cl := n\<rparr>\<rparr>)"
| no_rows: "rp_phase p = Batches ([] # bs) err \<Longrightarrow> rstep grown cl early ctx p (p\<lparr>rp_phase := Batches bs err\<rparr>)"
| logged: "rp_phase p = Batches (rows # bs) err \<Longrightarrow> rows \<noteq> [] \<Longrightarrow> log_batch rows (rp_slave p) = (out, Ok ()) \<Longrightarrow>
     rstep grown cl early ctx p (p\<lparr>rp_slave := (rp_slave p)\<lparr>sl_out := out\<rparr>, rp_phase := Applying rows rows bs err\<rparr>)"
| not_logged: "rp_phase p = Batches (rows # bs) err \<Longrightarrow> rows \<noteq> [] \<Longrightarrow> log_batch rows (rp_slave p) = (out, Fail e) \<Longrightarrow>
     rstep grown cl early ctx p (p\<lparr>rp_slave := (rp_slave p)\<lparr>sl_out := out\<rparr>, rp_phase := Idle\<rparr>)"
| apply_row: "rp_phase p = Applying (r # rs) rows bs err \<Longrightarrow> execStorage ctx [r] (sl_st (rp_slave p)) = (st, Ok ()) \<Longrightarrow>
     rstep grown cl early ctx p
       (p\<lparr>rp_slave := (rp_slave p)\<lparr>sl_st := st\<rparr>, rp_phase := Applying rs rows bs err, rp_count := Suc (rp_count p)\<rparr>)"
| apply_failed: "rp_phase p = Applying (r # rs) rows bs err \<Longrightarrow> execStorage ctx [r] (sl_st (rp_slave p)) = (st, Fail e) \<Longrightarrow>
     rstep grown cl early ctx p (p\<lparr>rp_slave := (rp_slave p)\<lparr>sl_st := st\<rparr>, rp_phase := Idle\<rparr>)"
| batch_done: "rp_phase p = Applying [] rows bs err \<Longrightarrow>
     rstep grown cl early ctx p
       (p\<lparr>rp_slave := (rp_slave p)\<lparr>sl_lastLsnWritten := r_lsnID (last rows)\<rparr>, rp_phase := Batches bs err\<rparr>)"
| round_done: "rp_phase p = Batches [] err \<Longrightarrow> rstep grown cl early ctx p (p\<lparr>rp_phase := Idle\<rparr>)"
| stop_slave: "rstep grown cl early ctx p (p\<lparr>rp_phase := Ended\<rparr>)"
| read_key: "exec Background (NewQuery GetMethodID [key]) (sl_st (rp_slave p)) = (st, r) \<Longrightarrow>
     rstep grown cl early ctx p
       (p\<lparr>rp_slave := (rp_slave p)\<lparr>sl_st := st\<rparr>, rp_reads := rp_reads p @ [(rp_count p, key, r)]\<rparr>)"
| master_writes: "grown (rp_rows p @ new) n \<Longrightarrow>
     rstep grown cl early ctx p (p\<lparr>rp_slave := (rp_slave p)\<lparr>sl_cl := n\<rparr>, rp_rows := rp_rows p @ new\<rparr>)"

text \<open>A slave that has taken \<open>c\<close> of the rows of the master.\<close>

definition replica_start :: "('s, 'n) slave \<Rightarrow> nat \<Rightarrow> row list \<Rightarrow> ('s, 'n) replica" where
  "replica_start s c rows = \<lparr>rp_slave = s, rp_phase = Idle, rp_count = c, rp_reads = [], rp_rows = rows\<rparr>"

section \<open>A round as a run of small steps\<close>

lemma execStorage_Cons:
  "execStorage ctx (r # rs) st = (case execStorage ctx [r] st of (st1, Ok _) \<Rightarrow> execStorage ctx rs st1 | (st1, x) \<Rightarrow> (st1, x))"
  by (simp add: Let_def split: prod.splits res.splits)

lemma apply_run:
  "execStorage ctx rs (sl_st s) = (st, Ok ()) \<Longrightarrow> rp_phase p = Applying rs rows bs err \<Longrightarrow> rp_slave p = s \<Longrightarrow>
   (rstep grown cl early ctx)\<^sup>*\<^sup>* p
     (p\<lparr>rp_slave := s\<lparr>sl_st := st\<rparr>, rp_phase := Applying [] rows bs err, rp_count := rp_count p + length rs\<rparr>)"
proof (induction rs arbitrary: s p)
  case (Cons r rs)
  obtain st1 where st1: "execStorage ctx [r] (sl_st s) = (st1, Ok ())" "execStorage ctx rs st1 = (st, Ok ())"
    using Cons.prems(1) by (subst (asm) execStorage_Cons) (auto simp del: execStorage.simps split: prod.splits res.splits)
  let ?p = "p\<lparr>rp_slave := s\<lparr>sl_st := st1\<rparr>, rp_phase := Applying rs rows bs err, rp_count := Suc (rp_count p)\<rparr>"
  have "rstep grown cl early ctx p ?p" using apply_row [OF Cons.prems(2)] st1(1) Cons.prems(3) by simp
  moreover have "(rstep grown cl early ctx)\<^sup>*\<^sup>* ?p
      (?p\<lparr>rp_slave := s\<lparr>sl_st := st\<rparr>, rp_phase := Applying [] rows bs err, rp_count := rp_count ?p + length rs\<rparr>)"
    using Cons.IH [of "s\<lparr>sl_st := st1\<rparr>" ?p] st1(2) by simp
  ultimately show ?case by (simp add: converse_rtranclp_into_rtranclp)
next
  case Nil
  then show ?case by (cases p; cases s) simp
qed

lemma batches_run:
  "process_batches ctx bs s = (s', Ok ()) \<Longrightarrow> rp_phase p = Batches bs err \<Longrightarrow> rp_slave p = s \<Longrightarrow>
   (rstep grown cl early ctx)\<^sup>*\<^sup>* p
     (p\<lparr>rp_slave := s', rp_phase := Batches [] err, rp_count := rp_count p + length (concat bs)\<rparr>)"
proof (induction bs arbitrary: s p)
  case (Cons rows bs)
  obtain s1 where s1: "processRows ctx rows s = (s1, Ok ())" "process_batches ctx bs s1 = (s', Ok ())"
    using Cons.prems(1) by (auto split: prod.splits res.splits)
  let ?R = "rstep grown cl early ctx"
  let ?p = "p\<lparr>rp_slave := s1, rp_phase := Batches bs err, rp_count := rp_count p + length rows\<rparr>"
  have "?R\<^sup>*\<^sup>* p ?p"
  proof (cases "rows = []")
    case True
    then show ?thesis using no_rows [of p bs err grown cl early ctx] Cons.prems(2,3) s1(1) by (cases p) (auto simp: processRows_def)
  next
    case False
    then obtain out st where o: "log_batch rows s = (out, Ok ())" "execStorage ctx rows (sl_st s) = (st, Ok ())"
      "s1 = s\<lparr>sl_out := out, sl_st := st, sl_lastLsnWritten := r_lsnID (last rows)\<rparr>"
      using s1(1) by (auto simp: processRows_def log_batch_def split: option.splits prod.splits res.splits)
    let ?p1 = "p\<lparr>rp_slave := s\<lparr>sl_out := out\<rparr>, rp_phase := Applying rows rows bs err\<rparr>"
    let ?p2 = "?p1\<lparr>rp_slave := s\<lparr>sl_out := out, sl_st := st\<rparr>, rp_phase := Applying [] rows bs err, rp_count := rp_count p + length rows\<rparr>"
    have "?R p ?p1" using logged [OF Cons.prems(2) False] o(1) Cons.prems(3) by simp
    moreover have "?R\<^sup>*\<^sup>* ?p1 ?p2" using apply_run [of ctx rows "s\<lparr>sl_out := out\<rparr>" st ?p1] o(2) by simp
    moreover have "?R ?p2 ?p" using batch_done [of ?p2 rows bs err grown cl early ctx] o(3) by (cases p) simp
    ultimately show ?thesis by (meson converse_rtranclp_into_rtranclp rtranclp.rtrancl_into_rtrancl)
  qed
  moreover have "?R\<^sup>*\<^sup>* ?p (p\<lparr>rp_slave := s', rp_phase := Batches [] err, rp_count := rp_count p + length (concat (rows # bs))\<rparr>)"
    using Cons.IH [of s1 ?p] s1(2) by (simp add: add.assoc)
  ultimately show ?case by (rule rtranclp_trans)
next
  case Nil
  then show ?case by (cases p) simp
qed

text \<open>A successful call of \<^verbatim>\<open>getUpdates\<close> without a read in between is a run.\<close>

lemma getUpdates_run:
  assumes "getUpdates cl early ctx s = (s', Ok ())" and "rp_phase p = Idle" "rp_slave p = s"
  shows "\<exists>k. (rstep grown cl early ctx)\<^sup>*\<^sup>* p (p\<lparr>rp_slave := s', rp_count := rp_count p + k\<rparr>)"
proof -
  let ?R = "rstep grown cl early ctx"
  obtain n resp where r: "sendReq cl ctx (sl_lastLsnWritten s + 1) (sl_cl s) = (n, Ok resp)"
    using assms(1) by (auto simp: getUpdates_def split: option.splits prod.splits res.splits)
  show ?thesis
  proof (cases "rs_Data resp = []")
    case True
    then have "s' = s\<lparr>sl_cl := n\<rparr>" using assms(1) r by (auto simp: getUpdates_def split: option.splits)
    then have "?R p (p\<lparr>rp_slave := s'\<rparr>)" using empty_answer [OF assms(2), of cl ctx n resp] r True assms(3) by simp
    then show ?thesis by (intro exI [of _ 0]) (cases p, simp add: r_into_rtranclp)
  next
    case False
    then obtain vs e batches err where b: "ReadStream (bytes_reads (rs_Data resp)) = (vs, e)" "drain early vs e = (batches, err)"
      "process_batches ctx batches (s\<lparr>sl_cl := n\<rparr>) = (s', Ok ())"
      using assms(1) r by (auto simp: getUpdates_def Let_def split: option.splits prod.splits res.splits)
    let ?p = "p\<lparr>rp_slave := s\<lparr>sl_cl := n\<rparr>, rp_phase := Batches batches err\<rparr>"
    let ?q = "?p\<lparr>rp_slave := s', rp_phase := Batches [] err, rp_count := rp_count p + length (concat batches)\<rparr>"
    have "?R p ?p" using request [OF assms(2), of cl ctx n resp] r False b(1,2) assms(3) by simp
    moreover have "?R\<^sup>*\<^sup>* ?p ?q" using batches_run [OF b(3), of ?p err] by simp
    moreover have "?R ?q (?q\<lparr>rp_phase := Idle\<rparr>)" by (rule round_done) simp
    ultimately have "?R\<^sup>*\<^sup>* p (?q\<lparr>rp_phase := Idle\<rparr>)" by (meson converse_rtranclp_into_rtranclp rtranclp.rtrancl_into_rtrancl)
    then show ?thesis using assms(2) by (intro exI [of _ "length (concat batches)"]) (cases p, simp)
  qed
qed

section \<open>Reads see prefixes of the master's log\<close>

text \<open>
  A master whose rows stand in its log in the order of their numbers 1, 2, 3 and so on, and together
  fit into one message. The numbers are in this order as long as the writes of the master do not
  cross; where they do, a slave fetches rows again and again.
\<close>

definition numbered :: "row list \<Rightarrow> bool" where
  "numbered rows \<longleftrightarrow> map r_lsnID rows = map word_of_nat [1..<Suc (length rows)] \<and> length rows < 2 ^ 64 - 1 \<and>
     length (encs rows) < 2 ^ 31"

definition numbered_master :: "string \<Rightarrow> row list \<Rightarrow> link \<Rightarrow> bool" where
  "numbered_master d rows n \<longleftrightarrow> numbered rows \<and> (\<exists>fs. master_ok d fs n \<and> all_rows fs = rows)"

lemma numbered_lsn:
  assumes "numbered rows" and i: "i < length rows"
  shows "r_lsnID (rows ! i) = word_of_nat (Suc i)"
proof -
  have "map r_lsnID rows ! i = map word_of_nat [1..<Suc (length rows)] ! i" using assms(1) by (simp add: numbered_def)
  moreover have "[1..<Suc (length rows)] ! i = Suc i" using i by (subst nth_upt) simp_all
  ultimately show ?thesis using i by (simp del: upt_Suc)
qed

lemma word_of_nat_inj64: "(word_of_nat a :: u64) = word_of_nat b \<longleftrightarrow> a = b" if "a < 2 ^ 64" "b < 2 ^ 64"
  using that by (simp add: word_of_nat_eq_iff take_bit_nat_eq_self)

lemma word_of_nat_neq0: "a < 2 ^ 64 - 1 \<Longrightarrow> (word_of_nat a :: u64) + 1 \<noteq> 0"
proof -
  assume a: "a < 2 ^ 64 - 1"
  have "(word_of_nat (Suc a) :: u64) \<noteq> word_of_nat 0" using word_of_nat_inj64 [of "Suc a" 0] a by simp
  then show ?thesis by (simp add: add.commute)
qed

lemma encs_drop: "length (encs (drop c rows)) \<le> length (encs rows)"
proof -
  have "encs rows = encs (take c rows) @ encs (drop c rows)" by (simp add: encs_def flip: concat_append map_append)
  then show ?thesis by simp
qed

lemma ReadStream_encs: "list_all row_ok rows \<Longrightarrow> rows \<noteq> [] \<Longrightarrow> ReadStream (bytes_reads (encs rows)) = ([rows], None)"
  using rows_of_encs [of rows "[]"] by (simp add: ReadStream_def read_bytes)

text \<open>What a slave that has \<open>c\<close> rows gets.\<close>

lemma sendReq_next:
  assumes m: "numbered_master d rows n" and c: "c \<le> length rows" and pc: "cuts pc" and ctx: "ctx_err ctx = None" "\<And>i. wait i = None"
  shows "\<exists>n'. numbered_master d rows n' \<and> sendReq (master_link wait d pc) ctx (word_of_nat c + 1) n =
    (n', if c < length rows then Ok \<lparr>rs_Data = encs (drop c rows), rs_Err = None\<rparr> else Fail ErrNoNewLogs)"
proof -
  obtain fs where fs: "master_ok d fs n" "all_rows fs = rows" and nb: "numbered rows" using m by (auto simp: numbered_master_def)
  have len: "length rows < 2 ^ 64 - 1" using nb by (simp add: numbered_def)
  have l0: "(word_of_nat c :: u64) + 1 \<noteq> 0" using word_of_nat_neq0 [of c] c len by simp
  show ?thesis
  proof (cases "c < length rows")
    case True
    have "all_rows fs = take c rows @ drop c rows" "drop c rows \<noteq> []" "r_lsnID (hd (drop c rows)) = word_of_nat c + 1"
      "length (encs (drop c rows)) < 2 ^ 31"
      using True fs(2) nb numbered_lsn [OF nb True] encs_drop [of c rows] by (auto simp: hd_drop_conv_nth numbered_def add.commute)
    from direct_rows [OF fs(1) pc ctx(1) this(1-3) l0 this(4), of wait] obtain n' where
      "sendReq (master_link wait d pc) ctx (word_of_nat c + 1) n = (n', Ok \<lparr>rs_Data = encs (drop c rows), rs_Err = None\<rparr>)"
      "master_ok d fs n'" by blast
    then show ?thesis using fs(2) nb True unfolding numbered_master_def by (intro exI [of _ n']) auto
  next
    case False
    have "(word_of_nat c :: u64) + 1 \<notin> r_lsnID ` set (all_rows fs)"
    proof
      assume "(word_of_nat c :: u64) + 1 \<in> r_lsnID ` set (all_rows fs)"
      then obtain i where i: "i < length rows" "(word_of_nat (Suc c) :: u64) = word_of_nat (Suc i)"
        using fs(2) numbered_lsn [OF nb] by (auto simp: in_set_conv_nth add.commute)
      have "Suc c < 2 ^ 64" "Suc i < 2 ^ 64" using c i(1) len by linarith+
      with i(2) have "c = i" using word_of_nat_inj64 [of "Suc c" "Suc i"] by blast
      with i(1) False show False by simp
    qed
    from direct_nothing [where wait = wait, OF fs(1) pc ctx l0 this] obtain n' where
      "sendReq (master_link wait d pc) ctx (word_of_nat c + 1) n = (n', Fail ErrNoNewLogs)" "master_ok d fs n'" by blast
    then show ?thesis using fs(2) nb False unfolding numbered_master_def by (intro exI [of _ n']) auto
  qed
qed

text \<open>The invariant: the storage is the replay of the first \<open>rp_count\<close> rows.\<close>

definition read_ok :: "row list \<Rightarrow> nat \<times> string \<times> string res \<Rightarrow> bool" where
  "read_ok rows x \<longleftrightarrow> (case x of (n, key, r) \<Rightarrow>
     n \<le> length rows \<and> r = Ok (case kv_replay (ops_of (take n rows)) Map.empty key of None \<Rightarrow> [] | Some v \<Rightarrow> v))"

fun phase_ok :: "row list \<Rightarrow> nat \<Rightarrow> u64 \<Rightarrow> rphase \<Rightarrow> bool" where
  "phase_ok rows c l Idle \<longleftrightarrow> l = word_of_nat c"
| "phase_ok rows c l (Batches bs err) \<longleftrightarrow> l = word_of_nat c \<and>
     (bs = [] \<or> (\<exists>b. bs = [b] \<and> b \<noteq> [] \<and> c + length b \<le> length rows \<and> b = take (length b) (drop c rows)))"
| "phase_ok rows c l (Applying rs b bs err) \<longleftrightarrow> bs = [] \<and> b \<noteq> [] \<and> c + length rs \<le> length rows \<and>
     rs = take (length rs) (drop c rows) \<and> r_lsnID (last b) = word_of_nat (c + length rs)"
| "phase_ok rows c l Ended \<longleftrightarrow> True"

definition replica_inv :: "string \<Rightarrow> nat \<Rightarrow> ('s, link) replica \<Rightarrow> bool" where
  "replica_inv d c p \<longleftrightarrow> numbered_master d (rp_rows p) (sl_cl (rp_slave p)) \<and> rp_count p \<le> length (rp_rows p) \<and>
     storage_inv (sl_st (rp_slave p)) \<and>
     storage_abs (sl_st (rp_slave p)) = kv_replay (ops_of (take (rp_count p) (rp_rows p))) Map.empty \<and>
     phase_ok (rp_rows p) (rp_count p) (sl_lastLsnWritten (rp_slave p)) (rp_phase p) \<and> c \<le> rp_count p \<and>
     sorted (map fst (rp_reads p)) \<and> list_all (\<lambda>x. read_ok (rp_rows p) x \<and> c \<le> fst x \<and> fst x \<le> rp_count p) (rp_reads p)"

lemma numbered_master_facts:
  assumes "numbered_master d rows n"
  shows "list_all row_ok rows" "list_all (write_query \<circ> query_of) rows" "numbered rows"
  using assms readable_rows_ok unfolding numbered_master_def master_ok_def by fastforce+

lemma read_ok_grow: "read_ok rows x \<Longrightarrow> read_ok (rows @ new) x"
  by (cases x) (auto simp: read_ok_def)

lemma phase_ok_grow: "phase_ok rows c l ph \<Longrightarrow> phase_ok (rows @ new) c l ph"
  by (cases ph) auto

lemma take_one_more:
  assumes "r # rs = take (Suc (length rs)) (drop c rows)"
  shows "take (Suc c) rows = take c rows @ [r] \<and> rs = take (length rs) (drop (Suc c) rows)"
proof -
  have "drop c rows \<noteq> []" using assms by auto
  then have c: "c < length rows" by simp
  then have "r # rs = rows ! c # take (length rs) (drop (Suc c) rows)" using assms by (simp flip: Cons_nth_drop_Suc)
  with c show ?thesis by (simp add: take_Suc_conv_app_nth)
qed

lemma last_of_slice:
  assumes "b = take (length b) (drop c rows)" "b \<noteq> []" "c + length b \<le> length rows"
  shows "last b = rows ! (c + (length b - 1))"
proof -
  have "last b = take (length b) (drop c rows) ! (length b - 1)" using assms(1,2) last_conv_nth by metis
  then show ?thesis using assms(2,3) by simp
qed

text \<open>What the invariant says of the phase, and of the answer to the next request.\<close>

lemma replica_inv_phase:
  "replica_inv d c p \<Longrightarrow> rp_phase p = ph \<Longrightarrow> phase_ok (rp_rows p) (rp_count p) (sl_lastLsnWritten (rp_slave p)) ph"
  by (simp add: replica_inv_def)

lemma replica_inv_master:
  assumes "replica_inv d c p"
  shows "numbered_master d (rp_rows p) (sl_cl (rp_slave p))" "rp_count p \<le> length (rp_rows p)"
  using assms by (simp_all add: replica_inv_def)

lemma replica_inv_answer:
  assumes "replica_inv d c p" "cuts pc" "ctx_err ctx = None" "\<And>i. wait i = None" "rp_phase p = Idle"
    and "sendReq (master_link wait d pc) ctx (sl_lastLsnWritten (rp_slave p) + 1) (sl_cl (rp_slave p)) = (n, r)"
  shows "numbered_master d (rp_rows p) n \<and>
    r = (if rp_count p < length (rp_rows p) then Ok \<lparr>rs_Data = encs (drop (rp_count p) (rp_rows p)), rs_Err = None\<rparr> else Fail ErrNoNewLogs)"
proof -
  have "\<exists>n'. numbered_master d (rp_rows p) n' \<and> sendReq (master_link wait d pc) ctx (word_of_nat (rp_count p) + 1) (sl_cl (rp_slave p)) =
    (n', if rp_count p < length (rp_rows p) then Ok \<lparr>rs_Data = encs (drop (rp_count p) (rp_rows p)), rs_Err = None\<rparr> else Fail ErrNoNewLogs)"
    using sendReq_next [OF replica_inv_master [OF assms(1)] assms(2,3), of wait] assms(4) by blast
  then show ?thesis using replica_inv_phase [OF assms(1,5)] assms(6) by auto
qed

lemma replica_inv_client:
  "replica_inv d c p \<Longrightarrow> numbered_master d (rp_rows p) n \<Longrightarrow> phase_ok (rp_rows p) (rp_count p) (sl_lastLsnWritten (rp_slave p)) ph \<Longrightarrow>
   replica_inv d c (p\<lparr>rp_slave := (rp_slave p)\<lparr>sl_cl := n\<rparr>, rp_phase := ph\<rparr>)"
  by (simp add: replica_inv_def)

text \<open>The number of the last row of a batch, and the row to be applied next.\<close>

lemma replica_inv_batch:
  assumes "replica_inv d c p" "rp_phase p = Batches (rows # bs) err" "rows \<noteq> []"
  shows "bs = [] \<and> rp_count p + length rows \<le> length (rp_rows p) \<and> rows = take (length rows) (drop (rp_count p) (rp_rows p)) \<and>
    r_lsnID (last rows) = word_of_nat (rp_count p + length rows)"
proof -
  have b: "bs = []" "rp_count p + length rows \<le> length (rp_rows p)" "rows = take (length rows) (drop (rp_count p) (rp_rows p))"
    using replica_inv_phase [OF assms(1,2)] by auto
  have "0 < length rows" using assms(3) by simp
  then have "rp_count p + (length rows - 1) < length (rp_rows p)" "Suc (rp_count p + (length rows - 1)) = rp_count p + length rows"
    using b(2) by linarith+
  then have "r_lsnID (last rows) = word_of_nat (rp_count p + length rows)"
    using last_of_slice [OF b(3) assms(3) b(2)]
      numbered_lsn [OF numbered_master_facts(3) [OF replica_inv_master(1) [OF assms(1)]], of "rp_count p + (length rows - 1)"] by metis
  with b show ?thesis by blast
qed

lemma replica_inv_row:
  assumes "replica_inv d c p" "rp_phase p = Applying (r # rs) rows bs err" "ctx_err ctx = None"
  shows "take (Suc (rp_count p)) (rp_rows p) = take (rp_count p) (rp_rows p) @ [r] \<and>
    rs = take (length rs) (drop (Suc (rp_count p)) (rp_rows p)) \<and>
    (\<exists>st. execStorage ctx [r] (sl_st (rp_slave p)) = (st, Ok ()) \<and> storage_inv st \<and>
      storage_abs st = kv_replay (ops_of [r]) (storage_abs (sl_st (rp_slave p))))"
proof -
  have t: "take (Suc (rp_count p)) (rp_rows p) = take (rp_count p) (rp_rows p) @ [r]"
    "rs = take (length rs) (drop (Suc (rp_count p)) (rp_rows p))"
    using replica_inv_phase [OF assms(1,2)] take_one_more [of r rs "rp_count p" "rp_rows p"] by auto
  have "r \<in> set (rp_rows p)" using t(1) by (metis in_set_conv_decomp in_set_takeD)
  then have "list_all (write_query \<circ> query_of) [r]"
    using numbered_master_facts(2) [OF replica_inv_master(1) [OF assms(1)]] by (simp add: list_all_iff)
  then show ?thesis
    using t execStorage_replay [of "[r]" "sl_st (rp_slave p)" ctx] assms(1,3) by (auto simp: replica_inv_def)
qed

lemma replica_inv_step:
  assumes "rstep (numbered_master d) (master_link wait d pc) early ctx p p'" and inv: "replica_inv d c p"
    and pc: "cuts pc" and ctx: "ctx_err ctx = None" "\<And>i. wait i = None"
  shows "replica_inv d c p'"
  using assms(1)
proof cases
  case (request n resp vs e batches err)
  let ?rows = "drop (rp_count p) (rp_rows p)"
  have r: "numbered_master d (rp_rows p) n" "rp_count p < length (rp_rows p)" "rs_Data resp = encs ?rows"
    using replica_inv_answer [OF inv pc ctx request(2,3)] by (auto split: if_splits)
  have "list_all row_ok ?rows"
    using numbered_master_facts(1) [OF replica_inv_master(1) [OF inv]] by (auto simp: list_all_iff dest: in_set_dropD)
  then have "batches = [?rows]" "err = None" using request(5,6) r(2,3) ReadStream_encs [of ?rows] by auto
  then show ?thesis unfolding request(1) using replica_inv_phase [OF inv request(2)] r
    by (intro replica_inv_client [OF inv]) auto
next
  case (empty_answer n resp)
  then show ?thesis using replica_inv_answer [OF inv pc ctx empty_answer(2,3)] inv by (auto simp: replica_inv_def)
next
  case (no_answer n e)
  then show ?thesis using replica_inv_answer [OF inv pc ctx no_answer(2,3)] inv by (auto simp: replica_inv_def)
next
  case (logged rows bs err out)
  then show ?thesis using replica_inv_batch [OF inv logged(2,3)] inv by (simp add: replica_inv_def)
next
  case (apply_row r rs rows bs err st)
  moreover have "list_all (\<lambda>x. read_ok (rp_rows p) x \<and> c \<le> fst x \<and> fst x \<le> Suc (rp_count p)) (rp_reads p)"
    using inv by (auto simp: replica_inv_def list_all_iff)
  ultimately show ?thesis using replica_inv_row [OF inv apply_row(2) ctx(1)] replica_inv_phase [OF inv apply_row(2)] inv
    by (auto simp: replica_inv_def ops_of_def)
next
  case (apply_failed r rs rows bs err st e)
  then show ?thesis using replica_inv_row [OF inv apply_failed(2) ctx(1)] by auto
next
  case (read_key key st r)
  have "storage_inv st" "storage_abs st = storage_abs (sl_st (rp_slave p))"
    "r = Ok (case storage_abs (sl_st (rp_slave p)) key of None \<Rightarrow> [] | Some v \<Rightarrow> v)"
    using exec_get [of "NewQuery GetMethodID [key]" "sl_st (rp_slave p)" Background] inv read_key(2)
    by (auto simp: NewQuery_def Background_def replica_inv_def)
  then show ?thesis using inv read_key(1)
    by (auto simp: replica_inv_def read_ok_def sorted_append list_all_iff)
next
  case (master_writes new n)
  have "list_all (\<lambda>x. read_ok (rp_rows p @ new) x \<and> c \<le> fst x \<and> fst x \<le> rp_count p) (rp_reads p)"
    using inv by (auto simp: replica_inv_def list_all_iff read_ok_grow)
  then show ?thesis using inv master_writes phase_ok_grow by (auto simp: replica_inv_def)
qed (use inv in \<open>auto simp: replica_inv_def\<close>)

lemma replica_inv_reachable:
  assumes "(rstep (numbered_master d) (master_link wait d pc) early ctx)\<^sup>*\<^sup>* (replica_start s c rows) p"
    and "numbered_master d rows (sl_cl s)" "c \<le> length rows" "storage_inv (sl_st s)"
      "storage_abs (sl_st s) = kv_replay (ops_of (take c rows)) Map.empty" "sl_lastLsnWritten s = word_of_nat c"
    and "cuts pc" "ctx_err ctx = None" "\<And>i. wait i = None"
  shows "replica_inv d c p"
  using assms(1)
proof (induction rule: rtranclp_induct)
  case base
  show ?case using assms(2-6) by (simp add: replica_inv_def replica_start_def)
next
  case (step y z)
  show ?case by (rule replica_inv_step [OF step.hyps(2) step.IH assms(7-9)])
qed

section \<open>Properties\<close>

text \<open>
  C6. Reads on a slave see the past of its master, and never go back. The slave has taken the first
  \<open>c\<close> rows of the master (none, when it is new), remembers the number \<open>c\<close>, and has a log of its own or
  none; the master goes on writing, and its log stays in the order of the numbers 1, 2, 3 and so on
  and within one message; the connection works, in whatever pieces it delivers. Whatever the
  disk of the slave does, every read that comes between any two steps returns the value
  after some number of the rows of the master's log, at least \<open>c\<close>, and these numbers never decrease
  from one read to the next.
\<close>

theorem replica_reads_prefixes:
  assumes "numbered_master d rows (sl_cl s)" "c \<le> length rows" "storage_inv (sl_st s)"
      "storage_abs (sl_st s) = kv_replay (ops_of (take c rows)) Map.empty" "sl_lastLsnWritten s = word_of_nat c"
    and "cuts pc" "ctx_err ctx = None" "\<And>i. wait i = None"
    and "(rstep (numbered_master d) (master_link wait d pc) early ctx)\<^sup>*\<^sup>* (replica_start s c rows) p"
  shows "sorted (map fst (rp_reads p)) \<and>
    list_all (\<lambda>(n, key, r). c \<le> n \<and> n \<le> length (rp_rows p) \<and>
      r = Ok (case kv_replay (ops_of (take n (rp_rows p))) Map.empty key of None \<Rightarrow> [] | Some v \<Rightarrow> v)) (rp_reads p)"
proof -
  have "replica_inv d c p" by (rule replica_inv_reachable [OF assms(9,1-8)])
  then show ?thesis by (auto simp: replica_inv_def read_ok_def list_all_iff)
qed

text \<open>A new slave with a log of its own takes one row, with a read before and after.\<close>

theorem replica_reads_prefixes_witness:
  "\<exists>n out st p. (rstep (numbered_master ''wal'') (master_link (\<lambda>_. None) ''wal'' bytewise) True Background)\<^sup>*\<^sup>*
       (replica_start (demo_slave n out st) 0 [NewRow 1 SetMethodID [''k'', ''v'']]) p \<and>
     log_has ''wal'' 1 out [] \<and> slave_logs ''wal'' 0 (rp_slave p) [NewRow 1 SetMethodID [''k'', ''v'']] \<and>
     rp_reads p = [(0, ''k'', Ok []), (1, ''k'', Ok ''v'')]"
proof -
  let ?r = "NewRow 1 SetMethodID [''k'', ''v'']" and ?d = "''wal''"
  let ?cl = "master_link (\<lambda>_. None) ?d bytewise"
  let ?R = "rstep (numbered_master ?d) ?cl True Background"
  have r: "list_all row_ok [?r]" "list_all (write_query \<circ> query_of) [?r]" "length (encs [?r]) < 2 ^ 31" "r_lsnID ?r = 1"
    by (simp_all add: row_ok_def write_query_def query_of_def NewRow_def NewQuery_def enc_def Marshal_def encs_def)
  have bg: "ctx_err Background = None" by (simp add: Background_def)
  obtain fs n where "master_ok ?d fs n" "all_rows fs = [?r]" using demo_master [OF r(1) _ _ r(2)] by auto
  then have m: "numbered_master ?d [?r] n" using r(3,4) by (auto simp: numbered_master_def numbered_def)
  obtain st where st: "storage_inv st" "storage_abs st = Map.empty" using demo_storage by blast
  obtain out where out: "log_has ?d 1 out []" using demo_log log_has_le [of ?d 3 _ "[]" 1] by fastforce
  obtain out' where out': "wal_writer [?r] out = (out', Ok ())" "log_has ?d 0 out' [?r]"
    using lws.twrite_ok [of ?d 0 "[?r]" out "[]"] out r(1) by auto
  define s where "s = demo_slave n out st"
  have s: "sl_cl s = n" "sl_lastLsnWritten s = 0" "sl_st s = st" "sl_out s = out"
    "sl_logWriter s = Some (NewLogWriter (Some manager_target))" by (simp_all add: s_def demo_slave_def NewSlaveWithWal_def)
  obtain n' where n': "sendReq ?cl Background (0 + 1) n = (n', Ok \<lparr>rs_Data = encs [?r], rs_Err = None\<rparr>)"
    using sendReq_next [OF m, of 0 bytewise Background "\<lambda>_. None"] cuts_bytewise bg by auto
  obtain st1 r1 where g1: "exec Background (NewQuery GetMethodID [''k'']) st = (st1, r1)" "storage_inv st1"
    using exec_get [of "NewQuery GetMethodID [''k'']" st Background] st(1) bg by (auto simp: NewQuery_def)
  obtain st2 where x: "execStorage Background [?r] st1 = (st2, Ok ())" "storage_inv st2"
    using execStorage_replay [OF r(2) g1(2) bg] by blast
  obtain st3 r3 where g3: "exec Background (NewQuery GetMethodID [''k'']) st2 = (st3, r3)" "storage_inv st3"
    using exec_get [of "NewQuery GetMethodID [''k'']" st2 Background] x(2) bg by (auto simp: NewQuery_def)
  define mk where "mk = (\<lambda>l v u ph c rd. \<lparr>rp_slave = s\<lparr>sl_cl := l, sl_st := v, sl_out := u\<rparr>, rp_phase = ph, rp_count = c,
    rp_reads = rd, rp_rows = [?r]\<rparr>)"
  have "encs [?r] \<noteq> []" using enc_length [of ?r] r(1) by (auto simp: encs_def)
  note data = this ReadStream_encs [OF r(1)]
  let ?p = "mk n' st3 out' (Applying [] [?r] [] None) 1 [(0, ''k'', r1), (1, ''k'', r3)]"
  have start: "replica_start s 0 [?r] = mk n st out Idle 0 []" using s by (cases s) (simp add: replica_start_def mk_def)
  have "?R\<^sup>*\<^sup>* (mk n st out Idle 0 []) (mk n st out Idle 0 [])" by simp
  also have "?R \<dots> (mk n st1 out Idle 0 [(0, ''k'', r1)])"
    using read_key [of "''k''" "mk n st out Idle 0 []" st1 r1] g1(1) by (cases s) (simp add: mk_def)
  also have "?R \<dots> (mk n' st1 out (Batches [[?r]] None) 0 [(0, ''k'', r1)])"
    using request [of "mk n st1 out Idle 0 [(0, ''k'', r1)]" ?cl Background n' "\<lparr>rs_Data = encs [?r], rs_Err = None\<rparr>" "[[?r]]" None True "[[?r]]" None] n' data s(2)
    by (cases s) (simp add: mk_def)
  also have "?R \<dots> (mk n' st1 out' (Applying [?r] [?r] [] None) 0 [(0, ''k'', r1)])"
    using logged [of "mk n' st1 out (Batches [[?r]] None) 0 [(0, ''k'', r1)]" "[?r]" "[]" None out'] s(5) out'(1)
    by (cases s) (simp add: mk_def log_batch_def)
  also have "?R \<dots> (mk n' st2 out' (Applying [] [?r] [] None) 1 [(0, ''k'', r1)])"
    using apply_row [of "mk n' st1 out' (Applying [?r] [?r] [] None) 0 [(0, ''k'', r1)]" ?r "[]" "[?r]" "[]" None Background st2] x(1)
    by (cases s) (simp add: mk_def del: execStorage.simps)
  also have "?R \<dots> ?p"
    using read_key [of "''k''" "mk n' st2 out' (Applying [] [?r] [] None) 1 [(0, ''k'', r1)]" st3 r3] g3(1) by (cases s) (simp add: mk_def)
  finally have run: "?R\<^sup>*\<^sup>* (replica_start s 0 [?r]) ?p" unfolding start .
  have "r1 = Ok []" "r3 = Ok ''v''"
    using replica_reads_prefixes [of ?d "[?r]" s 0 bytewise Background "\<lambda>_. None" True ?p] m s(1-3) st cuts_bytewise bg run
    by (simp_all add: mk_def ops_of_def qop_def query_of_def NewRow_def NewQuery_def)
  moreover have "slave_logs ?d 0 (rp_slave ?p) [?r]" using s(5) out'(2) g3(2) by (simp add: mk_def slave_logs_def)
  ultimately show ?thesis using run out unfolding s_def
    by (intro exI [of _ n] exI [of _ out] exI [of _ st] exI [of _ ?p]) (simp add: mk_def s_def)
qed

end
