(* ===== verification/Load_Test.thy ===== *)
theory Load_Test
  imports Transport
begin

text \<open>
  \<^verbatim>\<open>system_load_testing/system_load_testing.go\<close>: a program that sends commands at a fixed rate over ten
  connections in turn. The random numbers are arguments; the answers of the server are never read.
\<close>

section \<open>The program\<close>

definition lf :: char where "lf = CHR 0x0A"

definition commands :: "string list" where
  "commands =
     [''GET user'' @ [lf], ''SET user 1'' @ [lf], ''SET user 2'' @ [lf], ''SET user hello world'' @ [lf],
      ''DEL user'' @ [lf], ''DEL user 1'' @ [lf], ''GET key123'' @ [lf], ''SET key123 foobar'' @ [lf]]"

definition connectionCount :: nat where "connectionCount = 10"

text \<open>
  \<^verbatim>\<open>time.NewTicker(time.Second / time.Duration(*rps))\<close>: the division panics on zero, and the ticker
  when the interval is not positive.
\<close>

definition tick_interval :: "int \<Rightarrow> int res" where
  "tick_interval rps =
     (if rps = 0 then Panic
      else (let d = (if rps < 0 then - (1000000000 div (- rps)) else 1000000000 div rps) in if d \<le> 0 then Panic else Ok d))"

record load =
  ld_writers :: "bufw list"
  ld_connIndex :: nat

text \<open>The ten connections; a failing dial ends the program.\<close>

definition load_start :: "sink list \<Rightarrow> load" where
  "load_start conns = \<lparr>ld_writers = map NewWriter conns, ld_connIndex = 0\<rparr>"

text \<open>One tick with the random number \<open>i\<close>; an error of the write or of the flush ends the program.\<close>

definition load_tick :: "nat \<Rightarrow> load \<Rightarrow> load \<times> unit res" where
  "load_tick i s =
     (let cmd = commands ! i; j = ld_connIndex s;
          s1 = s\<lparr>ld_connIndex := (ld_connIndex s + 1) mod connectionCount\<rparr> in
      case bufio_Write (bytes_of_string cmd) (ld_writers s ! j) of
        (w, Ok _) \<Rightarrow> (case Flush w of (w', r) \<Rightarrow> (s1\<lparr>ld_writers := (ld_writers s)[j := w']\<rparr>, r))
      | (w, r) \<Rightarrow> (s1\<lparr>ld_writers := (ld_writers s)[j := w]\<rparr>, r))"

text \<open>The ticks until the test is over.\<close>

fun load_run :: "nat list \<Rightarrow> load \<Rightarrow> load \<times> unit res" where
  "load_run [] s = (s, Ok ())"
| "load_run (i # is) s =
     (case load_tick i s of
        (s', Ok _) \<Rightarrow> load_run is s'
      | (s', r) \<Rightarrow> (s', r))"

section \<open>Every rate that can be kept\<close>

lemma tick_interval_ok: "tick_interval rps = Ok d \<longleftrightarrow> 1 \<le> rps \<and> rps \<le> 1000000000 \<and> d = 1000000000 div rps"
proof -
  have "0 < 1000000000 div rps \<longleftrightarrow> rps \<le> 1000000000" if "0 < rps"
    using that by (simp add: pos_imp_zdiv_pos_iff)
  moreover have "0 \<le> 1000000000 div (- rps)" if "rps < 0" using that by (simp add: pos_imp_zdiv_nonneg_iff)
  ultimately show ?thesis by (auto simp: tick_interval_def Let_def not_le)
qed

section \<open>The commands\<close>

text \<open>Every command is a line that the server accepts.\<close>

lemma commands_queries:
  "Parse (bytes_of_string (''GET user'' @ [lf])) = Ok (NewQuery GetMethodID [''user''])"
  "Parse (bytes_of_string (''SET user 1'' @ [lf])) = Ok (NewQuery SetMethodID [''user'', ''1''])"
  "Parse (bytes_of_string (''SET user 2'' @ [lf])) = Ok (NewQuery SetMethodID [''user'', ''2''])"
  "Parse (bytes_of_string (''SET user hello world'' @ [lf])) = Ok (NewQuery SetMethodID [''user'', ''hello world''])"
  "Parse (bytes_of_string (''DEL user'' @ [lf])) = Ok (NewQuery DelMethodID [''user''])"
  "Parse (bytes_of_string (''DEL user 1'' @ [lf])) = Ok (NewQuery DelMethodID [''user'', ''1''])"
  "Parse (bytes_of_string (''GET key123'' @ [lf])) = Ok (NewQuery GetMethodID [''key123''])"
  "Parse (bytes_of_string (''SET key123 foobar'' @ [lf])) = Ok (NewQuery SetMethodID [''key123'', ''foobar''])"
  by code_simp+

lemma commands_parse:
  assumes "i < length commands"
  shows "\<exists>q. Parse (bytes_of_string (commands ! i)) = Ok q \<and> valid_query q \<and> query_ok q"
proof -
  have "list_all (\<lambda>c. \<exists>q. Parse (bytes_of_string c) = Ok q \<and> valid_query q \<and> query_ok q) commands"
    by (simp only: commands_def list.pred_inject commands_queries) (simp add: NewQuery_def valid_query_def query_ok_def)
  then show ?thesis using assms by (simp add: list_all_length)
qed

lemma commands_lines: "i < length commands \<Longrightarrow> \<exists>l. bytes_of_string (commands ! i) = l @ [newline] \<and> line_ok l"
proof -
  assume i: "i < length commands"
  have "list_all (\<lambda>c. c \<noteq> [] \<and> last c = lf \<and> lf \<notin> set (butlast c)) commands" by code_simp
  then have c: "commands ! i \<noteq> []" "last (commands ! i) = lf" "lf \<notin> set (butlast (commands ! i))"
    using i by (simp_all add: list_all_length)
  define l where "l = bytes_of_string (butlast (commands ! i))"
  have lf: "byte_of_char lf = newline" by (simp add: lf_def newline_def byte_of_char_def)
  have "commands ! i = butlast (commands ! i) @ [lf]" using c(1,2) by (metis append_butlast_last_id)
  then have b: "bytes_of_string (commands ! i) = l @ [newline]" unfolding l_def bytes_of_string_def using lf
    by (metis list.simps(8,9) map_append)
  have "newline \<notin> set l"
  proof
    assume "newline \<in> set l"
    then obtain x where "x \<in> set (butlast (commands ! i))" "byte_of_char x = byte_of_char lf"
      by (auto simp: l_def bytes_of_string_def lf)
    then show False using c(3) by (metis char_of_byte_of_char)
  qed
  moreover have "case Parse (l @ [newline]) of Ok q \<Rightarrow> query_ok q | _ \<Rightarrow> True"
    using commands_parse [OF i] b by auto
  ultimately show ?thesis using b by (auto simp: line_ok_def)
qed

section \<open>The connections take turns\<close>

text \<open>The commands of the ticks \<open>j\<close>, \<open>j + 10\<close>, \<open>j + 20\<close>, and so on.\<close>

definition share :: "nat list \<Rightarrow> nat \<Rightarrow> byte list" where
  "share is j = concat (map (\<lambda>k. if k mod connectionCount = j then bytes_of_string (commands ! (is ! k)) else []) [0..<length is])"

definition load_ok :: "nat list \<Rightarrow> load \<Rightarrow> bool" where
  "load_ok is s \<longleftrightarrow> length (ld_writers s) = connectionCount \<and> ld_connIndex s = length is mod connectionCount \<and>
     (\<forall>j<connectionCount. bufw_ok (ld_writers s ! j) \<and> written (ld_writers s ! j) = share is j)"

lemma share_snoc:
  "share (is @ [i]) j = share is j @ (if length is mod connectionCount = j then bytes_of_string (commands ! i) else [])"
proof -
  have "map (\<lambda>k. if k mod connectionCount = j then bytes_of_string (commands ! ((is @ [i]) ! k)) else []) [0..<length is] =
    map (\<lambda>k. if k mod connectionCount = j then bytes_of_string (commands ! (is ! k)) else []) [0..<length is]"
    by (simp add: nth_append)
  then have "concat (map (\<lambda>k. if k mod connectionCount = j then bytes_of_string (commands ! ((is @ [i]) ! k)) else []) [0..<length is]) = share is j"
    unfolding share_def by (rule arg_cong)
  then show ?thesis by (simp add: share_def [of "is @ [i]"])
qed

lemma load_tick_ok:
  assumes "load_ok is s"
  shows "\<exists>s'. load_tick i s = (s', Ok ()) \<and> load_ok (is @ [i]) s'"
proof -
  let ?j = "length is mod connectionCount"
  have j: "?j < connectionCount" "ld_connIndex s = ?j" "length (ld_writers s) = connectionCount"
    using assms by (simp_all add: load_ok_def connectionCount_def)
  obtain w where w: "bufio_Write (bytes_of_string (commands ! i)) (ld_writers s ! ?j) = (w, Ok ())" "bufw_ok w"
    "written w = share is ?j @ bytes_of_string (commands ! i)"
    using bufio_Write_ok [of "ld_writers s ! ?j" "bytes_of_string (commands ! i)"] assms j(1) by (auto simp: load_ok_def)
  obtain w' where w': "Flush w = (w', Ok ())" "bufw_ok w'" "written w' = written w" using Flush_ok [OF w(2)] by blast
  let ?s = "s\<lparr>ld_connIndex := Suc ?j mod connectionCount, ld_writers := (ld_writers s)[?j := w']\<rparr>"
  have "load_tick i s = (?s, Ok ())" using w(1) w'(1) j(2) by (simp add: load_tick_def Let_def)
  moreover have "load_ok (is @ [i]) ?s"
    using assms j w(3) w'(2,3) by (auto simp: load_ok_def share_snoc nth_list_update mod_Suc_eq)
  ultimately show ?thesis by blast
qed

text \<open>
  On connections that work the program sends every tick's command whole, and each connection gets
  every tenth one.
\<close>

lemma load_run_shares:
  "load_ok js s \<Longrightarrow> \<exists>s'. load_run is s = (s', Ok ()) \<and> load_ok (js @ is) s'"
proof (induction "is" arbitrary: js s)
  case (Cons i "is")
  obtain s1 where s1: "load_tick i s = (s1, Ok ())" "load_ok (js @ [i]) s1" using load_tick_ok [OF Cons.prems] by blast
  from Cons.IH [OF s1(2)] s1(1) show ?case by simp
qed simp

lemma load_start_ok:
  assumes "length conns = connectionCount" and "\<forall>c\<in>set conns. sk_out c = [] \<and> sk_faults c = []"
  shows "load_ok [] (load_start conns)"
  using assms by (auto simp: load_ok_def load_start_def share_def bufw_ok_def written_def NewWriter_def connectionCount_def)

end
