(* ===== verification/Crash.thy ===== *)
theory Crash
  imports Database
begin

text \<open>
  Crashes and failing system calls while the log is written, and the restart after them.

  A fault script of the file system makes any of the system calls of a write fail, a
  \<^verbatim>\<open>(*File).Write\<close> after any number of bytes. \<^verbatim>\<open>FileSegmentManager.Write\<close> stops at the first
  failing call (except the \<^verbatim>\<open>Close\<close> of a rotated file, whose error it only logs), so the
  disk it leaves is also the disk of a process killed at this call. Bytes that
  \<^verbatim>\<open>Sync\<close> has confirmed are not lost by a crash; of those of the write under way any prefix may remain.
\<close>

section \<open>What the files of a directory decode to\<close>

definition file_rows :: "string \<Rightarrow> world \<Rightarrow> string \<Rightarrow> row list" where
  "file_rows d w n = rows_of (content w (path_join d n))"

definition disk_rows :: "string \<Rightarrow> world \<Rightarrow> row list" where
  "disk_rows d w = concat (map (file_rows d w) (sort (dir_entries d w)))"

text \<open>A directory of regular files, not empty, on a system whose calls succeed.\<close>

definition dir_usable :: "string \<Rightarrow> world \<Rightarrow> bool" where
  "dir_usable d w \<longleftrightarrow> world_ok w \<and> d \<noteq> [] \<and> d \<in> set (w_dirs w) \<and> dir_entries d w \<noteq> []"

definition heal :: "world \<Rightarrow> world" where
  "heal w = w\<lparr>w_faults := []\<rparr>"

lemma heal_simps [simp]:
  "w_faults (heal w) = []" "w_files (heal w) = w_files w" "w_dirs (heal w) = w_dirs w"
  "w_clock (heal w) = w_clock w" "w_ticks (heal w) = w_ticks w" "content (heal w) p = content w p"
  "dir_entries d (heal w) = dir_entries d w" "heal (w\<lparr>w_faults := F\<rparr>) = heal w" "heal (heal w) = heal w"
  "world_ok (heal w) = world_ok w"
  by (simp_all add: heal_def world_ok_def)

lemma heal_clean: "w_faults w = [] \<Longrightarrow> heal w = w"
  by (simp add: heal_def)

lemma heal_upd [simp]:
  "heal (append_file p bs w) = append_file p bs (heal w)"
  "heal (w\<lparr>w_files := fs\<rparr>) = (heal w)\<lparr>w_files := fs\<rparr>" "heal (w\<lparr>w_dirs := ds\<rparr>) = (heal w)\<lparr>w_dirs := ds\<rparr>"
  "heal (w\<lparr>w_ticks := t\<rparr>) = (heal w)\<lparr>w_ticks := t\<rparr>"
  by (simp_all add: heal_def append_file_def)

lemma disk_heal [simp]: "disk_rows d (heal w) = disk_rows d w" "dir_usable d (heal w) = dir_usable d w"
  by (simp_all add: disk_rows_def dir_usable_def file_rows_def [abs_def])

lemma concat_file_rows:
  "(\<And>n rs. (n, rs) \<in> set fs \<Longrightarrow> file_rows d w n = rs) \<Longrightarrow> concat (map (file_rows d w \<circ> fst) fs) = all_rows fs"
  by (induction fs) (auto simp: all_rows_def)

lemma log_rel_disk_rows: "log_rel d w fs \<Longrightarrow> disk_rows d w = all_rows fs"
proof -
  assume lr: "log_rel d w fs"
  have "file_rows d w n = rs" if "(n, rs) \<in> set fs" for n rs
    using lr that rows_of_encs [of rs "[]"] by (fastforce simp: file_rows_def log_rel_def list_all_iff)
  from concat_file_rows [OF this] show ?thesis using lr by (simp add: disk_rows_def log_rel_def)
qed

text \<open>Of a batch that was cut off a prefix of its rows remains.\<close>

lemma rows_of_cut:
  "list_all row_ok new \<Longrightarrow> \<exists>i \<le> length new. rows_of (take j (encs new)) = take i new"
proof (induction new arbitrary: j)
  case (Cons r new)
  show ?case
  proof (cases "j < length (enc r)")
    case True
    then have "rows_of (take j (encs (r # new))) = []"
      using Unmarshal_torn [of r j] Cons.prems rows_of_EOF(1) by simp
    then show ?thesis by (intro exI [of _ 0]) simp
  next
    case False
    obtain i where "i \<le> length new" "rows_of (take (j - length (enc r)) (encs new)) = take i new"
      using Cons by auto
    then show ?thesis
      using False Cons.prems rows_of_encs [of "[r]" "take (j - length (enc r)) (encs new)"]
      by (intro exI [of _ "Suc i"]) simp
  qed
qed simp

lemma append_disk_rows:
  assumes lr: "log_rel d w (fs @ [(n, rs)])" "world_ok w"
  shows "disk_rows d (append_file (path_join d n) bs w) = all_rows (fs @ [(n, rs)]) @ rows_of bs"
proof -
  let ?w = "append_file (path_join d n) bs w"
  note last = log_rel_last [OF lr]
  have ents: "dir_entries d ?w = dir_entries d w" using dir_entries_append last by simp
  have names: "sort (dir_entries d w) = map fst fs @ [n]" using lr(1) by (simp add: log_rel_def)
  have old: "file_rows d ?w n' = rs'" if "(n', rs') \<in> set fs" for n' rs'
  proof -
    have "n' \<noteq> n" using that last(2) by force
    then show ?thesis
      using lr(1) that rows_of_encs [of rs' "[]"] by (fastforce simp: file_rows_def log_rel_def list_all_iff path_join_inj)
  qed
  have "list_all row_ok rs" "content w (path_join d n) = encs rs" using lr(1) by (simp_all add: log_rel_def)
  then have "file_rows d ?w n = rs @ rows_of bs" using rows_of_encs [of rs bs] by (simp add: file_rows_def)
  then show ?thesis using concat_file_rows [OF old] by (simp add: disk_rows_def ents names)
qed

lemma append_usable:
  assumes "dir_usable d w" and "map_of (w_files w) p \<noteq> None"
  shows "dir_usable d (append_file p bs w)"
proof -
  have "map fst (w_files (append_file p bs w)) = map fst (w_files w)"
    using assms(2) by (simp add: append_file_def AList.update_keys map_of_eq_None_iff)
  then show ?thesis using assms by (simp add: dir_usable_def world_ok_def)
qed

section \<open>A restart on any files\<close>

lemma restore_files_any:
  assumes w: "w_faults w = []" "dir_usable d w"
  shows "set ns \<subseteq> set (dir_entries d w) \<Longrightarrow>
    \<exists>m'. restore_files d ns m w = (m', w, map (file_rows d w) ns, None) \<and>
      m_curSeg m' = m_curSeg m \<and> m_locked m' = m_locked m"
proof (induction ns arbitrary: m)
  case (Cons n ns)
  have d: "world_ok w" "d \<noteq> []" "d \<in> set (w_dirs w)" using w(2) by (simp_all add: dir_usable_def)
  have f: "map_of (w_files w) (path_join d n) \<noteq> None" "slash \<notin> set n"
    using dir_entries_has_file [OF d(1), of n d] Cons.prems by auto
  obtain m' where "restore_files d ns (restoreIndex (file_rows d w n) n m) w = (m', w, map (file_rows d w) ns, None)"
    "m_curSeg m' = m_curSeg m" "m_locked m' = m_locked m"
    using Cons.IH [of "restoreIndex (file_rows d w n) n m"] Cons.prems by (auto simp: restoreIndex_def AddBatchIndex_def)
  then show ?case using w(1) OpenFile_existing [OF w(1) d(2,3) f(2,1)]
    by (simp add: file_reads_clean read_bytes file_Close_def Let_def file_rows_def)
qed simp

text \<open>The last file is opened for appending, with the size that it has.\<close>

definition reopened :: "string \<Rightarrow> int \<Rightarrow> world \<Rightarrow> file_segment" where
  "reopened d mx w = (let p = path_join d (last (sort (dir_entries d w))) in
     \<lparr>fs_file = \<lparr>f_path = p, f_pos = 0, f_open = True\<rparr>, fs_path = d, fs_size = int (length (content w p)), fs_maxSize = mx\<rparr>)"

lemma NewFileSegment_any:
  assumes w: "w_faults w = []" "dir_usable d w"
  shows "NewFileSegment d mx w = (w, Ok (reopened d mx w))"
proof -
  have d: "world_ok w" "d \<noteq> []" "d \<in> set (w_dirs w)" "sort (dir_entries d w) \<noteq> []"
    using w(2) by (simp_all add: dir_usable_def) (metis length_0_conv length_sort)
  define n where "n = last (sort (dir_entries d w))"
  have "n \<in> set (dir_entries d w)" using last_in_set [OF d(4)] by (simp add: n_def)
  then have f: "map_of (w_files w) (path_join d n) \<noteq> None" "slash \<notin> set n"
    using dir_entries_has_file [OF d(1), of n d] by auto
  show ?thesis using w(1) d OpenFile_existing [OF w(1) d(2,3) f(2,1)]
    by (simp add: NewFileSegment_def initFileSegment_def ReadDir_def os_ReadDir_def file_Stat_Size_def n_def
        reopened_def Let_def)
qed

text \<open>
  On every directory that is not empty, torn and damaged files included, the start of the program
  succeeds and the storage is the replay of the rows that the files decode to.
\<close>

lemma InitDB_core_any:
  assumes w: "w_faults w = []" "dir_usable (c_Directory c) w"
    and c: "c_Enable c" "0 \<le> c_FlushBatchSize c"
    and rows: "list_all (write_query \<circ> query_of) (disk_rows (c_Directory c) w)"
  shows "\<exists>db m. InitDB_core early1 early2 engType n c isMaster w = (w, Ok db) \<and>
    storage_abs (db_st db) = kv_replay (ops_of (disk_rows (c_Directory c) w)) Map.empty \<and>
    storage_inv (db_st db) \<and> wal_idle (db_wal db) \<and> db_isMaster db = isMaster \<and> db_out db = (m, w) \<and>
    \<not> m_locked m \<and> m_curSeg m = reopened (c_Directory c) (c_MaxSegmentSize c) w"
proof -
  let ?d = "c_Directory c"
  define seg where "seg = reopened ?d (c_MaxSegmentSize c) w"
  have seg: "NewFileSegment ?d (c_MaxSegmentSize c) w = (w, Ok seg)" unfolding seg_def by (rule NewFileSegment_any [OF w])
  have d: "?d \<noteq> []" "?d \<in> set (w_dirs w)" using w(2) by (simp_all add: dir_usable_def)
  have "\<not> or_default 0 defaultFlushBatchSize (c_FlushBatchSize c) < 0"
    using c(2) by (simp add: or_default_def defaultFlushBatchSize_def)
  then obtain wal where wal: "NewWAL c = Ok wal" "wal_directory wal = ?d"
    using c(1) d(1) by (simp add: NewWAL_def Let_def) (simp add: or_default_def)
  obtain e where e: "NewEngine engType n = Ok e" "engine_inv e" "engine_abs e = Map.empty" using NewEngine_ok by blast
  let ?m = "NewSegmentManager NewIndexManagerMutex seg" and ?bs = "map (file_rows ?d w) (sort (dir_entries ?d w))"
  obtain m' where m': "RestoreSystemStream ?d ?m w = (m', w, ?bs, None)" "m_curSeg m' = seg" "\<not> m_locked m'"
    using restore_files_any [OF w, of "sort (dir_entries ?d w)" ?m] w(1) d
    by (auto simp: RestoreSystemStream_def ReadDir_def os_ReadDir_def NewSegmentManager_def)
  have "0 < wal_flushBatchSize wal"
    using wal(1) c by (auto simp: NewWAL_def or_default_def Let_def defaultFlushBatchSize_def split: if_splits)
  then have idle: "wal_idle (wal\<lparr>wal_lsnGen := g\<rparr>)" for g
    using NewWAL_fields [OF wal(1) c(1)] by (simp add: wal_idle_def make_chan_def)
  have cc: "concat (map (map query_of) ?bs) = map query_of (disk_rows ?d w)"
    by (simp only: map_concat [symmetric] disk_rows_def)
  obtain st where "exec_all (map query_of (disk_rows ?d w)) (Storage_New e) = (st, Ok ())"
    "storage_abs st = kv_replay (map qop (map query_of (disk_rows ?d w))) Map.empty" "storage_inv st"
    using exec_all_replay [of "map query_of (disk_rows ?d w)" "Storage_New e"] rows Storage_New_inv [of e] e
    by (auto simp: list_all_iff)
  then show ?thesis
    using seg e(1) wal m' cc NewWAL_fields(1) [OF wal(1) c(1)] idle
    by (simp add: seg_def InitDB_core_def initSegmentManager_def initWal_def NewDatabase_def restoreFromWal_def
        RestoreStream_def IsEnable_def Let_def ops_of_def disk_rows_def [symmetric])
qed

section \<open>A write under any fault script\<close>

declare take_fault_files [simp del]

text \<open>The next fault of the script; every call takes one off it.\<close>

definition next_fault :: "world \<Rightarrow> (nat \<times> goerr) option" where
  "next_fault w = (case w_faults w of Fault n e # _ \<Rightarrow> Some (n, e) | _ \<Rightarrow> None)"

definition spend :: "world \<Rightarrow> world" where
  "spend w = w\<lparr>w_faults := tl (w_faults w)\<rparr>"

lemma take_fault_eq: "take_fault w = (spend w, next_fault w)"
  by (cases w) (simp add: take_fault_def spend_def next_fault_def split: list.splits fault.splits)

lemma spend_simps [simp]:
  "heal (spend w) = heal w" "spend (heal w) = heal w" "next_fault (heal w) = None" "content (spend w) p = content w p"
  "w_files (spend w) = w_files w" "w_dirs (spend w) = w_dirs w" "w_ticks (spend w) = w_ticks w" "w_clock (spend w) = w_clock w"
  by (simp_all add: spend_def heal_def next_fault_def)

lemma spend_upd [simp]:
  "next_fault (append_file p bs w) = next_fault w" "spend (append_file p bs w) = append_file p bs (spend w)"
  "next_fault (w\<lparr>w_dirs := ds\<rparr>) = next_fault w" "spend (w\<lparr>w_dirs := ds\<rparr>) = (spend w)\<lparr>w_dirs := ds\<rparr>"
  "next_fault (w\<lparr>w_ticks := t\<rparr>) = next_fault w" "spend (w\<lparr>w_ticks := t\<rparr>) = (spend w)\<lparr>w_ticks := t\<rparr>"
  by (simp_all add: next_fault_def spend_def append_file_def)

text \<open>
  A write that succeeds does what it does on a system without faults; one that fails leaves a
  prefix of its bytes.
\<close>

lemma Segment_Write_faults:
  assumes "Segment_Write bs f w = (f', w', r)" and "f_open (fs_file f)"
  shows "r = Ok () \<and> Segment_Write bs f (heal w) = (f', heal w', Ok ()) \<or>
    (\<exists>e j. r = Fail e \<and> heal w' = append_file (f_path (fs_file f)) (take j bs) (heal w))"
proof (cases "next_fault w")
  case None
  let ?w1 = "append_file (f_path (fs_file f)) bs (spend w)"
  show ?thesis
  proof (cases "next_fault ?w1")
    case N: None
    show ?thesis using assms None N by (auto simp: Segment_Write_def file_Write_def file_Sync_def take_fault_eq Let_def)
  next
    case (Some x)
    then have "heal w' = append_file (f_path (fs_file f)) (take (length bs) bs) (heal w)" "\<exists>e. r = Fail e"
      using assms None by (auto simp: Segment_Write_def file_Write_def file_Sync_def take_fault_eq Let_def split: prod.splits)
    then show ?thesis by blast
  qed
next
  case (Some x)
  then show ?thesis
    using assms by (auto simp: Segment_Write_def file_Write_def take_fault_eq Let_def split: prod.splits)
qed

lemma flatten_enc: "Manager_flatten (map enc rows) = encs rows"
  by (simp add: flatten_concat encs_def)

lemma writeBatch_faults:
  assumes "writeBatch (map enc new) new m w = (m', w', r)" and "f_open (fs_file (m_curSeg m))" "\<not> m_locked m"
  shows "r = Ok () \<and> writeBatch (map enc new) new m (heal w) = (m', heal w', Ok ()) \<or>
    (\<exists>e j. r = Fail e \<and> heal w' = append_file (f_path (fs_file (m_curSeg m))) (take j (encs new)) (heal w))"
proof (cases "encs new = []")
  case True
  then show ?thesis
    using assms by (auto simp: writeBatch_def batch_entries_ents writeInSeg_def flatten_enc)
next
  case False
  obtain f w1 r1 where sw: "Segment_Write (encs new) (m_curSeg m) w = (f, w1, r1)" by (metis prod_cases3)
  then show ?thesis
    using sw Segment_Write_faults [OF sw assms(2)] assms(1,3) False
    by (auto simp: writeBatch_def batch_entries_ents writeInSeg_def flatten_enc)
qed

text \<open>A rotation that fails leaves the files as they are; the clock has been read.\<close>

lemma rotateLocked_faults:
  assumes "rotateLocked m w = (m', w', r)" and "f_open (fs_file (m_curSeg m))" "\<not> m_locked m"
    and "fs_path (m_curSeg m) = d" "d \<noteq> []" "d \<in> set (w_dirs w)"
  shows "r = Ok () \<and> rotateLocked m (heal w) = (m', heal w', Ok ()) \<or>
    (\<exists>e. r = Fail e \<and> heal w' = (heal w)\<lparr>w_ticks := Suc (w_ticks w)\<rparr>)"
proof -
  let ?w1 = "spend w" and ?w2 = "spend (spend w)"
  have ins: "v\<lparr>w_ticks := t, w_dirs := List.insert d (w_dirs w)\<rparr> = v\<lparr>w_ticks := t\<rparr>" if "w_dirs v = w_dirs w" for v t
    using that assms(6) by (cases v) simp
  note defs = rotateLocked_def Rotate_def newFile_def now_micro_def OpenFile_def os_MkdirAll_def os_OpenFile_def
    file_Close_def take_fault_eq Let_def dir_path_join [OF seg_name_no_slash]
  show ?thesis
  proof (cases "next_fault ?w1")
    case None
    then show ?thesis
      using assms by (cases "next_fault w"; cases "next_fault ?w2") (auto simp: defs ins)
  next
    case (Some x)
    then show ?thesis using assms by (cases "next_fault w") (auto simp: defs ins split: prod.splits)
  qed
qed

text \<open>
  What a write of \<open>rows\<close> leaves behind the rows \<open>xs\<close>: a prefix of \<open>rows\<close>, and all of them when it
  succeeds.
\<close>

definition write_left :: "string \<Rightarrow> row list \<Rightarrow> row list \<Rightarrow> world \<Rightarrow> unit res \<Rightarrow> bool" where
  "write_left d xs rows w r \<longleftrightarrow> dir_usable d w \<and> (r = Ok () \<or> (\<exists>e. r = Fail e)) \<and>
     (\<exists>i \<le> length rows. disk_rows d w = xs @ take i rows \<and> (r = Ok () \<longrightarrow> i = length rows))"

lemma write_left_more:
  assumes "write_left d xs rows w (Fail e)"
  shows "write_left d xs (rows @ rest) w (Fail e)"
proof -
  obtain i where "i \<le> length rows" "disk_rows d w = xs @ take i rows" using assms by (auto simp: write_left_def)
  then have "disk_rows d w = xs @ take i (rows @ rest)" "i \<le> length (rows @ rest)" by simp_all
  then show ?thesis using assms unfolding write_left_def by blast
qed

lemma write_left_shift: "write_left d (xs @ ys) rest w r \<Longrightarrow> write_left d xs (ys @ rest) w r"
proof -
  assume l: "write_left d (xs @ ys) rest w r"
  then obtain i where "i \<le> length rest" "disk_rows d w = xs @ ys @ take i rest" "r = Ok () \<longrightarrow> i = length rest"
    by (auto simp: write_left_def)
  then have "length ys + i \<le> length (ys @ rest)" "disk_rows d w = xs @ take (length ys + i) (ys @ rest)"
    "r = Ok () \<longrightarrow> length ys + i = length (ys @ rest)" by simp_all
  then show ?thesis using l unfolding write_left_def by blast
qed

lemma mgr_rel_usable: "mgr_rel k d m w fs \<Longrightarrow> dir_usable d w"
  by (auto simp: mgr_rel_def dir_usable_def log_rel_def)

lemma mgr_ok_left: "mgr_ok k d m (heal w) fs \<Longrightarrow> all_rows fs = xs @ rows \<Longrightarrow> write_left d xs rows w (Ok ())"
  using mgr_rel_usable [of k d m "heal w" fs] log_rel_disk_rows [of d "heal w" fs]
  by (auto simp: write_left_def mgr_ok_def mgr_rel_def intro: exI [of _ "length rows"])

lemma writeBatch_crash:
  assumes ok: "mgr_ok k d m (heal w) (fs @ [(n, rs)])" and new: "list_all row_ok new"
    and fit: "new = [] \<or> int (length (encs (rs @ new))) \<le> fs_maxSize (m_curSeg m) \<or> rs = [] \<and> length new = 1"
    and wb: "writeBatch (map enc new) new m w = (m', w', r)"
  shows "r = Ok () \<and> mgr_ok k d m' (heal w') (fs @ [(n, rs @ new)]) \<and> fs_maxSize (m_curSeg m') = fs_maxSize (m_curSeg m) \<or>
    (\<exists>e. r = Fail e) \<and> write_left d (all_rows fs @ rs) new w' r"
proof -
  have R: "f_open (fs_file (m_curSeg m))" "\<not> m_locked m" "f_path (fs_file (m_curSeg m)) = path_join d n"
    "log_rel d (heal w) (fs @ [(n, rs)])" "world_ok (heal w)" "d \<noteq> []" "d \<in> set (w_dirs w)"
    using ok by (simp_all add: mgr_ok_def mgr_rel_def)
  note last = log_rel_last [OF R(4,5)]
  consider "r = Ok ()" "writeBatch (map enc new) new m (heal w) = (m', heal w', Ok ())"
    | e j where "r = Fail e" "heal w' = append_file (path_join d n) (take j (encs new)) (heal w)"
    using writeBatch_faults [OF wb R(1,2)] R(3) by auto
  then show ?thesis
  proof cases
    case 1
    then show ?thesis using writeBatch_ok [OF ok new fit] by auto
  next
    case 2
    obtain i where i: "i \<le> length new" "disk_rows d (heal w') = all_rows (fs @ [(n, rs)]) @ take i new"
      using rows_of_cut [OF new, of j] append_disk_rows [OF R(4,5)] unfolding 2(2) by auto
    have "dir_usable d (heal w)" using ok mgr_rel_usable [of k d m "heal w" "fs @ [(n, rs)]"] by (simp add: mgr_ok_def)
    then have "dir_usable d (heal w')" unfolding 2(2) using last(3) by (rule append_usable)
    then show ?thesis using i 2(1) by (auto simp: write_left_def)
  qed
qed

lemma rotateLocked_crash:
  assumes ok: "mgr_ok (Suc k) d m (heal w) fs" and rl: "rotateLocked m w = (m', w', r)"
  shows "r = Ok () \<and> (\<exists>n. mgr_ok k d m' (heal w') (fs @ [(n, [])])) \<and> fs_maxSize (m_curSeg m') = fs_maxSize (m_curSeg m) \<or>
    (\<exists>e. r = Fail e) \<and> write_left d (all_rows fs) [] w' r"
proof -
  have R: "f_open (fs_file (m_curSeg m))" "\<not> m_locked m" "fs_path (m_curSeg m) = d" "d \<noteq> []" "d \<in> set (w_dirs w)"
    "log_rel d (heal w) fs"
    using ok by (simp_all add: mgr_ok_def mgr_rel_def)
  consider "r = Ok ()" "rotateLocked m (heal w) = (m', heal w', Ok ())"
    | e where "r = Fail e" "heal w' = (heal w)\<lparr>w_ticks := Suc (w_ticks w)\<rparr>"
    using rotateLocked_faults [OF rl R(1-5)] by auto
  then show ?thesis
  proof cases
    case 1
    then show ?thesis using rotateLocked_mgr_ok [OF ok] by auto
  next
    case 2
    have "dir_usable d (heal w)" using ok mgr_rel_usable [of "Suc k" d m "heal w" fs] by (simp add: mgr_ok_def)
    then have "dir_usable d (heal w')" by (simp only: 2(2)) (simp add: dir_usable_def world_ok_def)
    moreover have "disk_rows d (heal w') = disk_rows d (heal w)"
      by (simp only: 2(2)) (simp add: disk_rows_def file_rows_def [abs_def])
    ultimately show ?thesis using log_rel_disk_rows [OF R(6)] 2(1) by (simp add: write_left_def)
  qed
qed

lemma batch_loop_crash:
  assumes "mgr_ok (k + length rest) d m (heal w) (fs @ [(n, rs)])"
    and "list_all row_ok (front @ pend @ rest)"
    and "pend = [] \<or> int (length (encs (rs @ pend))) \<le> fs_maxSize (m_curSeg m) \<or> rs = [] \<and> length pend = 1"
    and "batch_loop (map enc rest) (length (front @ pend)) (length front) (int (length (encs pend)))
      (map enc (front @ pend @ rest)) (front @ pend @ rest) m w = (m', w', r)"
  shows "write_left d (all_rows fs @ rs) (pend @ rest) w' r"
  using assms
proof (induction rest arbitrary: m w fs n rs front pend)
  case Nil
  then have wb: "writeBatch (map enc pend) pend m w = (m', w', r)" and row: "list_all row_ok pend"
    and ok: "mgr_ok k d m (heal w) (fs @ [(n, rs)])" by simp_all
  then show ?case using writeBatch_crash [OF ok row Nil.prems(3) wb] mgr_ok_left by fastforce
next
  case (Cons r0 rest)
  let ?all = "front @ pend @ r0 # rest"
  note size = mgr_size [OF Cons.prems(1)]
  show ?case
  proof (cases "Fits (int (length (encs pend)) + int (length (enc r0))) (m_curSeg m)")
    case True
    have ok: "mgr_ok (k + length rest) d m (heal w) (fs @ [(n, rs)])"
      using mgr_ok_mono [of "k + length rest" 1] Cons.prems(1) by simp
    show ?thesis
      using Cons.IH [OF ok, of front "pend @ [r0]"] Cons.prems(2,4) True size by (simp add: Fits_def)
  next
    case False
    have row: "list_all row_ok pend" using Cons.prems(2) by simp
    obtain m1 w1 r1 where w1: "writeBatch (map enc pend) pend m w = (m1, w1, r1)" by (metis prod_cases3)
    obtain m2 w2 r2 where w2: "rotateLocked m1 w1 = (m2, w2, r2)" by (metis prod_cases3)
    note step = Cons.prems(4) [unfolded list.map(2) [of enc r0] batch_loop.simps]
    consider e where "r1 = Fail e" "write_left d (all_rows fs @ rs) pend w1 (Fail e)"
      | "r1 = Ok ()" "mgr_ok (Suc (k + length rest)) d m1 (heal w1) (fs @ [(n, rs @ pend)])"
        "fs_maxSize (m_curSeg m1) = fs_maxSize (m_curSeg m)"
      using writeBatch_crash [OF Cons.prems(1) row Cons.prems(3) w1] by auto
    then show ?thesis
    proof cases
      case 1
      then have "w' = w1" "r = Fail e" using step False w1 by (simp_all add: slice_def Let_def)
      then show ?thesis using write_left_more [OF 1(2)] by simp
    next
      case 2
      consider e where "r2 = Fail e" "write_left d (all_rows (fs @ [(n, rs @ pend)])) [] w2 (Fail e)"
        | n2 where "r2 = Ok ()" "mgr_ok (k + length rest) d m2 (heal w2) ((fs @ [(n, rs @ pend)]) @ [(n2, [])])"
        using rotateLocked_crash [OF 2(2) w2] by auto
      then show ?thesis
      proof cases
        case 1
        then have "w' = w2" "r = Fail e" using step False w1 w2 2(1) by (simp_all add: slice_def Let_def)
        then show ?thesis
          using write_left_more [OF 1(2), of "r0 # rest"] write_left_shift [of d "all_rows fs @ rs" pend] by simp
      next
        case 3: 2
        have "write_left d (all_rows (fs @ [(n, rs @ pend)]) @ []) ([r0] @ rest) w' r"
          by (rule Cons.IH [OF 3(2), of "front @ pend"])
            (use Cons.prems(2) step False w1 w2 2(1) 3(1) in \<open>simp_all add: slice_def Let_def\<close>)
        then show ?thesis using write_left_shift [of d "all_rows fs @ rs" pend] by simp
      qed
    qed
  qed
qed

text \<open>
  Whatever system calls fail, a write to the log leaves the rows that were there and a prefix of
  the new ones, all of them when it reports success.
\<close>

lemma Manager_Write_crash:
  assumes ok: "mgr_ok (k + length rows) d m (heal w) fs" and rows: "list_all row_ok rows"
    and mw: "Manager_Write rows m w = (m', w', r)"
  shows "write_left d (all_rows fs) rows w' r"
proof -
  obtain fs0 n rs where fs: "fs = fs0 @ [(n, rs)]"
    using ok by (cases fs rule: rev_cases) (auto simp: mgr_ok_def mgr_rel_def)
  note ok' = ok [unfolded fs]
  have W: "processBatches (map enc rows) rows m w = (m', w', r)"
    using mw by (simp add: Manager_Write_def createBatch_ok rows)
  show ?thesis
  proof (cases "Fits (sum_list (map (\<lambda>b. int (length b) + 1) (map enc rows))) (m_curSeg m)")
    case True
    then have fit: "int (length (encs (rs @ rows))) \<le> fs_maxSize (m_curSeg m)"
      using batch_size_bound [of rows] mgr_size [OF ok'] by (simp add: Fits_def)
    have "writeBatch (map enc rows) rows m w = (m', w', r)"
      using W True by (simp only: processBatches_def Let_def if_True)
    from writeBatch_crash [OF ok' rows _ this] show ?thesis using fit mgr_ok_left by (fastforce simp: fs)
  next
    case False
    then have "batch_loop (map enc rows) 0 0 0 (map enc rows) rows m w = (m', w', r)"
      using W by (simp only: processBatches_def Let_def if_False)
    then show ?thesis using batch_loop_crash [OF ok', of "[]" "[]"] rows by (simp add: fs)
  qed
qed

section \<open>Flushes and calls\<close>

text \<open>
  A flush whose first attempt fails does not return: the retry waits for the lock that the failed
  attempt left, and the disk stays as that attempt left it.
\<close>

lemma flush_write_crash:
  assumes has: "log_has d (k + length (wal_queryBuf w)) (m, heal wd) xs" and rows: "list_all row_ok (wal_queryBuf w)"
    and fl: "flush_write wal_writer w (m, wd) = (w', s', r)"
  shows "\<exists>x. write_left d xs (wal_queryBuf w) (snd s') x \<and> r = (if x = Ok () then Ok None else Hang)"
proof -
  obtain fs where fs: "mgr_ok (k + length (wal_queryBuf w)) d m (heal wd) fs" "all_rows fs = xs"
    using has by (auto simp: log_has_def)
  obtain m1 w1 r1 where mw: "Manager_Write (wal_queryBuf w) m wd = (m1, w1, r1)" by (metis prod_cases3)
  note left = Manager_Write_crash [OF fs(1) rows mw, unfolded fs(2)]
  show ?thesis
  proof (cases "wal_queryBuf w = []")
    case True
    have "wal_writer [] (m, wd) = ((m, wd), Ok ())"
      by (simp add: LogWriter_Write_def NewLogWriter_def LogWriter_write_def)
    then have "s' = (m, wd)" "r = Ok None"
      using fl by (simp_all add: flush_write_def True WithRetry_first_ok)
    then show ?thesis using mgr_ok_left [OF fs(1), of xs "[]"] fs(2) True by (intro exI [of _ "Ok ()"]) simp
  next
    case False
    then have ww: "wal_writer (wal_queryBuf w) (m, wd) = ((m1, w1), r1)"
      using mw by (simp add: LogWriter_Write_def NewLogWriter_def LogWriter_write_def manager_target_def)
    consider "r1 = Ok ()" | e where "r1 = Fail e" using left by (auto simp: write_left_def)
    then show ?thesis
    proof cases
      case 1
      then have "s' = (m1, w1)" "r = Ok None" using fl ww by (simp_all add: flush_write_def WithRetry_first_ok)
      then show ?thesis using left 1 by auto
    next
      case 2
      then have "snd s' = w1" "r = Hang" using fl flush_write_io_error [OF _ rows False] ww by fastforce+
      then show ?thesis using left 2 by auto
    qed
  qed
qed

lemma restart_left:
  assumes left: "write_left d xs rows w x" and c: "c_Enable c" "c_Directory c = d" "0 \<le> c_FlushBatchSize c"
    and q: "list_all (write_query \<circ> query_of) (xs @ rows)"
  shows "\<exists>i db. i \<le> length rows \<and> (x = Ok () \<longrightarrow> i = length rows) \<and>
    InitDB_core early1 early2 engType n c isMaster (heal w) = (heal w, Ok db) \<and>
    storage_abs (db_st db) = kv_replay (ops_of (xs @ take i rows)) Map.empty"
proof -
  obtain i where i: "i \<le> length rows" "disk_rows d w = xs @ take i rows" "x = Ok () \<longrightarrow> i = length rows" "dir_usable d w"
    using left by (auto simp: write_left_def)
  have "list_all (write_query \<circ> query_of) (disk_rows d w)"
    using q i(2) by (auto simp: list_all_iff dest: in_set_takeD)
  then show ?thesis using InitDB_core_any [of "heal w" c early1 early2 engType n isMaster] c i by auto
qed

text \<open>
  The answer of a write whose future is not read: the error of the context with the deadline of one
  second, \<^verbatim>\<open>walDeadline\<close>, whether it is done before or during the wait. Only were the deadline never
  to come would the call wait for ever.
\<close>

definition expired :: "waiting \<Rightarrow> 'a res" where
  "expired wt = (case wt_early wt of Some e \<Rightarrow> Fail e | None \<Rightarrow> (case wt_late wt of Some e \<Rightarrow> Fail e | None \<Rightarrow> Hang))"

lemma expired_not_Ok [simp]: "expired wt \<noteq> Ok v" "Ok v \<noteq> expired wt"
  by (simp_all add: expired_def split: option.splits)

lemma wait_outcome:
  assumes "FutureResp_GetResponse zero f = (f0, r0)"
  obtains f1 r where "FutureResp_GetResponseWithDeadline (wt_early wt) (wt_late wt) (wt_pick wt) zero f = (f1, r)"
    "r = expired wt \<and> (r0 = Hang \<or> wt \<noteq> live_wait) \<or> r = r0 \<and> r0 \<noteq> Hang"
proof (cases "r0 = Hang \<or> wt_early wt \<noteq> None")
  case True
  then show ?thesis using assms that
    by (fastforce simp: FutureResp_GetResponseWithDeadline_def expired_def live_wait_def split: option.splits)
next
  case False
  then show ?thesis using assms that
    by (cases r0; cases "wt_late wt"; cases "wt_pick wt")
      (fastforce simp: FutureResp_GetResponseWithDeadline_def expired_def live_wait_def)+
qed

text \<open>The deadline decides only the answer, not what happens to the log.\<close>

lemma setInWal_wait:
  assumes db: "wal_idle (db_wal db)" "ctx_err ctx = None" "q_methodID q \<noteq> GetMethodID"
    and live: "setInWal ctx live_wait env q db = (db0, r0)"
  obtains db1 r where "setInWal ctx wt env q db = (db1, r)" "db_out db1 = db_out db0" "db_st db1 = db_st db0"
    "db_isMaster db1 = db_isMaster db0" "r = expired wt \<and> (r0 = Hang \<or> wt \<noteq> live_wait) \<or> r = r0 \<and> r0 \<noteq> Hang"
proof -
  obtain w1 futs1 fr where w: "WAL_Write ctx q (db_wal db) (db_futs db) = (w1, futs1, Ok (Some fr))"
    using WAL_Write_idle [OF db(1,2)] by blast
  obtain w2 futs2 s2 where env: "env (w1, futs1, db_out db) = (w2, futs2, s2)" by (metis prod_cases3)
  obtain f0 x where f0: "FutureResp_GetResponse None (futs2 ! fr) = (f0, x)" by (metis surj_pair)
  obtain f1 y where f1: "FutureResp_GetResponseWithDeadline (wt_early wt) (wt_late wt) (wt_pick wt) None (futs2 ! fr) = (f1, y)"
    "y = expired wt \<and> (x = Hang \<or> wt \<noteq> live_wait) \<or> y = x \<and> x \<noteq> Hang"
    by (rule wait_outcome [OF f0])
  have "FutureResp_GetResponseWithDeadline None None True None (futs2 ! fr) = (f0, x)"
    using f0 by (cases x) (simp_all add: FutureResp_GetResponseWithDeadline_def)
  then have live0: "db0 = db\<lparr>db_wal := w2, db_futs := futs2[fr := f0], db_out := s2\<rparr>"
    "r0 = (case x of Ok (Some v) \<Rightarrow> Fail v | Ok None \<Rightarrow> Ok () | Fail e \<Rightarrow> Fail e | Panic \<Rightarrow> Panic | Hang \<Rightarrow> Hang)"
    using live w env db(3) by (simp_all add: setInWal_def live_wait_def)
  define r where "r = (case y of Ok (Some v) \<Rightarrow> Fail v | Ok None \<Rightarrow> Ok () | Fail e \<Rightarrow> Fail e | Panic \<Rightarrow> Panic | Hang \<Rightarrow> Hang)"
  have "setInWal ctx wt env q db = (db\<lparr>db_wal := w2, db_futs := futs2[fr := f1], db_out := s2\<rparr>, r)"
    using w env f1(1) db(3) by (simp add: setInWal_def r_def)
  moreover have "r = expired wt \<and> (r0 = Hang \<or> wt \<noteq> live_wait) \<or> r = r0 \<and> r0 \<noteq> Hang"
    using f1(2) live0(2) unfolding r_def by (auto simp: expired_def split: option.splits res.splits)
  ultimately show thesis using that live0(1) by simp
qed

lemma setInWal_crash:
  assumes idle: "wal_idle (db_wal db)" and ctx: "ctx_err ctx = None" and q: "q_methodID q \<noteq> GetMethodID"
    and hang: "\<And>w. wal_queryBuf w = [next_row q (db_wal db)] \<Longrightarrow> \<exists>m2. flush_write wr w (db_out db) = (w, (m2, wd), Hang)"
  shows "\<exists>db'. setInWal ctx live_wait (worker_turn wr) q db = (db', Hang) \<and> snd (db_out db') = wd"
proof -
  let ?w = "(db_wal db)\<lparr>wal_lsnGen := fst (NextID (wal_lsnGen (db_wal db))), wal_futureResp := [length (db_futs db)],
    wal_queryCh := (wal_queryCh (db_wal db))\<lparr>buf := []\<rparr>, wal_queryBuf := [next_row q (db_wal db)]\<rparr>"
  obtain m2 where "flush_write wr ?w (db_out db) = (?w, (m2, wd), Hang)" using hang [of ?w] by auto
  then show ?thesis
    using idle ctx q WAL_Write_idle [OF idle ctx, of q "db_futs db"]
    by (simp add: setInWal_def worker_turn_def flush_def live_wait_def future_defs chan_defs wal_idle_def Let_def)
qed

text \<open>The system calls from now on meet the faults \<open>F\<close>.\<close>

definition fail_calls :: "fault list \<Rightarrow> (manager \<times> world) database \<Rightarrow> (manager \<times> world) database" where
  "fail_calls F db = db\<lparr>db_out := (fst (db_out db), (snd (db_out db))\<lparr>w_faults := F\<rparr>)\<rparr>"

lemma log_has_heal: "log_has d k s xs \<Longrightarrow> log_has d k (fst s, heal ((snd s)\<lparr>w_faults := F\<rparr>)) xs"
  by (auto simp: log_has_def mgr_ok_def mgr_rel_def heal_clean)

text \<open>
  A write of the master does to the disk what the segment manager does to it for its row, and is
  answered when that succeeds.
\<close>

lemma Execute_disk_wait:
  assumes db: "wal_idle (db_wal db)" "storage_inv (db_st db)" "db_isMaster db" "db_out db = (m, wd)"
    and q: "write_query q" "query_ok q"
    and mw: "Manager_Write [next_row q (db_wal db)] m wd = (m1, w1, r1)" and r1: "r1 = Ok () \<or> (\<exists>e. r1 = Fail e)"
  shows "\<exists>db1 a. Execute Background wt (worker_turn wal_writer) q db = (db1, a) \<and> snd (db_out db1) = w1 \<and>
    (a = expired wt \<and> (r1 \<noteq> Ok () \<or> wt \<noteq> live_wait) \<or> a = Ok ''OK'' \<and> r1 = Ok ())"
proof -
  let ?r = "next_row q (db_wal db)"
  have bg: "ctx_err Background = None" by (simp add: Background_def)
  note wait = setInWal_wait [OF db(1) bg write_not_get [OF q(1)], of "worker_turn wal_writer" _ _ wt]
  have row: "list_all row_ok [?r]" using next_row_ok [OF q(2)] by simp
  have ww: "wal_writer [?r] (m, wd) = ((m1, w1), r1)"
    using mw by (simp add: LogWriter_Write_def NewLogWriter_def LogWriter_write_def manager_target_def)
  have en: "IsEnable (db_wal db)" using db(1) by (simp add: IsEnable_def wal_idle_def)
  obtain db1 r where db1: "setInWal Background wt (worker_turn wal_writer) q db = (db1, r)" "snd (db_out db1) = w1"
    "r = expired wt \<and> (r1 \<noteq> Ok () \<or> wt \<noteq> live_wait) \<or> r = Ok () \<and> r1 = Ok () \<and> db_st db1 = db_st db \<and> db_isMaster db1"
  proof (cases "r1 = Ok ()")
    case True
    obtain db0 where db0: "setInWal Background live_wait (worker_turn wal_writer) q db = (db0, Ok ())"
      "db_st db0 = db_st db" "db_out db0 = (m1, w1)" "db_isMaster db0"
      using setInWal_ok [OF db(1) bg write_not_get [OF q(1)], of wal_writer "(m1, w1)"] ww True db(3,4) by auto
    show ?thesis by (rule wait [OF db0(1)]) (rule that, assumption, use db0(2-4) True in auto)
  next
    case False
    then obtain e where e: "r1 = Fail e" using r1 by blast
    have "\<exists>m2. flush_write wal_writer w (db_out db) = (w, (m2, w1), Hang)" if "wal_queryBuf w = [?r]" for w
      using flush_write_io_error [of w "(m, wd)" "(m1, w1)" e] that row ww e db(4) by simp
    then obtain db0 where db0: "setInWal Background live_wait (worker_turn wal_writer) q db = (db0, Hang)" "snd (db_out db0) = w1"
      using setInWal_crash [OF db(1) bg write_not_get [OF q(1)], of wal_writer w1] by auto
    show ?thesis by (rule wait [OF db0(1)]) (rule that, assumption, use db0(2) False in auto)
  qed
  obtain st' where "exec Background q (db_st db) = (st', Ok ''OK'')" using exec_write [OF q(1) db(2) bg] by blast
  then show ?thesis using db1 en by (auto simp: Execute_def expired_def split: option.splits)
qed

text \<open>A call that waits as long as the worker takes is answered exactly when its row has been written.\<close>

lemma Execute_disk:
  assumes db: "wal_idle (db_wal db)" "storage_inv (db_st db)" "db_isMaster db" "db_out db = (m, wd)"
    and q: "write_query q" "query_ok q"
    and mw: "Manager_Write [next_row q (db_wal db)] m wd = (m1, w1, r1)" and r1: "r1 = Ok () \<or> (\<exists>e. r1 = Fail e)"
  shows "\<exists>db1. Execute Background live_wait (worker_turn wal_writer) q db = (db1, if r1 = Ok () then Ok ''OK'' else Hang) \<and>
    snd (db_out db1) = w1"
  using Execute_disk_wait [OF assms, of live_wait] by (auto simp: expired_def live_wait_def)

lemma Execute_crash:
  assumes ok: "db_ok (Suc k) d db" "db_isMaster db" and q: "write_query q" "query_ok q"
  shows "\<exists>xs db1 a x. Execute Background wt (worker_turn wal_writer) q (fail_calls F db) = (db1, a) \<and>
    list_all (write_query \<circ> query_of) (xs @ [next_row q (db_wal db)]) \<and>
    storage_abs (db_st db) = kv_replay (ops_of xs) Map.empty \<and>
    write_left d xs [next_row q (db_wal db)] (snd (db_out db1)) x \<and> (a = expired wt \<or> a = Ok ''OK'' \<and> x = Ok ())"
proof -
  let ?r = "next_row q (db_wal db)" and ?m = "fst (db_out db)" and ?wd = "(snd (db_out db))\<lparr>w_faults := F\<rparr>"
  obtain xs where xs: "log_has d (Suc k) (db_out db) xs" "list_all (write_query \<circ> query_of) xs"
    "storage_abs (db_st db) = kv_replay (ops_of xs) Map.empty"
    using ok(1) by (auto simp: db_ok_def)
  obtain fs where fs: "mgr_ok (k + length [?r]) d ?m (heal ?wd) fs" "all_rows fs = xs"
    using log_has_heal [OF xs(1), of F] by (auto simp: log_has_def)
  obtain m1 w1 r1 where mw: "Manager_Write [?r] ?m ?wd = (m1, w1, r1)" by (metis prod_cases3)
  have row: "list_all row_ok [?r]" using next_row_ok [OF q(2)] by simp
  note left = Manager_Write_crash [OF fs(1) row mw, unfolded fs(2)]
  have "\<exists>db1 a. Execute Background wt (worker_turn wal_writer) q (fail_calls F db) = (db1, a) \<and> snd (db_out db1) = w1 \<and>
      (a = expired wt \<and> (r1 \<noteq> Ok () \<or> wt \<noteq> live_wait) \<or> a = Ok ''OK'' \<and> r1 = Ok ())"
    by (rule Execute_disk_wait [where m = ?m and wd = ?wd])
      (use ok q mw left in \<open>auto simp: db_ok_def fail_calls_def write_left_def\<close>)
  then show ?thesis
    using xs(2,3) left q(1) by (intro exI [of _ xs]) (auto simp: query_of_next_row)
qed

text \<open>No call changes the role.\<close>

lemma setInWal_isMaster: "setInWal ctx wt env q db = (db', r) \<Longrightarrow> db_isMaster db' = db_isMaster db"
  by (auto simp: setInWal_def split: prod.splits res.splits option.splits if_splits)

lemma Execute_isMaster: "Execute ctx wt env q db = (db', r) \<Longrightarrow> db_isMaster db' = db_isMaster db"
  by (auto simp: Execute_def dest!: setInWal_isMaster split: prod.splits res.splits if_splits)

lemma db_run_master: "db_isMaster db \<Longrightarrow> db_isMaster (fst (db_run qs db))"
  by (induction qs arbitrary: db) (auto dest!: Execute_isMaster split: prod.splits, metis fst_conv)

section \<open>Properties\<close>

text \<open>
  C5. An acknowledged write survives a crash: from a consistent state, after any run of queries, a
  SET or DEL during which any system calls fail, at any point and a write after any number of its
  bytes, is answered OK or with the error of its deadline of one second (and not at all only if
  that deadline never came). The program started on the files that are left comes up; it has the
  effect of every query answered OK, and of one answered with the deadline's error either the whole
  effect or none. This holds for every course of the wait, a deadline that passes while the row is
  written included.
\<close>

theorem acknowledged_write_survives_crash:
  assumes "db_ok (Suc k + length qs) d db" and "db_isMaster db"
    and "list_all (\<lambda>q. valid_query q \<and> query_ok q) qs" and "write_query q" and "query_ok q"
    and "c_Enable c" and "c_Directory c = d" and "0 \<le> c_FlushBatchSize c"
  shows "\<exists>db' rs. db_run qs db = (db', rs) \<and> kv_run qs (storage_abs (db_st db)) = (storage_abs (db_st db'), rs) \<and>
    (\<forall>F wt. \<exists>db1 a db2. Execute Background wt (worker_turn wal_writer) q (fail_calls F db') = (db1, a) \<and>
      InitDB_core early1 early2 engType n c isMaster (heal (snd (db_out db1))) = (heal (snd (db_out db1)), Ok db2) \<and>
      (if a = Ok ''OK'' then storage_abs (db_st db2) = kv_apply (qop q) (storage_abs (db_st db'))
       else a = expired wt \<and> storage_abs (db_st db2) \<in> {storage_abs (db_st db'), kv_apply (qop q) (storage_abs (db_st db'))}))"
proof -
  obtain db' where db': "db_run qs db = (db', snd (kv_run qs (storage_abs (db_st db))))" "db_ok (Suc k) d db'"
    "storage_abs (db_st db') = fst (kv_run qs (storage_abs (db_st db)))" "db_isMaster db'"
    using db_run_ok [OF assms(1-3)] db_run_master [OF assms(2), of qs] by (metis fst_conv)
  have "\<exists>db1 a db2. Execute Background wt (worker_turn wal_writer) q (fail_calls F db') = (db1, a) \<and>
      InitDB_core early1 early2 engType n c isMaster (heal (snd (db_out db1))) = (heal (snd (db_out db1)), Ok db2) \<and>
      (if a = Ok ''OK'' then storage_abs (db_st db2) = kv_apply (qop q) (storage_abs (db_st db'))
       else a = expired wt \<and> storage_abs (db_st db2) \<in> {storage_abs (db_st db'), kv_apply (qop q) (storage_abs (db_st db'))})" for F wt
  proof -
    let ?r = "next_row q (db_wal db')"
    obtain xs db1 a x where X: "Execute Background wt (worker_turn wal_writer) q (fail_calls F db') = (db1, a)"
      "list_all (write_query \<circ> query_of) (xs @ [?r])" "storage_abs (db_st db') = kv_replay (ops_of xs) Map.empty"
      "write_left d xs [?r] (snd (db_out db1)) x" "a = expired wt \<or> a = Ok ''OK'' \<and> x = Ok ()"
      using Execute_crash [OF db'(2,4) assms(4,5)] by blast
    obtain i db2 where Y: "i \<le> 1" "x = Ok () \<longrightarrow> i = 1"
      "InitDB_core early1 early2 engType n c isMaster (heal (snd (db_out db1))) = (heal (snd (db_out db1)), Ok db2)"
      "storage_abs (db_st db2) = kv_replay (ops_of (xs @ take i [?r])) Map.empty"
      using restart_left [OF X(4) assms(6-8) X(2), of early1 early2 engType n isMaster] by auto
    have "storage_abs (db_st db2) = (if i = 0 then storage_abs (db_st db') else kv_apply (qop q) (storage_abs (db_st db')))"
      using Y(1,4) X(3) by (cases i) (simp_all add: ops_of_def query_of_next_row)
    then show ?thesis using X(1,5) Y(2,3) by (intro exI [of _ db1] exI [of _ a] exI [of _ db2]) auto
  qed
  moreover have "kv_run qs (storage_abs (db_st db)) = (storage_abs (db_st db'), snd (kv_run qs (storage_abs (db_st db))))"
    by (simp add: db'(3))
  ultimately show ?thesis using db'(1) by blast
qed

text \<open>The deadline comes while the call waits for its future.\<close>

definition demo_wait :: waiting where
  "demo_wait = \<lparr>wt_early = None, wt_late = Some CtxDeadlineExceeded, wt_pick = True\<rparr>"

theorem acknowledged_write_survives_crash_witness:
  "\<exists>w db db' db1 a db2. InitDB_core True True ''in_memory'' 4 demo_config True demo_log_world = (w, Ok db) \<and>
     db_run [NewQuery SetMethodID [''k'', ''v'']] db = (db', [Ok ''OK'']) \<and>
     Execute Background demo_wait (worker_turn wal_writer) (NewQuery DelMethodID [''k''])
       (fail_calls [Fault 5 (IOErr ''disk'')] db') = (db1, a) \<and>
     InitDB_core False True ''in_memory'' 2 demo_config True (heal (snd (db_out db1))) = (heal (snd (db_out db1)), Ok db2) \<and>
     (if a = Ok ''OK'' then storage_abs (db_st db2) = Map.empty
      else a = Fail CtxDeadlineExceeded \<and> storage_abs (db_st db2) \<in> {[''k'' \<mapsto> ''v''], Map.empty})"
proof -
  let ?qs = "[NewQuery SetMethodID [''k'', ''v'']]" and ?q = "NewQuery DelMethodID [''k'']"
  obtain w db where db: "InitDB_core True True ''in_memory'' 4 demo_config True demo_log_world = (w, Ok db)"
    "db_ok (Suc 1 + length ?qs) ''wal'' db" "storage_abs (db_st db) = Map.empty" "db_isMaster db"
    using demo_database [of True True "''in_memory''" 4 True] by (auto simp: numeral_3_eq_3)
  have q: "list_all (\<lambda>q. valid_query q \<and> query_ok q) ?qs" "write_query ?q" "query_ok ?q"
    by (simp_all add: valid_query_def query_ok_def write_query_def NewQuery_def method_ids)
  have c: "c_Enable demo_config" "c_Directory demo_config = ''wal''" "0 \<le> c_FlushBatchSize demo_config"
    by (simp_all add: demo_config_def)
  have kv: "kv_run ?qs Map.empty = ([''k'' \<mapsto> ''v''], [Ok ''OK''])" "kv_apply (qop ?q) [''k'' \<mapsto> ''v''] = Map.empty"
    by (auto simp: NewQuery_def qop_def method_ids)
  from acknowledged_write_survives_crash [OF db(2,4) q c, of False True "''in_memory''" 2 True]
  obtain db' rs where D: "db_run ?qs db = (db', rs)" "kv_run ?qs (storage_abs (db_st db)) = (storage_abs (db_st db'), rs)"
    "\<forall>F wt. \<exists>db1 a db2. Execute Background wt (worker_turn wal_writer) ?q (fail_calls F db') = (db1, a) \<and>
      InitDB_core False True ''in_memory'' 2 demo_config True (heal (snd (db_out db1))) = (heal (snd (db_out db1)), Ok db2) \<and>
      (if a = Ok ''OK'' then storage_abs (db_st db2) = kv_apply (qop ?q) (storage_abs (db_st db'))
       else a = expired wt \<and> storage_abs (db_st db2) \<in> {storage_abs (db_st db'), kv_apply (qop ?q) (storage_abs (db_st db'))})"
    by (elim exE conjE) (rule that)
  have demo_wait: "expired demo_wait = (Fail CtxDeadlineExceeded :: string res)" by (simp add: expired_def demo_wait_def)
  have st: "rs = [Ok ''OK'']" "storage_abs (db_st db') = [''k'' \<mapsto> ''v'']" using D(2) unfolding db(3) kv(1) by simp_all
  from spec [OF spec [OF D(3), of "[Fault 5 (IOErr ''disk'')]"], of demo_wait] obtain db1 a db2 where
    "Execute Background demo_wait (worker_turn wal_writer) ?q (fail_calls [Fault 5 (IOErr ''disk'')] db') = (db1, a)"
    "InitDB_core False True ''in_memory'' 2 demo_config True (heal (snd (db_out db1))) = (heal (snd (db_out db1)), Ok db2)"
    "if a = Ok ''OK'' then storage_abs (db_st db2) = Map.empty
     else a = Fail CtxDeadlineExceeded \<and> storage_abs (db_st db2) \<in> {[''k'' \<mapsto> ''v''], Map.empty}"
    unfolding st(2) kv(2) demo_wait by (elim exE conjE) (rule that)
  with db(1) D(1) show ?thesis unfolding st(1) by blast
qed

text \<open>
  C7. A crash in a flush keeps a prefix of the batch: whatever system calls fail while the worker
  writes its buffer, over any number of segment files, the program started on the files that are
  left comes up with the replay of all earlier rows and of the first rows of the batch, of all of
  them when the flush has reported success; otherwise the flush never returns.
\<close>

theorem crash_in_flush_keeps_prefix:
  assumes "log_has d (k + length (wal_queryBuf w)) (m, wd) xs" and "list_all row_ok (wal_queryBuf w)"
    and "list_all (write_query \<circ> query_of) (xs @ wal_queryBuf w)"
    and "flush_write wal_writer w (m, wd\<lparr>w_faults := F\<rparr>) = (w', (m', wd'), r)"
    and "c_Enable c" and "c_Directory c = d" and "0 \<le> c_FlushBatchSize c"
  shows "\<exists>i db. i \<le> length (wal_queryBuf w) \<and> (if r = Ok None then i = length (wal_queryBuf w) else r = Hang) \<and>
    InitDB_core early1 early2 engType n c isMaster (heal wd') = (heal wd', Ok db) \<and>
    storage_abs (db_st db) = kv_replay (ops_of (xs @ take i (wal_queryBuf w))) Map.empty"
proof -
  have "log_has d (k + length (wal_queryBuf w)) (m, heal (wd\<lparr>w_faults := F\<rparr>)) xs"
    using log_has_heal [OF assms(1)] by simp
  from flush_write_crash [OF this assms(2,4)]
  obtain x where x: "write_left d xs (wal_queryBuf w) wd' x" "r = (if x = Ok () then Ok None else Hang)" by auto
  obtain i db where "i \<le> length (wal_queryBuf w)" "x = Ok () \<longrightarrow> i = length (wal_queryBuf w)"
    "InitDB_core early1 early2 engType n c isMaster (heal wd') = (heal wd', Ok db)"
    "storage_abs (db_st db) = kv_replay (ops_of (xs @ take i (wal_queryBuf w))) Map.empty"
    using restart_left [OF x(1) assms(5-7,3), of early1 early2 engType n isMaster] by blast
  with x(2) show ?thesis by (intro exI [of _ i] exI [of _ db]) auto
qed

theorem crash_in_flush_keeps_prefix_witness:
  "\<exists>m wd w w' m' wd' r i db. log_has ''wal'' 0 (m, wd) [] \<and> NewWAL demo_config = Ok w \<and>
     flush_write wal_writer (w\<lparr>wal_queryBuf := demo_rows\<rparr>) (m, wd\<lparr>w_faults := [Fault 20 (IOErr ''disk'')]\<rparr>) = (w', (m', wd'), r) \<and>
     InitDB_core True False ''in_memory'' 4 demo_config True (heal wd') = (heal wd', Ok db) \<and>
     storage_abs (db_st db) = kv_replay (ops_of (take i demo_rows)) Map.empty"
proof -
  obtain seg wd n where s: "mgr_ok (1 + length demo_rows) ''wal'' (NewSegmentManager NewIndexManagerMutex seg) wd [(n, [])]"
    using demo_manager [of 20] by (auto simp: demo_rows_def numeral_3_eq_3)
  define m where "m = NewSegmentManager NewIndexManagerMutex seg"
  have has: "log_has ''wal'' (1 + length demo_rows) (m, wd) []" unfolding log_has_def m_def using s by auto
  obtain w0 where w0: "NewWAL demo_config = Ok w0"
    by (simp add: NewWAL_def demo_config_def or_default_def defaultFlushBatchSize_def Let_def)
  define w where "w = w0\<lparr>wal_queryBuf := demo_rows\<rparr>"
  have w: "wal_queryBuf w = demo_rows" by (simp add: w_def)
  have q: "list_all (write_query \<circ> query_of) ([] @ demo_rows)"
    by (simp add: demo_rows_def query_of_def NewRow_def NewQuery_def write_query_def method_ids)
  have c: "c_Enable demo_config" "c_Directory demo_config = ''wal''" "0 \<le> c_FlushBatchSize demo_config"
    by (simp_all add: demo_config_def)
  obtain w' m' wd' r where fl: "flush_write wal_writer w (m, wd\<lparr>w_faults := [Fault 20 (IOErr ''disk'')]\<rparr>) = (w', (m', wd'), r)"
    by (metis prod_cases3 surj_pair)
  from crash_in_flush_keeps_prefix [OF has [folded w] _ _ fl c, unfolded w, OF demo_rows_ok q, of True False "''in_memory''" 4 True]
  obtain i db where
    "InitDB_core True False ''in_memory'' 4 demo_config True (heal wd') = (heal wd', Ok db)"
    "storage_abs (db_st db) = kv_replay (ops_of ([] @ take i demo_rows)) Map.empty" by blast
  moreover have "log_has ''wal'' 0 (m, wd) []" using log_has_le [OF has] by simp
  ultimately show ?thesis using w0 fl [unfolded w_def] by (metis append_Nil)
qed

end
