(* ===== verification/Torn_Tail.thy ===== *)
theory Torn_Tail
  imports Crash
begin

text \<open>
  What follows a torn write. The restart reopens the segment and appends behind the fragment
  (\<^verbatim>\<open>initFileSegment\<close> in \<^verbatim>\<open>internal/segment/segment.go\<close>), and the decoder does not resynchronise.
\<close>

section \<open>Rows out of step\<close>

lemma be_bytes_2: "be_bytes 2 n = [word_of_nat (n div 256), word_of_nat n]"
  by (simp add: be_bytes_def numeral_2_eq_2)

lemma marshal_args_length: "marshal_args as = Ok ms \<Longrightarrow> 2 * length as \<le> length ms"
  by (induction as arbitrary: ms) (auto split: if_splits res.splits)

lemma enc_parts:
  assumes "row_ok r"
  shows "\<exists>ms. enc r = be_bytes 8 (unat (r_lsnID r)) @ r_methodID r # word_of_nat (length (r_args r) div 256) #
    word_of_nat (length (r_args r)) # ms \<and> 2 * length (r_args r) \<le> length ms"
proof -
  obtain ms where "marshal_args (r_args r) = Ok ms" using assms marshal_args_Ok_iff by (auto simp: row_ok_def)
  moreover have "unat (word_of_nat (length (r_args r)) :: u16) = length (r_args r)"
    using assms by (simp add: row_ok_def unat_of_nat)
  ultimately show ?thesis using marshal_args_length by (simp add: enc_def Marshal_def be_bytes_2)
qed

text \<open>
  Read from its second byte on, a short row gives nothing: the low byte of its argument count is
  taken for the high one, and so many arguments do not follow.
\<close>

lemma shifted_row_lost:
  assumes ok: "row_ok r" and args: "r_args r \<noteq> []" and short: "length (enc r) < 523"
  shows "rows_of (tl (enc r)) = []"
proof (cases "tl (enc r)" rule: Unmarshal_elim)
  case (row r' n)
  have M: "Marshal r' = Ok (take n (tl (enc r)))" "length (r_args r') < 65536" "n \<le> length (tl (enc r))"
    using Marshal_Unmarshal [OF row(1)] by simp_all
  then have ok': "row_ok r'"
    using marshal_args_result [of "r_args r'"] marshal_args_Ok_iff [of "r_args r'"]
    by (auto simp: row_ok_def Marshal_def)
  have e': "enc r' = take n (tl (enc r))" using M(1) by (rule Marshal_enc)
  obtain ms where ms: "enc r = be_bytes 8 (unat (r_lsnID r)) @ r_methodID r # word_of_nat (length (r_args r) div 256) #
    word_of_nat (length (r_args r)) # ms" "2 * length (r_args r) \<le> length ms" using enc_parts [OF ok] by blast
  obtain ms' where ms': "enc r' = be_bytes 8 (unat (r_lsnID r')) @ r_methodID r' # word_of_nat (length (r_args r') div 256) #
    word_of_nat (length (r_args r')) # ms'" "2 * length (r_args r') \<le> length ms'" using enc_parts [OF ok'] by blast
  have "10 < n" using arg_cong [OF e', of length] M(3) by (simp add: ms'(1))
  then have "enc r' ! 9 = enc r ! 10" using M(3) by (simp add: e' nth_tl)
  then have "word_of_nat (length (r_args r') div 256) = (word_of_nat (length (r_args r)) :: byte)"
    by (simp add: ms(1) ms'(1) nth_append)
  moreover have "length (r_args r) < 256" using short ms by simp
  moreover have "length (r_args r') div 256 < 256" using M(2) by simp
  ultimately have "length (r_args r') div 256 = length (r_args r)"
    by (simp add: word_of_nat_eq_iff take_bit_eq_mod)
  moreover have "0 < length (r_args r)" using args by simp
  ultimately have "256 \<le> length (r_args r')" by (metis div_less gr_implies_not0 not_le_imp_less)
  then have "523 \<le> length (enc r')" using ms' by simp
  moreover have "length (enc r') \<le> length (enc r)" unfolding e' by simp
  ultimately show ?thesis using short by simp
qed (rule rows_of_EOF)

section \<open>One row into a segment with room\<close>

lemma Manager_Write_one:
  assumes "row_ok r" and "\<not> m_locked m" and "f_open (fs_file (m_curSeg m))"
    and "Fits (int (length (enc r)) + 1) (m_curSeg m)"
  shows "w_faults w = [] \<Longrightarrow>
      \<exists>m'. Manager_Write [r] m w = (m', append_file (f_path (fs_file (m_curSeg m))) (enc r) w, Ok ())"
    and "w_faults w = [Fault j e] \<Longrightarrow>
      \<exists>m'. Manager_Write [r] m w = (m', append_file (f_path (fs_file (m_curSeg m))) (take j (enc r)) (heal w), Fail e)"
proof -
  have one: "Manager_Write [r] m w = writeBatch [enc r] [r] m w"
    using assms(1,4) by (simp add: Manager_Write_def processBatches_def row_ok_Marshal)
  have ne: "enc r \<noteq> []" using enc_nonempty [OF assms(1)] .
  have heal: "w\<lparr>w_faults := []\<rparr> = heal w" by (simp add: heal_def)
  show "\<exists>m'. Manager_Write [r] m w = (m', append_file (f_path (fs_file (m_curSeg m))) (enc r) w, Ok ())"
    if "w_faults w = []"
    using assms(2,3) ne that
    by (simp add: one writeBatch_def writeInSeg_def Manager_flatten_def Segment_Write_def file_Write_def file_Sync_def Let_def)
  show "\<exists>m'. Manager_Write [r] m w = (m', append_file (f_path (fs_file (m_curSeg m))) (take j (enc r)) (heal w), Fail e)"
    if "w_faults w = [Fault j e]"
    using assms(2,3) ne that
    by (simp add: one writeBatch_def writeInSeg_def Manager_flatten_def Segment_Write_def file_Write_def take_fault_def Let_def heal)
qed

lemma append_file_twice: "append_file p bs (append_file p as w) = append_file p (as @ bs) w"
proof -
  have "content (append_file p as w) p = content w p @ as" by simp
  then show ?thesis by (simp add: append_file_def)
qed

text \<open>The bytes that the row of a query takes in the log.\<close>

definition row_size :: "query \<Rightarrow> nat" where
  "row_size q = length (enc (NewRow 0 (q_methodID q) (q_args q)))"

lemma row_size_of: "length (enc (NewRow i (q_methodID q) (q_args q))) = row_size q"
  by (cases "marshal_args (q_args q)") (simp_all add: row_size_def enc_def Marshal_def NewRow_def)

lemma row_size_next: "length (enc (next_row q w)) = row_size q"
  unfolding next_row_def by (rule row_size_of)

section \<open>The next write\<close>

lemma torn_then_written:
  assumes rows: "row_ok r0" "r_args r0 = as @ [a @ [c]]" "row_ok r1" "r_args r1 \<noteq> []" "length (enc r1) < 523"
  shows "\<exists>b. rows_of (butlast (enc r0) @ enc r1) = [r0\<lparr>r_args := as @ [a @ [char_of_byte b]]\<rparr>]"
proof -
  obtain b bs where e1: "enc r1 = b # bs" using enc_nonempty [OF rows(3)] by (cases "enc r1") auto
  let ?r = "r0\<lparr>r_args := as @ [a @ [char_of_byte b]]\<rparr>"
  have r: "row_ok ?r" "enc ?r = butlast (enc r0) @ [b]" using enc_last_byte [OF rows(2,1), of b] by simp_all
  have "rows_of bs = []" using shifted_row_lost [OF rows(3-5)] by (simp add: e1)
  then have "rows_of (butlast (enc r0) @ enc r1) = [?r]"
    using rows_of_encs [of "[?r]" bs] r by (simp add: e1)
  then show ?thesis by blast
qed

text \<open>The last file of a log, its size and what a torn row leaves of it.\<close>

lemma torn_disk:
  assumes ok: "mgr_ok k d m wd (fs @ [(n, rs)])" and r0: "row_ok r0"
  defines "w1 \<equiv> append_file (path_join d n) (butlast (enc r0)) wd"
  shows "w_faults w1 = []" "dir_usable d w1" "disk_rows d w1 = all_rows (fs @ [(n, rs)])"
    "last (sort (dir_entries d w1)) = n" "length (content w1 (path_join d n)) = length (encs rs) + length (enc r0) - 1"
    "disk_rows d (append_file (path_join d n) bs w1) = all_rows (fs @ [(n, rs)]) @ rows_of (butlast (enc r0) @ bs)"
    "dir_usable d (append_file (path_join d n) bs w1)"
proof -
  have R: "w_faults wd = []" "world_ok wd" "log_rel d wd (fs @ [(n, rs)])" "dir_usable d wd"
    using ok mgr_rel_usable [of k d m wd "fs @ [(n, rs)]"] by (simp_all add: mgr_ok_def mgr_rel_def)
  note last = log_rel_last [OF R(3,2)]
  have ents: "dir_entries d w1 = dir_entries d wd" unfolding w1_def using last(3) by (rule dir_entries_append)
  have "0 < length (enc r0)" using enc_nonempty [OF r0] by simp
  then have "rows_of (butlast (enc r0)) = []"
    using Unmarshal_torn [OF r0, of "length (enc r0) - 1"] by (simp add: butlast_conv_take rows_of_EOF)
  then show "disk_rows d w1 = all_rows (fs @ [(n, rs)])" using append_disk_rows [OF R(3,2)] by (simp add: w1_def)
  show use: "dir_usable d w1" unfolding w1_def using R(4) last(3) by (rule append_usable)
  show "w_faults w1 = []" using R(1) by (simp add: w1_def)
  show "last (sort (dir_entries d w1)) = n" using R(3) by (simp add: ents log_rel_def)
  show "length (content w1 (path_join d n)) = length (encs rs) + length (enc r0) - 1"
    using last(5) enc_length [OF r0] by (simp add: w1_def)
  show "disk_rows d (append_file (path_join d n) bs w1) = all_rows (fs @ [(n, rs)]) @ rows_of (butlast (enc r0) @ bs)"
    unfolding w1_def append_file_twice by (rule append_disk_rows [OF R(3,2)])
  show "dir_usable d (append_file (path_join d n) bs w1)"
    unfolding w1_def append_file_twice using R(4) last(3) by (rule append_usable)
qed

lemma altered_write_query:
  "write_query q \<Longrightarrow> q_args q = as @ [x] \<Longrightarrow> write_query (query_of ((next_row q w)\<lparr>r_args := as @ [y]\<rparr>))"
  by (auto simp: write_query_def query_of_def next_row_def NewRow_def NewQuery_def)

text \<open>The call that is cut off before its last byte.\<close>

lemma torn_call:
  assumes ok: "wal_idle (db_wal db)" "storage_inv (db_st db)" "db_isMaster db" "db_out db = (m, wd)"
    and m: "\<not> m_locked m" "f_open (fs_file (m_curSeg m))" "w_faults wd = []"
    and q: "write_query q" "query_ok q"
    and room: "fs_size (m_curSeg m) + int (row_size q) + 1 \<le> fs_maxSize (m_curSeg m)"
  shows "\<exists>db1. Execute Background live_wait (worker_turn wal_writer) q (fail_calls [Fault (row_size q - 1) e] db) = (db1, Hang) \<and>
    snd (db_out db1) = append_file (f_path (fs_file (m_curSeg m))) (butlast (enc (next_row q (db_wal db)))) wd"
proof -
  let ?r = "next_row q (db_wal db)" and ?db = "fail_calls [Fault (row_size q - 1) e] db"
  let ?wd = "wd\<lparr>w_faults := [Fault (row_size q - 1) e]\<rparr>"
  have "Fits (int (length (enc ?r)) + 1) (m_curSeg m)" using room by (simp add: Fits_def row_size_next)
  from Manager_Write_one(2) [OF next_row_ok [OF q(2)] m(1,2) this, of ?wd "row_size q - 1" e]
  obtain m1 where "Manager_Write [next_row q (db_wal ?db)] m ?wd =
      (m1, append_file (f_path (fs_file (m_curSeg m))) (butlast (enc ?r)) wd, Fail e)"
    by (auto simp: heal_clean [OF m(3)] butlast_conv_take row_size_next fail_calls_def)
  from Execute_disk [OF _ _ _ _ q this] show ?thesis using ok by (auto simp: fail_calls_def)
qed

text \<open>The restart on the torn file and the next call.\<close>

lemma call_after_torn:
  assumes ok: "mgr_ok k d m wd (fs @ [(n, rs)])" and r0: "row_ok r0"
    and rows: "list_all (write_query \<circ> query_of) (all_rows (fs @ [(n, rs)]))"
    and q: "write_query q" "query_ok q" and c: "c_Enable c" "c_Directory c = d" "0 \<le> c_FlushBatchSize c"
    and room: "int (length (encs rs) + length (enc r0) + row_size q) \<le> c_MaxSegmentSize c"
    and w1: "w1 = append_file (path_join d n) (butlast (enc r0)) wd"
  shows "\<exists>db2 db3. InitDB_core early1 early2 engType sh c True w1 = (w1, Ok db2) \<and>
    storage_abs (db_st db2) = kv_replay (ops_of (all_rows (fs @ [(n, rs)]))) Map.empty \<and>
    Execute Background live_wait (worker_turn wal_writer) q db2 = (db3, Ok ''OK'') \<and>
    snd (db_out db3) = append_file (path_join d n) (enc (next_row q (db_wal db2))) w1"
proof -
  note torn = torn_disk [OF ok r0, folded w1]
  obtain db2 m2 where db2: "InitDB_core early1 early2 engType sh c True w1 = (w1, Ok db2)"
    "storage_abs (db_st db2) = kv_replay (ops_of (all_rows (fs @ [(n, rs)]))) Map.empty" "storage_inv (db_st db2)"
    "wal_idle (db_wal db2)" "db_isMaster db2" "db_out db2 = (m2, w1)" "\<not> m_locked m2"
    "m_curSeg m2 = reopened d (c_MaxSegmentSize c) w1"
    using InitDB_core_any [of w1 c early1 early2 engType sh True] torn(1-3) rows c by auto
  let ?r1 = "next_row q (db_wal db2)"
  have seg2: "m_curSeg m2 = \<lparr>fs_file = \<lparr>f_path = path_join d n, f_pos = 0, f_open = True\<rparr>, fs_path = d,
      fs_size = int (length (encs rs) + length (enc r0) - 1), fs_maxSize = c_MaxSegmentSize c\<rparr>"
    by (simp add: db2(8) reopened_def torn(4,5) Let_def)
  have "Fits (int (length (enc ?r1)) + 1) (m_curSeg m2)"
    using room enc_length [OF r0] by (simp add: seg2 Fits_def row_size_next)
  from Manager_Write_one(1) [OF next_row_ok [OF q(2)] db2(7) _ this torn(1)]
  obtain m3 where "Manager_Write [?r1] m2 w1 = (m3, append_file (path_join d n) (enc ?r1) w1, Ok ())"
    by (auto simp: seg2)
  from Execute_disk [OF db2(4,3,5,6) q this] db2(1,2) show ?thesis by auto
qed

section \<open>Properties\<close>

text \<open>
  C30. A torn write makes the log lose a later acknowledged one: when a crash cuts off the last byte
  of a row, the restart comes up without this row, as it should, and the next write is answered OK;
  but its row is appended behind the fragment. The restart after it does not have this write, and
  has instead the write that was never answered, with its last byte replaced.
\<close>

theorem write_after_torn_row_lost:
  assumes ok: "db_ok (Suc k) d db" "db_isMaster db"
    and q0: "write_query q0" "query_ok q0" "q_args q0 = as @ [a @ [ch]]"
    and q1: "write_query q1" "query_ok q1" "row_size q1 < 523"
    and c: "c_Enable c" "c_Directory c = d" "0 \<le> c_FlushBatchSize c"
    and room: "fs_size (m_curSeg (fst (db_out db))) + int (row_size q0) + 1 \<le> fs_maxSize (m_curSeg (fst (db_out db)))"
      "fs_size (m_curSeg (fst (db_out db))) + int (row_size q0 + row_size q1) \<le> c_MaxSegmentSize c"
  shows "\<exists>db1 db2 db3 db4 b.
    Execute Background live_wait (worker_turn wal_writer) q0 (fail_calls [Fault (row_size q0 - 1) e] db) = (db1, Hang) \<and>
    InitDB_core early1 early2 engType n c True (snd (db_out db1)) = (snd (db_out db1), Ok db2) \<and>
    storage_abs (db_st db2) = storage_abs (db_st db) \<and>
    Execute Background live_wait (worker_turn wal_writer) q1 db2 = (db3, Ok ''OK'') \<and>
    InitDB_core early1 early2 engType n c True (snd (db_out db3)) = (snd (db_out db3), Ok db4) \<and>
    storage_abs (db_st db4) =
      kv_apply (qop (NewQuery (q_methodID q0) (as @ [a @ [char_of_byte b]]))) (storage_abs (db_st db))"
proof -
  define r0 where "r0 = next_row q0 (db_wal db)"
  obtain m wd where out: "db_out db = (m, wd)" by (cases "db_out db")
  obtain fs xs where fs: "mgr_ok (Suc k) d m wd fs" "all_rows fs = xs" "list_all (write_query \<circ> query_of) xs"
    "storage_abs (db_st db) = kv_replay (ops_of xs) Map.empty" "fs \<noteq> []"
    using ok(1) by (auto simp: db_ok_def log_has_def out mgr_ok_def mgr_rel_def)
  obtain fs0 nm rs where last: "fs = fs0 @ [(nm, rs)]" using fs(5) by (metis rev_exhaust surj_pair)
  have R: "\<not> m_locked m" "f_open (fs_file (m_curSeg m))" "w_faults wd = []" "f_path (fs_file (m_curSeg m)) = path_join d nm"
    "fs_size (m_curSeg m) = int (length (encs rs))"
    using fs(1) by (simp_all add: last mgr_ok_def mgr_rel_def)
  have row0: "row_ok r0" "r_args r0 = as @ [a @ [ch]]" "length (enc r0) = row_size q0"
    using next_row_ok [OF q0(2)] q0(3) by (simp_all add: r0_def row_size_next) (simp add: next_row_def NewRow_def)
  define w1 where "w1 = append_file (path_join d nm) (butlast (enc r0)) wd"
  note torn = torn_disk [OF fs(1) [unfolded last] row0(1), folded w1_def last, unfolded fs(2)]
  obtain db1 where db1: "Execute Background live_wait (worker_turn wal_writer) q0 (fail_calls [Fault (row_size q0 - 1) e] db) = (db1, Hang)"
    "snd (db_out db1) = w1"
    using torn_call [OF _ _ ok(2) out R(1-3) q0(1,2), of e] ok(1) room(1) by (auto simp: db_ok_def out w1_def r0_def R(4))
  obtain db2 db3 where db2: "InitDB_core early1 early2 engType n c True w1 = (w1, Ok db2)"
      "storage_abs (db_st db2) = kv_replay (ops_of xs) Map.empty"
    and db3: "Execute Background live_wait (worker_turn wal_writer) q1 db2 = (db3, Ok ''OK'')"
      "snd (db_out db3) = append_file (path_join d nm) (enc (next_row q1 (db_wal db2))) w1"
    using call_after_torn [OF fs(1) [unfolded last] row0(1) _ q1(1,2) c _ w1_def, of early1 early2 engType n] fs(2,3) room(2)
    by (auto simp: last row0(3) out R(5))
  define r1 where "r1 = next_row q1 (db_wal db2)"
  have row1: "row_ok r1" "r_args r1 \<noteq> []" "length (enc r1) = row_size q1"
    using next_row_ok [OF q1(2)] q1(1) by (auto simp: r1_def row_size_next) (auto simp: next_row_def NewRow_def write_query_def)
  obtain b where b: "rows_of (butlast (enc r0) @ enc r1) = [r0\<lparr>r_args := as @ [a @ [char_of_byte b]]\<rparr>]"
    using torn_then_written [OF row0(1,2) row1(1,2)] q1(3) row1(3) by auto
  have wq: "write_query (query_of (r0\<lparr>r_args := as @ [a @ [char_of_byte b]]\<rparr>))"
    unfolding r0_def using q0(1,3) by (rule altered_write_query)
  have dr: "disk_rows d (snd (db_out db3)) = xs @ [r0\<lparr>r_args := as @ [a @ [char_of_byte b]]\<rparr>]"
    using torn(6) b by (simp add: db3(2) r1_def)
  have "w_faults (snd (db_out db3)) = []" "dir_usable d (snd (db_out db3))" using torn(1,7) by (simp_all add: db3(2))
  then obtain db4 where db4: "InitDB_core early1 early2 engType n c True (snd (db_out db3)) = (snd (db_out db3), Ok db4)"
    "storage_abs (db_st db4) = kv_replay (ops_of (xs @ [r0\<lparr>r_args := as @ [a @ [char_of_byte b]]\<rparr>])) Map.empty"
    using InitDB_core_any [of "snd (db_out db3)" c early1 early2 engType n True] dr wq fs(3) c by auto
  have "query_of (r0\<lparr>r_args := as @ [a @ [char_of_byte b]]\<rparr>) = NewQuery (q_methodID q0) (as @ [a @ [char_of_byte b]])"
    by (simp add: query_of_def r0_def next_row_def NewRow_def)
  then have "storage_abs (db_st db4) =
      kv_apply (qop (NewQuery (q_methodID q0) (as @ [a @ [char_of_byte b]]))) (storage_abs (db_st db))"
    by (simp add: db4(2) ops_of_def fs(4))
  then show ?thesis using db1 db2 db3(1) db4(1) fs(4) by (metis (no_types, lifting))
qed

text \<open>A new database has an empty segment of the configured size.\<close>

lemma demo_segment_empty:
  "\<exists>w' db. InitDB_core early1 early2 engType n demo_config True demo_log_world = (w', Ok db) \<and>
     db_ok 3 ''wal'' db \<and> storage_abs (db_st db) = Map.empty \<and> db_isMaster db \<and>
     fs_size (m_curSeg (fst (db_out db))) = 0 \<and> fs_maxSize (m_curSeg (fst (db_out db))) = 1000"
proof -
  have "fresh_names (Suc 3) ''wal'' demo_log_world" using demo_fresh_names by simp
  then obtain w' db where db: "InitDB_core early1 early2 engType n demo_config True demo_log_world = (w', Ok db)"
    "db_ok 3 ''wal'' db" "storage_abs (db_st db) = Map.empty" "db_isMaster db" "log_has ''wal'' 3 (db_out db) []"
    "fs_maxSize (m_curSeg (fst (db_out db))) = 1000"
    using InitDB_core_full [of demo_log_world demo_config "[]" 3 early1 early2 engType n True]
    by (auto simp: demo_log_world_def demo_config_def world_ok_def log_rel_def dir_entries_def seg_bounded_def ops_of_def)
  obtain fs where fs: "mgr_ok 3 ''wal'' (fst (db_out db)) (snd (db_out db)) fs" "all_rows fs = []" "fs \<noteq> []"
    using db(5) by (auto simp: log_has_def mgr_ok_def mgr_rel_def)
  then have "snd (last fs) = []" using last_in_set [OF fs(3)] by (auto simp: all_rows_def)
  then have "fs_size (m_curSeg (fst (db_out db))) = 0" using fs(1) by (simp add: mgr_ok_def mgr_rel_def)
  with db show ?thesis by blast
qed

theorem write_after_torn_row_lost_witness:
  "\<exists>w db db1 db2 db3 db4 b. InitDB_core True True ''in_memory'' 4 demo_config True demo_log_world = (w, Ok db) \<and>
     Execute Background live_wait (worker_turn wal_writer) (NewQuery SetMethodID [''k'', ''v''])
       (fail_calls [Fault (row_size (NewQuery SetMethodID [''k'', ''v'']) - 1) (IOErr ''disk'')] db) = (db1, Hang) \<and>
     InitDB_core True True ''in_memory'' 4 demo_config True (snd (db_out db1)) = (snd (db_out db1), Ok db2) \<and>
     storage_abs (db_st db2) = Map.empty \<and>
     Execute Background live_wait (worker_turn wal_writer) (NewQuery SetMethodID [''x'', ''y'']) db2 = (db3, Ok ''OK'') \<and>
     InitDB_core True True ''in_memory'' 4 demo_config True (snd (db_out db3)) = (snd (db_out db3), Ok db4) \<and>
     storage_abs (db_st db4) = [''k'' \<mapsto> [char_of_byte b]]"
proof -
  let ?q0 = "NewQuery SetMethodID [''k'', ''v'']" and ?q1 = "NewQuery SetMethodID [''x'', ''y'']"
  obtain w db where db: "InitDB_core True True ''in_memory'' 4 demo_config True demo_log_world = (w, Ok db)"
    "db_ok (Suc 2) ''wal'' db" "storage_abs (db_st db) = Map.empty" "db_isMaster db"
    "fs_size (m_curSeg (fst (db_out db))) = 0" "fs_maxSize (m_curSeg (fst (db_out db))) = 1000"
    using demo_segment_empty [of True True "''in_memory''" 4] by (auto simp: numeral_3_eq_3)
  have q: "write_query ?q0" "query_ok ?q0" "write_query ?q1" "query_ok ?q1"
    by (simp_all add: query_ok_def write_query_def NewQuery_def)
  have args: "q_args ?q0 = [''k''] @ [[] @ [CHR ''v'']]" by (simp add: NewQuery_def)
  have sz: "row_size ?q0 = 17" "row_size ?q1 = 17" by (simp_all add: row_size_def NewQuery_def NewRow_def enc_def Marshal_def)
  have small: "row_size ?q1 < 523" by (simp add: sz)
  have c: "c_Enable demo_config" "c_Directory demo_config = ''wal''" "0 \<le> c_FlushBatchSize demo_config"
    by (simp_all add: demo_config_def)
  have room: "fs_size (m_curSeg (fst (db_out db))) + int (row_size ?q0) + 1 \<le> fs_maxSize (m_curSeg (fst (db_out db)))"
    "fs_size (m_curSeg (fst (db_out db))) + int (row_size ?q0 + row_size ?q1) \<le> c_MaxSegmentSize demo_config"
    by (simp_all add: db(5,6) sz demo_config_def)
  have kv: "kv_apply (qop (NewQuery (q_methodID ?q0) ([''k''] @ [[] @ [x]]))) Map.empty = [''k'' \<mapsto> [x]]" for x
    by (simp add: qop_def NewQuery_def)
  from write_after_torn_row_lost [OF db(2,4) q(1,2) args q(3,4) small c room, of "IOErr ''disk''" True True "''in_memory''" 4]
  show ?thesis using db(1) unfolding db(3) kv by blast
qed

end
