(* ===== verification/Spec2Isabelle.thy ===== *)
theory Spec2Isabelle
  imports Program Byte_Size Sessions Replica Load_Test Torn_Tail
begin

text \<open>
  \<^bold>\<open>Verification of Laguna\<close>, an in-memory key-value database in Go with a write-ahead log and
  master-slave replication. All file names are below \<^verbatim>\<open>src/\<close>.

  \<^bold>\<open>The program.\<close> A listener (\<^verbatim>\<open>internal/transport\<close>) reads lines from TCP connections or the
  terminal and hands each to the request handler (\<^verbatim>\<open>internal/handlers\<close>), which parses it
  (\<^verbatim>\<open>internal/query\<close>) and executes the query on the database (\<^verbatim>\<open>internal/database\<close>). A write goes
  first through the write-ahead log (\<^verbatim>\<open>internal/database/wal\<close>): the call sends its row into a channel
  and waits on a future, a worker collects the rows and flushes them through the log writer
  (\<^verbatim>\<open>internal/database/logs\<close>) and the segment manager (\<^verbatim>\<open>internal/segment\<close>) into files that are
  rotated by size and indexed by sequence number. Then the query is executed on a sharded map
  (\<^verbatim>\<open>internal/database/storage\<close>). At the start the log is read back and replayed. A slave asks the
  master for the rows after the last number it has (\<^verbatim>\<open>internal/database/replication\<close>).

  \<^bold>\<open>The theories\<close>, from the bottom up.

  \<^item> \<^theory_text>\<open>Laguna_Prelude\<close>: machine words, byte encodings, the error values of all packages and the
    result type \<open>Ok v | Fail e | Panic | Hang\<close> that every modelled operation ends in; \<open>Hang\<close> is
    waiting for ever on a lock or a channel.
  \<^item> \<^theory_text>\<open>Query\<close> (\<^verbatim>\<open>internal/query\<close>): the parser with the string functions it uses. It implements a
    grammar on the tokens of a line, and the queries that survive printing and parsing are exactly
    those it can return.
  \<^item> \<^theory_text>\<open>Id_Generator\<close>, \<^theory_text>\<open>Retry\<close>, \<^theory_text>\<open>Concurrency\<close> (\<^verbatim>\<open>utils/id_generator\<close>, \<^verbatim>\<open>utils/ctx_utils\<close>, \<^verbatim>\<open>utils/retry\<close>,
    \<^verbatim>\<open>utils/concurrency\<close>): the counter with its wrap-around, the retry loop with its back-off in
    64-bit arithmetic, channels, the semaphore, the futures, and the stream of a goroutine and its
    consumer as a step relation with all its outcomes.
  \<^item> \<^theory_text>\<open>Engine\<close>, \<^theory_text>\<open>Storage\<close> (\<^verbatim>\<open>internal/database/storage\<close>): the sharded engine refines one map; the
    locale \<open>storage_if\<close> is what the database relies on.
  \<^item> \<^theory_text>\<open>Row\<close> (\<^verbatim>\<open>internal/database/wal/wal_record.go\<close>): the binary format of the rows and its round trip.
  \<^item> \<^theory_text>\<open>Fs\<close> (\<^verbatim>\<open>utils/fs\<close>): files and directories as a record \<open>world\<close>, with a list of scripted faults
    that the calls of the operating system consume one by one, and a clock.
  \<^item> \<^theory_text>\<open>Index\<close>, \<^theory_text>\<open>Segment\<close> (\<^verbatim>\<open>internal/segment\<close>): the three index managers behind one locale, the
    segment files, the rotation and the batch writer. \<open>mgr_ok k d m w fs\<close> relates manager and files
    to the abstract log \<open>fs\<close>, the rows per file in name order; a write appends to it.
  \<^item> \<^theory_text>\<open>Logs\<close> (\<^verbatim>\<open>internal/database/logs\<close>): the read loop, which does not depend on how the bytes are
    cut, reading from an index entry, restoring, and the log writer over the locale \<open>log_target\<close>,
    which is interpreted for the segment manager here and for a connection in \<^theory_text>\<open>Protocol\<close>.
  \<^item> \<^theory_text>\<open>Wal\<close> (\<^verbatim>\<open>internal/database/wal/wal.go\<close>): the calls and the worker as functions, their
    interleavings as the step relation \<open>wstep\<close> with its invariants.
  \<^item> \<^theory_text>\<open>Database\<close> (\<^verbatim>\<open>internal/database\<close>): execution, logging and restoration. \<open>db_ok\<close> says that the storage
    is the replay of the log; every call keeps it, and a restart reestablishes it.
  \<^item> \<^theory_text>\<open>Crash\<close>: a write under any script of failing system calls, a torn write included, and the
    restart on what it leaves. \<open>disk_rows\<close> is what the files of a directory decode to, and a start on
    any files replays exactly these rows. \<^theory_text>\<open>Torn_Tail\<close>: the first write after a restart on a torn row.
  \<^item> \<^theory_text>\<open>Concurrent_Calls\<close>: many calls of \<^verbatim>\<open>Execute\<close> at once, each split where another goroutine can come
    between, over the steps of the log. The history of the operations on the storage gives an order
    of the calls; invariants tie it to the answers and to the rows sent. The calls have any query that
    the parser makes, also one that does not fit the format of the log.
  \<^item> \<^theory_text>\<open>Bufio\<close>: the buffered reader and writer of Go's \<^verbatim>\<open>bufio\<close> with their buffer of 4096 bytes; the
    lemmas are about the bytes a reader will still deliver, whatever reads they come in.
  \<^item> \<^theory_text>\<open>Protocol\<close>, \<^theory_text>\<open>Replication\<close> (\<^verbatim>\<open>internal/database/replication\<close>): the messages, the master and the
    slave, and a slave connected to its master.
  \<^item> \<^theory_text>\<open>Replica\<close>: a round of the slave in small steps, with reads on the same storage and a master that
    goes on writing in between, in the order of its numbers; a round of \<^theory_text>\<open>Replication\<close> is one of the runs.
  \<^item> \<^theory_text>\<open>Handlers\<close>, \<^theory_text>\<open>Transport\<close> (\<^verbatim>\<open>internal/handlers\<close>, \<^verbatim>\<open>internal/transport\<close>): one request, the loop of a
    connection over the locale \<open>serving\<close>, interpreted for the request handler and for the master,
    the accept loop as a step relation, the terminal, and the client with its deadlines.
  \<^item> \<^theory_text>\<open>Sessions\<close>: many connections at once, over the calls of \<^theory_text>\<open>Concurrent_Calls\<close>; reading a line, its
    call and writing the answer are separate steps, under any faults of the network.
  \<^item> \<^theory_text>\<open>Logger\<close> (\<^verbatim>\<open>common/logger\<close>): the fields and the configuration handed to the zap library.
  \<^item> \<^theory_text>\<open>Load_Test\<close> (\<^verbatim>\<open>system_load_testing\<close>): every command it sends is accepted, and its connections
    take turns.
  \<^item> \<^theory_text>\<open>Program\<close>, \<^theory_text>\<open>Byte_Size\<close> (\<^verbatim>\<open>main.go\<close>, \<^verbatim>\<open>slave_instance/main.go\<close>, \<^verbatim>\<open>client/client.go\<close>, the
    \<^verbatim>\<open>initialization.go\<close> files, \<^verbatim>\<open>internal/config\<close>, \<^verbatim>\<open>utils/data_type\<close>): the configuration, the start and
    stop of the programs, the loop of the client, the sizes of the configuration.

  \<^bold>\<open>What is shown.\<close> This theory has the properties of the whole: a master serves a connection
  as the map its log replays to and has the same map after a restart; a slave reaches the storage
  and the log of its master in one round; and two concurrent writes can leave a log that a slave
  fetches again and again. Clients on any number of connections see one map, each line of each
  connection executed at most once and answered in its order; concurrent calls are linearizable on
  the storage, and a stopped log on a working disk holds all executed writes that fit its format,
  but not necessarily in the order of their execution; an acknowledged write survives a crash at any
  system call, whatever the deadline of the call does, and a crash in a flush keeps a prefix of its
  batch; reads on a slave see growing prefixes of the master's log while that log is in order. The properties of the components below them are the codecs
  and their round trips, the refinement of the engine, the appending log with its index and its
  size bound, the order of the rows under every interleaving, the restoration, and the bounds on
  connections and retries. Where the code does not do what it is meant to, the property states what
  it does: rows acknowledged before they are written, a
  write lost because a torn row stands before it, rows and errors that stop the log, a slave
  that stops after the deadline of its connection, connections that spin.

  \<^bold>\<open>Bounds and fuel.\<close> The index \<open>k\<close> of \<open>mgr_ok\<close>, \<open>log_has\<close>, \<open>db_ok\<close> and their kin is the number of
  files that may still be created with fresh names: \<open>fresh_names k\<close> asks that the next \<open>k\<close> readings of
  the clock give file names above all existing ones, and \<open>fresh_names_from_clock\<close> derives it from an
  advancing clock. Every row needs at most one new file, so \<open>k + n\<close> is enough for \<open>n\<close> writes. The
  fuel of \<open>conn_loop\<close> counts the calls of the handler: one per request and one for the end of the
  input are shown to suffice, and the loops that never end are shown to exhaust any fuel; \<open>startReplication\<close> and \<open>client_loop\<close>
  take the contexts of their rounds, one per round, and end in \<open>Hang\<close> when they are still running. All other
  loops are total functions. The one-second deadline of a write and the pauses of the retries are
  arguments (\<open>live_wait\<close> is a call that waits as long as the worker takes, \<open>expired\<close> the answer of one whose
  deadline comes first); the worker between the registration of a write and its answer is the argument \<open>env\<close> of
  \<open>Execute\<close>, in the properties one turn of the worker.

  \<^bold>\<open>Not modelled.\<close> The calls that write log entries are left out of the operations, since they only
  produce output. The zap and YAML libraries are arguments; signals and the profiler's HTTP server
  are the environment. The getters of rows and queries are the fields of the records, and the Go
  interfaces are the locales and the arguments of the operations that use them. A crash
  loses any part of the write under way, which the code syncs before it goes on; the loss of a synced
  byte or of a directory entry is not modelled.
\<close>

section \<open>Numbered rows\<close>

text \<open>
  The state of a master whose log holds the rows \<open>xs\<close>, numbered from one on without a gap, the
  storage being their replay.
\<close>

definition served :: "string \<Rightarrow> nat \<Rightarrow> log_files database \<Rightarrow> row list \<Rightarrow> bool" where
  "served d k db xs \<longleftrightarrow> wal_idle (db_wal db) \<and> storage_inv (db_st db) \<and> db_isMaster db \<and> log_has d k (db_out db) xs \<and>
     list_all (write_query \<circ> query_of) xs \<and> storage_abs (db_st db) = kv_replay (ops_of xs) Map.empty \<and>
     gen_id (wal_lsnGen (db_wal db)) = word_of_nat (length xs) \<and> map r_lsnID xs = map word_of_nat [1..<Suc (length xs)]"

lemma served_db_ok: "served d k db xs \<Longrightarrow> db_ok k d db"
  by (auto simp: served_def db_ok_def)

lemma served_less: "served d (Suc k) db xs \<Longrightarrow> served d k db xs"
  using log_has_le [of d "Suc k" "db_out db" xs k] by (simp add: served_def)

lemma served_write:
  assumes "served d (Suc k) db xs" and "query_ok q" "write_query q"
  shows "\<exists>db' r. Execute Background live_wait (worker_turn wal_writer) q db = (db', Ok ''OK'') \<and> served d k db' (xs @ [r]) \<and>
    storage_abs (db_st db') = kv_apply (qop q) (storage_abs (db_st db)) \<and> length (enc r) = row_size q"
proof -
  have bg: "ctx_err Background = None" by (simp add: Background_def)
  let ?r = "next_row q (db_wal db)"
  obtain db' where db': "Execute Background live_wait (worker_turn wal_writer) q db = (db', Ok ''OK'')" "wal_idle (db_wal db')"
    "storage_inv (db_st db')" "storage_abs (db_st db') = kv_apply (qop q) (storage_abs (db_st db))" "db_isMaster db'"
    "log_has d k (db_out db') (xs @ [?r])" "wal_lsnGen (db_wal db') = fst (NextID (wal_lsnGen (db_wal db)))"
    using Execute_write_rows [of db d k xs q Background] assms bg by (auto simp: served_def)
  have "served d k db' (xs @ [?r])"
    using db' assms by (simp add: served_def ops_of_def query_of_next_row)
      (simp add: next_row_def NewRow_def NextID_def Let_def)
  moreover have "length (enc ?r) = row_size q" unfolding next_row_def by (rule row_size_of)
  ultimately show ?thesis using db' by blast
qed

lemma served_get:
  assumes "served d k db xs" and "q_methodID q = GetMethodID" "q_args q \<noteq> []"
  shows "\<exists>db'. Execute Background live_wait (worker_turn wal_writer) q db =
      (db', Ok (case storage_abs (db_st db) (q_args q ! 0) of None \<Rightarrow> [] | Some v \<Rightarrow> v)) \<and> served d k db' xs \<and>
    storage_abs (db_st db') = storage_abs (db_st db)"
proof -
  have inv: "storage_inv (db_st db)" and bg: "ctx_err Background = None" using assms(1) by (simp_all add: served_def Background_def)
  obtain st' where "Execute Background live_wait (worker_turn wal_writer) q db =
      (db\<lparr>db_st := st'\<rparr>, Ok (case storage_abs (db_st db) (q_args q ! 0) of None \<Rightarrow> [] | Some v \<Rightarrow> v))"
    "storage_inv st'" "storage_abs st' = storage_abs (db_st db)"
    using Execute_get_only [OF inv assms(2,3) bg] by blast
  then show ?thesis using assms(1) by (intro exI [of _ "db\<lparr>db_st := st'\<rparr>"]) (simp add: served_def)
qed

lemma served_run:
  "served d (k + length qs) db xs \<Longrightarrow> list_all (\<lambda>q. valid_query q \<and> query_ok q) qs \<Longrightarrow>
   \<exists>db' ys. db_run qs db = (db', snd (kv_run qs (storage_abs (db_st db)))) \<and> served d k db' (xs @ ys) \<and>
     storage_abs (db_st db') = fst (kv_run qs (storage_abs (db_st db))) \<and> length ys \<le> length qs \<and>
     length (encs ys) \<le> sum_list (map row_size qs) \<and> (list_ex write_query qs \<longrightarrow> ys \<noteq> [])"
proof (induction qs arbitrary: db xs)
  case (Cons q qs)
  from Cons.prems have s: "served d (Suc (k + length qs)) db xs" and q: "valid_query q" "query_ok q" by simp_all
  show ?case
  proof (cases "write_query q")
    case True
    obtain db1 r where db1: "Execute Background live_wait (worker_turn wal_writer) q db = (db1, Ok ''OK'')"
      "served d (k + length qs) db1 (xs @ [r])" "storage_abs (db_st db1) = kv_apply (qop q) (storage_abs (db_st db))"
      "length (enc r) = row_size q"
      using served_write [OF s q(2) True] by blast
    obtain db' ys where "db_run qs db1 = (db', snd (kv_run qs (storage_abs (db_st db1))))" "served d k db' ((xs @ [r]) @ ys)"
      "storage_abs (db_st db') = fst (kv_run qs (storage_abs (db_st db1)))" "length ys \<le> length qs"
      "length (encs ys) \<le> sum_list (map row_size qs)"
      using Cons.IH [OF db1(2)] Cons.prems(2) by auto
    then show ?thesis using db1 write_not_get [OF True]
      by (intro exI [of _ db'] exI [of _ "r # ys"]) (simp add: encs_def split: prod.splits)
  next
    case False
    then have g: "q_methodID q = GetMethodID" "q_args q \<noteq> []" using valid_query_cases [OF q(1)] by auto
    obtain db1 where db1: "Execute Background live_wait (worker_turn wal_writer) q db =
        (db1, Ok (case storage_abs (db_st db) (q_args q ! 0) of None \<Rightarrow> [] | Some v \<Rightarrow> v))" "served d (k + length qs) db1 xs"
      "storage_abs (db_st db1) = storage_abs (db_st db)"
      using served_get [OF served_less [OF s] g] by blast
    obtain db' ys where "db_run qs db1 = (db', snd (kv_run qs (storage_abs (db_st db1))))" "served d k db' (xs @ ys)"
      "storage_abs (db_st db') = fst (kv_run qs (storage_abs (db_st db1)))" "length ys \<le> length qs"
      "length (encs ys) \<le> sum_list (map row_size qs)" "list_ex write_query qs \<longrightarrow> ys \<noteq> []"
      using Cons.IH [OF db1(2)] Cons.prems(2) by auto
    then show ?thesis using db1 g False
      by (intro exI [of _ db'] exI [of _ ys]) (simp split: prod.splits)
  qed
qed (simp add: encs_def)


section \<open>From the database to the replication\<close>

text \<open>A quiet connection of a slave to the master whose log is in the given files.\<close>

definition link_to :: "log_files \<Rightarrow> link" where
  "link_to x = (\<lparr>mc_r = NewReader [], mc_w = NewWriter \<lparr>sk_out = [], sk_faults = []\<rparr>, mc_m = fst x, mc_files = snd x\<rparr>, [])"

lemma log_master_ok:
  assumes "log_has d k x xs" and "distinct (map r_lsnID xs)" and "list_all (write_query \<circ> query_of) xs"
  shows "\<exists>fs. master_ok d fs (link_to x) \<and> all_rows fs = xs"
proof -
  obtain fs where fs: "mgr_ok k d (fst x) (snd x) fs" "all_rows fs = xs" using assms(1) by (auto simp: log_has_def)
  then have "master_ok d fs (link_to x)"
    using mgr_ok_readable [OF fs(1)] assms(2,3) by (simp add: master_ok_def link_ok_def link_to_def mgr_ok_def)
  with fs(2) show ?thesis by blast
qed

lemma distinct_numbers: "n < 2 ^ 64 \<Longrightarrow> distinct (map (word_of_nat :: nat \<Rightarrow> u64) [1..<Suc n])"
  by (auto simp: distinct_map inj_on_def word_of_nat_eq_iff take_bit_eq_mod)

lemma served_master_ok:
  assumes "served d k db xs" and "length xs < 2 ^ 64"
  shows "\<exists>fs. master_ok d fs (link_to (db_out db)) \<and> all_rows fs = xs"
  using log_master_ok [of d k "db_out db" xs] distinct_numbers [OF assms(2)] assms(1) by (simp add: served_def)

lemma served_first: "served d k db xs \<Longrightarrow> xs \<noteq> [] \<Longrightarrow> r_lsnID (hd xs) = 1"
  by (cases xs) (auto simp: served_def upt_conv_Cons simp del: upt_Suc)

lemma InitDB_served:
  assumes "w_faults w = []" "world_ok w" "c_Directory c \<noteq> []" "log_rel (c_Directory c) w []"
    and "fresh_names (Suc k) (c_Directory c) w" "c_Enable c" "0 \<le> c_FlushBatchSize c"
  shows "\<exists>w' db. InitDB_core early1 early2 engType n c True w = (w', Ok db) \<and> served (c_Directory c) k db [] \<and>
    storage_abs (db_st db) = Map.empty"
proof -
  obtain w' db where db: "InitDB_core early1 early2 engType n c True w = (w', Ok db)" "db_ok k (c_Directory c) db"
    "storage_abs (db_st db) = kv_replay (ops_of (all_rows [])) Map.empty" "log_has (c_Directory c) k (db_out db) (all_rows [])"
    "db_isMaster db" "wal_lsnGen (db_wal db) = NewIDGeneratorWithStart (max_lsn (all_rows []) 0)"
    using InitDB_core_ok [of w c "[]" k early1 early2 engType n True] assms by (auto simp: seg_bounded_def)
  then have "served (c_Directory c) k db []"
    by (simp add: served_def db_ok_def ops_of_def NewIDGeneratorWithStart_def max_lsn_def)
  with db show ?thesis by (auto simp: ops_of_def)
qed

section \<open>An example session\<close>

definition demo_master_conf :: config where
  "demo_master_conf = demo_conf\<lparr>cf_Replication := (cf_Replication demo_conf)\<lparr>rc_IsMaster := True\<rparr>\<rparr>"

text \<open>Two lines and the beginning of a third one, cut in the middle of the second.\<close>

definition demo_lines :: "byte list list" where
  "demo_lines = [bytes_of_string ''SET k v'', bytes_of_string ''GET k'']"

definition demo_input :: reads where
  "demo_input = [(bytes_of_string ''SET k v'' @ [newline] @ bytes_of_string ''GE'', None),
     (bytes_of_string ''T k'' @ [newline] @ bytes_of_string ''DEL'', None), ([], Some EOF)]"

lemma demo_parses:
  "Parse (bytes_of_string ''SET k v'' @ [newline]) = Ok (NewQuery SetMethodID [''k'', ''v''])"
  "Parse (bytes_of_string ''GET k'' @ [newline]) = Ok (NewQuery GetMethodID [''k''])"
  by code_simp+

lemma demo_lines_ok: "list_all line_ok demo_lines"
  using demo_parses demo_query_ok by (simp add: demo_lines_def line_ok_def newline_def bytes_of_string_def byte_of_char_def)

lemma demo_input:
  "conn_like demo_input" "src_bytes demo_input = concat (map (\<lambda>l. l @ [newline]) demo_lines) @ bytes_of_string ''DEL''"
  "newline \<notin> set (bytes_of_string ''DEL'')" "src_end demo_input = Some (EOF, [])"
  by (simp_all add: demo_input_def demo_lines_def newline_def bytes_of_string_def byte_of_char_def)

lemma demo_effect:
  "fold line_react demo_lines (Map.empty, []) = ([''k'' \<mapsto> ''v''],
     bytes_of_string ''OK'' @ [newline] @ bytes_of_string ''v'' @ [newline])"
  using demo_parses by (simp add: demo_lines_def line_react_def line_effect_def NewQuery_def qop_def reply_def method_ids)

section \<open>Properties of the whole program\<close>

text \<open>
  C1. The program from the network to the disk: started as a master on any consistent log, it
  serves a TCP connection, whatever pieces the bytes arrive in, exactly as the map that the log
  replays to would: every complete line is answered in order, and the connection ends. Stopped
  at that moment and started again on the files it leaves, with any engine, any schedule of its
  goroutines and with or without the replication of a master, it has the same map.
\<close>

theorem program_serves_and_survives:
  assumes w: "w_faults w = []" "world_ok w" "c_Directory (cf_WAL conf) = d" "d \<noteq> []" "log_rel d w fs"
      "fresh_names (Suc (Suc k + length ls)) d w" "fs \<noteq> [] \<Longrightarrow> d \<in> set (w_dirs w)"
    and c: "c_Enable (cf_WAL conf)" "0 \<le> c_FlushBatchSize (cf_WAL conf)" "seg_bounded (c_MaxSegmentSize (cf_WAL conf)) fs"
      "list_all (write_query \<circ> query_of) (all_rows fs)" "rc_IsMaster (cf_Replication conf)"
      "0 \<le> ts_MaxConn (rc_Server (cf_Replication conf))"
    and conn: "conn_like src" "src_bytes src = concat (map (\<lambda>l. l @ [newline]) ls) @ part" "newline \<notin> set part"
      "src_end src = Some (EOF, r)" "list_all line_ok ls"
  shows "\<exists>w' db repl c. InitDB early1 early2 conf w now faults = (w', Ok (db, repl)) \<and>
    handleConnection (Handle laguna_handler) (\<lambda>_. Background) (Suc (length ls + n))
      \<lparr>hc_r = NewReader src, hc_w = NewWriter \<lparr>sk_out = [], sk_faults = []\<rparr>, hc_db = db\<rparr> sem =
        Some \<lparr>sv_conn = c, sv_sem = Release sem, sv_closed = True\<rparr> \<and>
    (storage_abs (db_st (hc_db c)), written (hc_w c)) = fold line_react ls (kv_replay (ops_of (all_rows fs)) Map.empty, []) \<and>
    (\<forall>conf2. same_config d (db_out (hc_db c)) (cf_WAL conf2) \<and> rc_IsMaster (cf_Replication conf2) \<and>
        0 \<le> ts_MaxConn (rc_Server (cf_Replication conf2)) \<longrightarrow>
      (\<exists>w2 db2 repl2. InitDB early1 early2 conf2 (snd (db_out (hc_db c))) now faults = (w2, Ok (db2, repl2)) \<and>
        storage_abs (db_st db2) = storage_abs (db_st (hc_db c))))"
proof -
  have repl: "\<exists>r. InitReplication st cf sm now faults = Ok r"
    if "rc_IsMaster (cf_Replication cf)" "0 \<le> ts_MaxConn (rc_Server (cf_Replication cf))" for st cf sm
    using that by (simp add: InitReplication_def initMaster_def NewListener_def NewSemaphore_def or_default_def
        defaultMaxConn_def Let_def)
  obtain w' db where db: "InitDB_core early1 early2 (ec_Type (cf_Engine conf)) (ec_Shards (cf_Engine conf)) (cf_WAL conf) True w = (w', Ok db)"
    "db_ok (Suc k + length ls) d db" "storage_abs (db_st db) = kv_replay (ops_of (all_rows fs)) Map.empty" "db_isMaster db"
    using InitDB_core_ok [of w "cf_WAL conf" fs "Suc k + length ls" early1 early2 "ec_Type (cf_Engine conf)"
        "ec_Shards (cf_Engine conf)" True] w c by auto
  obtain rp where init: "InitDB early1 early2 conf w now faults = (w', Ok (db, rp))"
    using db(1) c(5,6) repl [of conf "db_st db" "db_out db"] by (auto simp: InitDB_def)
  obtain x where x: "handleConnection (Handle laguna_handler) (\<lambda>_. Background) (Suc (length ls + n))
      \<lparr>hc_r = NewReader src, hc_w = NewWriter \<lparr>sk_out = [], sk_faults = []\<rparr>, hc_db = db\<rparr> sem =
        Some \<lparr>sv_conn = x, sv_sem = Release sem, sv_closed = True\<rparr>"
    "(storage_abs (db_st (hc_db x)), written (hc_w x)) = fold line_react ls (storage_abs (db_st db), [])"
    "db_ok (Suc k) d (hc_db x)"
    using tcp_session [OF conn db(2,4)] by blast
  obtain xs where xs: "log_has d (Suc k) (db_out (hc_db x)) xs" "list_all (write_query \<circ> query_of) xs"
    "storage_abs (db_st (hc_db x)) = kv_replay (ops_of xs) Map.empty"
    using x(3) by (auto simp: db_ok_def)
  have "\<exists>w2 db2 repl2. InitDB early1 early2 conf2 (snd (db_out (hc_db x))) now faults = (w2, Ok (db2, repl2)) \<and>
      storage_abs (db_st db2) = storage_abs (db_st (hc_db x))"
    if c2: "same_config d (db_out (hc_db x)) (cf_WAL conf2)" "rc_IsMaster (cf_Replication conf2)"
      "0 \<le> ts_MaxConn (rc_Server (cf_Replication conf2))" for conf2
  proof -
    obtain w2 db2 where d2: "InitDB_core early1 early2 (ec_Type (cf_Engine conf2)) (ec_Shards (cf_Engine conf2)) (cf_WAL conf2) True
        (snd (db_out (hc_db x))) = (w2, Ok db2)" "storage_abs (db_st db2) = kv_replay (ops_of xs) Map.empty"
      using restart_on_log [OF xs(1,2) c2(1)] by blast
    obtain r2 where "InitReplication (db_st db2) conf2 (db_out db2) now faults = Ok r2" using repl [OF c2(2,3)] by blast
    with d2 c2(2) xs(3) show ?thesis by (auto simp: InitDB_def)
  qed
  with init x db(3) show ?thesis by (metis (no_types, lifting))
qed

theorem program_serves_and_survives_witness:
  "\<exists>w db repl c sem. InitDB True True demo_master_conf demo_log_world 0 [] = (w, Ok (db, repl)) \<and>
     handleConnection (Handle laguna_handler) (\<lambda>_. Background) 3
       \<lparr>hc_r = NewReader demo_input, hc_w = NewWriter \<lparr>sk_out = [], sk_faults = []\<rparr>, hc_db = db\<rparr> sem =
       Some \<lparr>sv_conn = c, sv_sem = Release sem, sv_closed = True\<rparr> \<and>
     written (hc_w c) = bytes_of_string ''OK'' @ [newline] @ bytes_of_string ''v'' @ [newline] \<and>
     storage_abs (db_st (hc_db c)) = [''k'' \<mapsto> ''v'']"
proof -
  have fuel: "Suc (length demo_lines + 0) = 3" by (simp add: demo_lines_def)
  have w: "w_faults demo_log_world = []" "world_ok demo_log_world" "c_Directory (cf_WAL demo_master_conf) = ''wal''" "''wal'' \<noteq> []"
    "log_rel ''wal'' demo_log_world []"
    by (simp_all add: demo_log_world_def demo_master_conf_def demo_conf_def demo_config_def world_ok_def log_rel_def dir_entries_def)
  have "Suc (Suc 0 + length demo_lines) = 4" by (simp add: demo_lines_def)
  then have fresh: "fresh_names (Suc (Suc 0 + length demo_lines)) ''wal'' demo_log_world" by (simp only: demo_fresh_names)
  have c: "c_Enable (cf_WAL demo_master_conf)" "0 \<le> c_FlushBatchSize (cf_WAL demo_master_conf)"
    "seg_bounded (c_MaxSegmentSize (cf_WAL demo_master_conf)) []" "list_all (write_query \<circ> query_of) (all_rows [])"
    "rc_IsMaster (cf_Replication demo_master_conf)" "0 \<le> ts_MaxConn (rc_Server (cf_Replication demo_master_conf))"
    by (simp_all add: demo_master_conf_def demo_conf_def demo_config_def seg_bounded_def)
  have eff: "fold line_react demo_lines (kv_replay (ops_of (all_rows [])) Map.empty, []) = ([''k'' \<mapsto> ''v''],
      bytes_of_string ''OK'' @ [newline] @ bytes_of_string ''v'' @ [newline])"
    using demo_effect by (simp add: ops_of_def)
  from program_serves_and_survives [where n = 0, OF w fresh _ c demo_input(1,2,3,4) demo_lines_ok, of True True 0 "[]", unfolded fuel eff]
  show ?thesis unfolding prod.inject by blast
qed

text \<open>
  C2. A replica equals its master: after any sequence of well-formed queries with at least one
  write on a master that started with an empty log, answered as by a map, a new slave with an
  empty log of its own reaches the storage of the master in a single round of the replication,
  whatever pieces the answer arrives in; that storage is the map of the queries, and the two logs
  hold the same rows. The rows together must be smaller than the 2 GiB of one message.
\<close>

theorem replica_equals_master:
  assumes w: "w_faults w = []" "world_ok w" "c_Directory c \<noteq> []" "log_rel (c_Directory c) w []"
      "fresh_names (Suc (length qs)) (c_Directory c) w" "c_Enable c" "0 \<le> c_FlushBatchSize c"
    and qs: "list_all (\<lambda>q. valid_query q \<and> query_ok q) qs" "list_ex write_query qs" "length qs < 2 ^ 64"
      "sum_list (map row_size qs) < 2 ^ 31"
    and slave: "log_has d' (length qs) out []" "storage_inv st" "storage_abs st = Map.empty" "cuts pc" "ctx_err ctx = None"
  shows "\<exists>w' db db' xs s'. InitDB_core early1 early2 engType n c True w = (w', Ok db) \<and>
    db_run qs db = (db', snd (kv_run qs Map.empty)) \<and> storage_abs (db_st db') = fst (kv_run qs Map.empty) \<and>
    getUpdates (master_link wait (c_Directory c) pc) early ctx
      (NewSlaveWithWal (link_to (db_out db')) (NewLogWriter (Some manager_target)) out st i) = (s', Ok ()) \<and>
    storage_abs (sl_st s') = storage_abs (db_st db') \<and> log_has (c_Directory c) 0 (db_out db') xs \<and> slave_logs d' 0 s' xs"
proof -
  obtain w' db where db: "InitDB_core early1 early2 engType n c True w = (w', Ok db)" "served (c_Directory c) (length qs) db []"
    "storage_abs (db_st db) = Map.empty"
    using InitDB_served [OF w] by blast
  obtain db' xs where run: "db_run qs db = (db', snd (kv_run qs Map.empty))" "served (c_Directory c) 0 db' xs"
    "storage_abs (db_st db') = fst (kv_run qs Map.empty)" "length xs \<le> length qs" "xs \<noteq> []" "length (encs xs) < 2 ^ 31"
    using served_run [of "c_Directory c" 0 qs db "[]"] db(2,3) qs(1,2,4) by fastforce
  obtain fs where fs: "master_ok (c_Directory c) fs (link_to (db_out db'))" "all_rows fs = xs"
    using served_master_ok [OF run(2)] run(4) qs(3) by auto
  define s where "s = (NewSlaveWithWal (link_to (db_out db')) (NewLogWriter (Some manager_target)) out st i :: (log_files, link) slave)"
  have s: "sl_cl s = link_to (db_out db')" "sl_lastLsnWritten s = 0" "sl_st s = st" "slave_logs d' (0 + length xs) s []"
    using slave(1,2) log_has_le [OF slave(1) run(4)] by (simp_all add: s_def NewSlaveWithWal_def slave_logs_def)
  have "storage_abs (db_st db') = kv_replay (ops_of xs) Map.empty" "log_has (c_Directory c) 0 (db_out db') xs"
    using run(2) by (auto simp: served_def)
  moreover obtain s' where "getUpdates (master_link wait (c_Directory c) pc) early ctx s = (s', Ok ())"
    "storage_abs (sl_st s') = kv_replay (ops_of xs) Map.empty" "slave_logs d' 0 s' ([] @ xs)"
    using round_rows [where s = s and before = "[]" and rows = xs and k = 0 and d = "c_Directory c" and fs = fs
        and wait = wait and early = early and xs = "[]" and d' = d' and pc = pc and ctx = ctx] fs s slave(3-5) run(5,6)
      served_first [OF run(2)] by auto
  ultimately show ?thesis using db(1) run(1,3) unfolding s_def by fastforce
qed

theorem replica_equals_master_witness:
  "\<exists>w db db' out st s'. InitDB_core True True ''inmemory'' 4 demo_config True demo_log_world = (w, Ok db) \<and>
     db_run [NewQuery SetMethodID [''k'', ''v'']] db = (db', [Ok ''OK'']) \<and>
     getUpdates (master_link (\<lambda>_. None) ''wal'' bytewise) True Background
       (NewSlaveWithWal (link_to (db_out db')) (NewLogWriter (Some manager_target)) out st 0) = (s', Ok ()) \<and>
     storage_abs (sl_st s') = [''k'' \<mapsto> ''v'']"
proof -
  let ?qs = "[NewQuery SetMethodID [''k'', ''v'']]"
  have w: "w_faults demo_log_world = []" "world_ok demo_log_world" "c_Directory demo_config \<noteq> []"
    "log_rel (c_Directory demo_config) demo_log_world []" "c_Enable demo_config" "0 \<le> c_FlushBatchSize demo_config"
    by (simp_all add: demo_log_world_def demo_config_def world_ok_def log_rel_def dir_entries_def)
  have fresh: "fresh_names (Suc (length ?qs)) (c_Directory demo_config) demo_log_world"
    by (rule fresh_names_from_clock [of _ _ "[]"])
      (simp_all add: demo_log_world_def dir_entries_def next_times_def upt_rec)
  have qs: "list_all (\<lambda>q. valid_query q \<and> query_ok q) ?qs" "list_ex write_query ?qs" "length ?qs < 2 ^ 64"
    using demo_query_ok by simp_all
  have size: "sum_list (map row_size ?qs) < 2 ^ 31"
    by (simp add: row_size_def NewQuery_def NewRow_def enc_def Marshal_def)
  obtain out where out: "log_has ''wal'' (length ?qs) out []" using demo_log_rows [of "[]" "length ?qs"] by auto
  obtain st where st: "storage_inv st" "storage_abs st = Map.empty" using demo_storage by blast
  have bg: "ctx_err Background = None" by (simp add: Background_def)
  have "kv_run ?qs Map.empty = ([''k'' \<mapsto> ''v''], [Ok ''OK''])" "c_Directory demo_config = ''wal''"
    by (simp_all add: NewQuery_def qop_def method_ids demo_config_def)
  with replica_equals_master [OF w(1-4) fresh w(5,6) qs size out st cuts_bytewise bg, of True True "''inmemory''" 4 "\<lambda>_. None" True 0]
  show ?thesis unfolding fst_conv snd_conv by (metis (no_types, lifting) fst_conv snd_conv)
qed

text \<open>
  C31. Two concurrent writes can keep the replication busy for ever: from an empty log there is a
  run of two calls of \<^verbatim>\<open>Write\<close> with the worker after which the log of the master holds the rows 2
  and 1 in this order, since a number is drawn before its row enters the channel; a new slave of
  this master gets row 1 in its first round and both rows again in each of the following rounds,
  writes them to its log every time, and never gets past number 1.
\<close>

theorem concurrent_writes_break_replication:
  assumes wal: "NewWAL c = Ok w" "c_Enable c" "3 \<le> wal_flushBatchSize w" "log_has d 2 s []"
    and q: "query_ok q1" "write_query q1" "query_ok q2" "write_query q2" "row_size q1 + row_size q2 < 2 ^ 31"
    and slave: "log_has d' (Suc (t * 2)) out []" "storage_inv st" "cuts pc"
  shows "\<exists>ws r1 r2. (wstep query_ok wal_writer)\<^sup>*\<^sup>* (wal_start w s) ws \<and>
    r1 = NewRow 1 (q_methodID q1) (q_args q1) \<and> r2 = NewRow 2 (q_methodID q2) (q_args q2) \<and>
    log_has d 0 (ws_out ws) [r2, r1] \<and>
    (\<exists>s'. startReplication (master_link wait d pc) early (replicate (Suc t) Background)
        (NewSlaveWithWal (link_to (ws_out ws)) (NewLogWriter (Some manager_target)) out st i) = (s', Hang) \<and>
      sl_lastLsnWritten s' = 1 \<and> slave_logs d' 0 s' (r1 # concat (replicate t [r2, r1])))"
proof -
  define r1 r2 where r: "r1 = NewRow 1 (q_methodID q1) (q_args q1)" "r2 = NewRow 2 (q_methodID q2) (q_args q2)"
  note f = NewWAL_fields [OF wal(1,2)]
  obtain ws where ws: "(wstep query_ok wal_writer)\<^sup>*\<^sup>* (wal_start w s) ws" "log_has d 0 (ws_out ws) [r2, r1]"
    using lws.out_of_order_run [OF wal(4) q(1,3) f(1-3,5,4)] wal(3) by (auto simp: r)
  have lsn: "r_lsnID r1 = 1" "r_lsnID r2 = 2" by (simp_all add: r NewRow_def)
  have size: "length (encs [r2, r1]) < 2 ^ 31" "length (encs [r1]) < 2 ^ 31"
    using q(5) row_size_of by (simp_all add: r encs_def)
  have "list_all (write_query \<circ> query_of) [r2, r1]" using q(2,4) by (simp add: r query_of_def NewRow_def NewQuery_def write_query_def)
  then obtain fs where fs: "master_ok d fs (link_to (ws_out ws))" "all_rows fs = [r2, r1]"
    using log_master_ok [OF ws(2)] lsn by auto
  define s0 where "s0 = (NewSlaveWithWal (link_to (ws_out ws)) (NewLogWriter (Some manager_target)) out st i :: (log_files, link) slave)"
  have s0: "sl_cl s0 = link_to (ws_out ws)" "sl_lastLsnWritten s0 = 0" "slave_logs d' (t * 2 + length [r1]) s0 []"
    using slave(1,2) by (simp_all add: s0_def NewSlaveWithWal_def slave_logs_def)
  have bg: "ctx_err Background = None" by (simp add: Background_def)
  obtain s1 where s1: "getUpdates (master_link wait d pc) early Background s0 = (s1, Ok ())" "slave_logs d' (t * 2) s1 [r1]"
    "sl_lastLsnWritten s1 = 1" "master_ok d fs (sl_cl s1)"
    using round_rows [of d fs s0 pc Background "[r2]" "[r1]" d' "t * 2" "[]" wait early] fs s0 slave(3) bg size(2) lsn by auto
  obtain s' where "startReplication (master_link wait d pc) early (replicate t Background) s1 = (s', Hang)"
    "sl_lastLsnWritten s' = 1" "slave_logs d' 0 s' (r1 # concat (replicate t [r2, r1]))"
    using out_of_order_rows_refetched [of pc fs "[]" r2 "[]" r1 d s1 d' 0 t "[r1]" wait early] fs(2) s1 slave(3) lsn size(1)
    by (auto simp: mult_2_right)
  with s1(1) bg have "startReplication (master_link wait d pc) early (replicate (Suc t) Background) s0 = (s', Hang)" by simp
  then show ?thesis
    using ws r \<open>sl_lastLsnWritten s' = 1\<close> \<open>slave_logs d' 0 s' _\<close> unfolding s0_def by blast
qed

theorem concurrent_writes_break_replication_witness:
  "\<exists>s ws out st s' a b. (wstep query_ok wal_writer)\<^sup>*\<^sup>* (wal_start demo_wal s) ws \<and> r_lsnID a = 2 \<and> r_lsnID b = 1 \<and>
     log_has ''wal'' 0 (ws_out ws) [a, b] \<and>
     startReplication (master_link (\<lambda>_. None) ''wal'' bytewise) True (replicate 2 Background)
       (NewSlaveWithWal (link_to (ws_out ws)) (NewLogWriter (Some manager_target)) out st 0) = (s', Hang) \<and>
     slave_logs ''wal'' 0 s' [b, a, b]"
proof -
  let ?q1 = "NewQuery SetMethodID [''k'', ''v'']" and ?q2 = "NewQuery DelMethodID [''k'']"
  obtain s where s3: "log_has ''wal'' 3 s []" using demo_log by blast
  have s: "log_has ''wal'' 2 s []" by (rule log_has_le [OF s3]) simp
  have q: "query_ok ?q1" "write_query ?q1" "query_ok ?q2" "write_query ?q2" "row_size ?q1 + row_size ?q2 < 2 ^ 31"
    by (simp_all add: query_ok_def write_query_def row_size_def NewQuery_def NewRow_def enc_def Marshal_def method_ids)
  have c: "c_Enable demo_config" "3 \<le> wal_flushBatchSize demo_wal" by (simp_all add: demo_config_def demo_wal_def)
  obtain out where out: "log_has ''wal'' (Suc (1 * 2)) out []" using demo_log_rows [of "[]" 3] by auto
  obtain st where st: "storage_inv st" using demo_storage by blast
  from concurrent_writes_break_replication [OF demo_wal c s q out st cuts_bytewise, of "\<lambda>_. None" True 0]
  obtain ws s' where "(wstep query_ok wal_writer)\<^sup>*\<^sup>* (wal_start demo_wal s) ws"
    "log_has ''wal'' 0 (ws_out ws) [NewRow 2 (q_methodID ?q2) (q_args ?q2), NewRow 1 (q_methodID ?q1) (q_args ?q1)]"
    "startReplication (master_link (\<lambda>_. None) ''wal'' bytewise) True (replicate 2 Background)
       (NewSlaveWithWal (link_to (ws_out ws)) (NewLogWriter (Some manager_target)) out st 0) = (s', Hang)"
    "slave_logs ''wal'' 0 s' [NewRow 1 (q_methodID ?q1) (q_args ?q1), NewRow 2 (q_methodID ?q2) (q_args ?q2),
       NewRow 1 (q_methodID ?q1) (q_args ?q1)]"
    by (auto simp: numeral_2_eq_2)
  moreover have "r_lsnID (NewRow 2 (q_methodID ?q2) (q_args ?q2)) = 2" "r_lsnID (NewRow 1 (q_methodID ?q1) (q_args ?q1)) = 1"
    by (simp_all add: NewRow_def)
  ultimately show ?thesis by blast
qed

end
